theory Spec2Isabelle
  imports Complex_Main "HOL-Library.Word" "HOL-Library.Multiset" "HOL-Library.Log_Nat"
begin

unbundle bit_operations_syntax

section \<open>JavaScript numbers\<close>

text \<open>
  A JavaScript \<open>number\<close> is modelled as a real or one of the three IEEE special values.
  The operators \<open>+\<close>, \<open>-\<close>, \<open>*\<close> and \<open>/\<close> of this section are exact on finite values
  (they neither round nor overflow, and the sign of zero is not modelled); the rounded
  operations \<open>add64\<close>, \<open>sub64\<close>, \<open>mul64\<close>, \<open>div64\<close> and \<open>sqrt64\<close> are defined further
  down and used where a property depends on the rounding. The special values follow
  IEEE 754: \<open>0/0\<close> is \<open>NaN\<close>, \<open>x/0\<close> is an infinity, \<open>NaN\<close> propagates and every
  comparison with \<open>NaN\<close> is false.
\<close>

datatype number = Fin real | PInf | NInf | NaN

fun signum :: "number \<Rightarrow> int" where
  "signum (Fin a) = (if a > 0 then 1 else if a < 0 then -1 else 0)"
| "signum PInf = 1"
| "signum NInf = -1"
| "signum NaN = 0"

definition inf_of_sign :: "int \<Rightarrow> number" where
  "inf_of_sign s = (if s > 0 then PInf else if s < 0 then NInf else NaN)"

instantiation number :: "{plus, minus, uminus, times, inverse, ord, abs}"
begin

fun plus_number :: "number \<Rightarrow> number \<Rightarrow> number" where
  "plus_number (Fin a) (Fin b) = Fin (a + b)"
| "plus_number NaN _ = NaN"
| "plus_number _ NaN = NaN"
| "plus_number PInf NInf = NaN"
| "plus_number NInf PInf = NaN"
| "plus_number PInf _ = PInf"
| "plus_number _ PInf = PInf"
| "plus_number NInf _ = NInf"
| "plus_number _ NInf = NInf"

fun uminus_number :: "number \<Rightarrow> number" where
  "uminus_number (Fin a) = Fin (- a)"
| "uminus_number PInf = NInf"
| "uminus_number NInf = PInf"
| "uminus_number NaN = NaN"

definition minus_number :: "number \<Rightarrow> number \<Rightarrow> number" where
  "minus_number a b = a + (- b)"

fun times_number :: "number \<Rightarrow> number \<Rightarrow> number" where
  "times_number (Fin a) (Fin b) = Fin (a * b)"
| "times_number NaN _ = NaN"
| "times_number _ NaN = NaN"
| "times_number a b = inf_of_sign (signum a * signum b)"

fun divide_number :: "number \<Rightarrow> number \<Rightarrow> number" where
  "divide_number (Fin a) (Fin b) =
     (if b \<noteq> 0 then Fin (a / b) else inf_of_sign (signum (Fin a)))"
| "divide_number NaN _ = NaN"
| "divide_number _ NaN = NaN"
| "divide_number (Fin a) _ = Fin 0"
| "divide_number PInf (Fin b) = (if b \<ge> 0 then PInf else NInf)"
| "divide_number NInf (Fin b) = (if b \<ge> 0 then NInf else PInf)"
| "divide_number _ _ = NaN"

definition inverse_number :: "number \<Rightarrow> number" where
  "inverse_number a = divide (Fin 1) a"

fun less_eq_number :: "number \<Rightarrow> number \<Rightarrow> bool" where
  "less_eq_number (Fin a) (Fin b) = (a \<le> b)"
| "less_eq_number NaN _ = False"
| "less_eq_number _ NaN = False"
| "less_eq_number NInf _ = True"
| "less_eq_number _ PInf = True"
| "less_eq_number _ _ = False"

fun less_number :: "number \<Rightarrow> number \<Rightarrow> bool" where
  "less_number (Fin a) (Fin b) = (a < b)"
| "less_number NaN _ = False"
| "less_number _ NaN = False"
| "less_number PInf _ = False"
| "less_number _ NInf = False"
| "less_number _ _ = True"

fun abs_number :: "number \<Rightarrow> number" where
  "abs_number (Fin a) = Fin \<bar>a\<bar>"
| "abs_number PInf = PInf"
| "abs_number NInf = PInf"
| "abs_number NaN = NaN"

instance ..

end

text \<open>The operators \<open>===\<close>, \<open>||\<close> and \<open>??\<close> as the code uses them on numbers.\<close>

definition strict_eq :: "number \<Rightarrow> number \<Rightarrow> bool" where
  "strict_eq a b = (a \<noteq> NaN \<and> a = b)"

definition or_else :: "number \<Rightarrow> number \<Rightarrow> number" where
  "or_else a b = (if a = Fin 0 \<or> a = NaN then b else a)"

definition nullish :: "'a option \<Rightarrow> 'a \<Rightarrow> 'a" where
  "nullish a b = (case a of None \<Rightarrow> b | Some v \<Rightarrow> v)"

fun Math_sqrt :: "number \<Rightarrow> number" where
  "Math_sqrt (Fin a) = (if a \<ge> 0 then Fin (sqrt a) else NaN)"
| "Math_sqrt PInf = PInf"
| "Math_sqrt _ = NaN"

fun Math_log :: "number \<Rightarrow> number" where
  "Math_log (Fin a) = (if a > 0 then Fin (ln a) else if a = 0 then NInf else NaN)"
| "Math_log PInf = PInf"
| "Math_log _ = NaN"

fun Math_cos :: "number \<Rightarrow> number" where
  "Math_cos (Fin a) = Fin (cos a)"
| "Math_cos _ = NaN"

fun Math_floor :: "number \<Rightarrow> number" where
  "Math_floor (Fin a) = Fin (of_int \<lfloor>a\<rfloor>)"
| "Math_floor a = a"

fun Math_ceil :: "number \<Rightarrow> number" where
  "Math_ceil (Fin a) = Fin (of_int \<lceil>a\<rceil>)"
| "Math_ceil a = a"

text \<open>\<open>Math.round\<close> rounds halves towards positive infinity.\<close>

fun Math_round :: "number \<Rightarrow> number" where
  "Math_round (Fin a) = Fin (of_int \<lfloor>a + 1 / 2\<rfloor>)"
| "Math_round a = a"

definition Math_max :: "number \<Rightarrow> number \<Rightarrow> number" where
  "Math_max a b = (if a = NaN \<or> b = NaN then NaN else if a < b then b else a)"

definition Math_min :: "number \<Rightarrow> number \<Rightarrow> number" where
  "Math_min a b = (if a = NaN \<or> b = NaN then NaN else if b < a then b else a)"

text \<open>\<open>Math.max(...xs)\<close>; the maximum of no arguments is \<open>-Infinity\<close>.\<close>

definition Math_max_list :: "number list \<Rightarrow> number" where
  "Math_max_list xs = foldl Math_max NInf xs"

text \<open>
  Array reads. \<open>elem_at xs i\<close> is \<open>xs[i]\<close> for a number \<open>i\<close>: \<open>None\<close> (\<open>undefined\<close>) unless \<open>i\<close>
  is an index of the array. In arithmetic \<open>undefined\<close> converts to \<open>NaN\<close>.
\<close>

definition index_of :: "number \<Rightarrow> nat option" where
  "index_of i = (case i of
       Fin r \<Rightarrow> if 0 \<le> r \<and> r = of_int \<lfloor>r\<rfloor> then Some (nat \<lfloor>r\<rfloor>) else None
     | _ \<Rightarrow> None)"

definition elem_at :: "'a list \<Rightarrow> number \<Rightarrow> 'a option" where
  "elem_at xs i = (case index_of i of
       Some n \<Rightarrow> if n < length xs then Some (xs ! n) else None
     | None \<Rightarrow> None)"

definition to_number :: "number option \<Rightarrow> number" where
  "to_number v = (case v of None \<Rightarrow> NaN | Some x \<Rightarrow> x)"

definition first_num :: "number list \<Rightarrow> number" where
  "first_num xs = (case xs of [] \<Rightarrow> NaN | x # _ \<Rightarrow> x)"

definition last_num :: "number list \<Rightarrow> number" where
  "last_num xs = (case xs of [] \<Rightarrow> NaN | _ # _ \<Rightarrow> last xs)"

definition len :: "'a list \<Rightarrow> number" where
  "len xs = Fin (real (length xs))"

text \<open>
  \<open>Array.prototype.sort\<close> with a comparator: a stable sort; a comparator result that is
  not less than zero (\<open>NaN\<close> included) leaves the earlier element first. For a comparator
  that is not a consistent ordering the engine's order is implementation-defined, and
  this insertion sort is one admissible outcome.
\<close>

fun insert_by :: "('a \<Rightarrow> 'a \<Rightarrow> number) \<Rightarrow> 'a \<Rightarrow> 'a list \<Rightarrow> 'a list" where
  "insert_by cmp x [] = [x]"
| "insert_by cmp x (y # ys) =
     (if cmp x y > Fin 0 then y # insert_by cmp x ys else x # y # ys)"

fun sort_by :: "('a \<Rightarrow> 'a \<Rightarrow> number) \<Rightarrow> 'a list \<Rightarrow> 'a list" where
  "sort_by cmp [] = []"
| "sort_by cmp (x # xs) = insert_by cmp x (sort_by cmp xs)"

section \<open>Seeded random numbers (Mulberry32)\<close>

type_synonym SeededRNG = "32 word"

text \<open>\<open>seed | 0\<close>: truncate towards zero and wrap to 32 bits; non-finite values give 0.\<close>

definition ToInt32 :: "number \<Rightarrow> 32 word" where
  "ToInt32 x = (case x of
       Fin r \<Rightarrow> word_of_int (if r \<ge> 0 then \<lfloor>r\<rfloor> else \<lceil>r\<rceil>)
     | _ \<Rightarrow> 0)"

definition SeededRNG_new :: "number \<Rightarrow> SeededRNG" where
  "SeededRNG_new seed = ToInt32 seed"

definition rng_next :: "SeededRNG \<Rightarrow> number \<times> SeededRNG" where
  "rng_next state0 =
     (let state = state0 + 0x6d2b79f5;
          t1 = (state XOR drop_bit 15 state) * (1 OR state);
          t2 = (t1 + (t1 XOR drop_bit 7 t1) * (61 OR t1)) XOR t1
      in (Fin (real (unat (t2 XOR drop_bit 14 t2)) / 4294967296), state))"

definition nextGaussian :: "SeededRNG \<Rightarrow> number \<times> SeededRNG" where
  "nextGaussian rng0 =
     (let (u1, rng1) = rng_next rng0;
          (u2, rng2) = rng_next rng1
      in (Math_sqrt (Fin (- 2) * Math_log (or_else u1 (Fin (1 / 10 ^ 10))))
            * Math_cos (Fin 2 * Fin pi * u2), rng2))"

section \<open>Statistics\<close>

definition mean :: "number list \<Rightarrow> number" where
  "mean arr = foldl (\<lambda>s v. s + v) (Fin 0) arr / len arr"

definition stddev :: "number list \<Rightarrow> number" where
  "stddev arr =
     (let m = mean arr;
          variance = foldl (\<lambda>s v. s + (v - m) * (v - m)) (Fin 0) arr / len arr
      in Math_sqrt variance)"

definition percentile :: "number list \<Rightarrow> number \<Rightarrow> number" where
  "percentile srt p =
     (let idx = (p / Fin 100) * (len srt - Fin 1);
          lo = Math_floor idx;
          hi = Math_ceil idx
      in if strict_eq lo hi then to_number (elem_at srt lo)
         else to_number (elem_at srt lo)
                + (to_number (elem_at srt hi) - to_number (elem_at srt lo)) * (idx - lo))"

section \<open>Domain types\<close>

datatype AssetClass =
    usEquities | intlEquities | emergingEquities
  | longTermBonds | shortTermBonds | tips
  | reits | commodities | gold | cash

text \<open>
  A \<open>Record<AssetClass, number>\<close> is a partial map: the code reads every entry through
  \<open>?? 0\<close>, so a key may be absent. The keys of a record are enumerated in the order of
  \<open>ALL_ASSETS\<close>; the sums taken over \<open>Object.values\<close> and \<open>Object.entries\<close> do not
  depend on the order in exact arithmetic.
\<close>

type_synonym Allocations = "AssetClass \<rightharpoonup> number"

definition ALL_ASSETS :: "AssetClass list" where
  "ALL_ASSETS =
     [usEquities, intlEquities, emergingEquities,
      longTermBonds, shortTermBonds, tips,
      reits, commodities, gold, cash]"

definition entries :: "Allocations \<Rightarrow> (AssetClass \<times> number) list" where
  "entries m = List.map_filter (\<lambda>k. map_option (Pair k) (m k)) ALL_ASSETS"

definition values_of :: "Allocations \<Rightarrow> number list" where
  "values_of m = map snd (entries m)"

record Portfolio =
  allocations :: Allocations

record AssetAssumptions =
  expectedReturn :: number
  volatility :: number
  betaRate :: number
  betaInflation :: number
  betaGrowth :: number
  betaRiskOff :: number

datatype Regime = normal | stress_2022 | stagflation | deflation

text \<open>Of a regime's configuration the engine reads the two numeric fields only.\<close>

record RegimeConfig =
  probability :: number
  volMultiplier :: number

record SimulationConfig =
  numScenarios :: nat
  horizonMonths :: nat
  seed :: "number option"
  regimesEnabled :: "Regime list"

record MacroShock =
  rateChange :: number
  inflationShock :: number
  growthShock :: number
  riskOffShock :: number
  regime :: Regime

record ScenarioResult =
  scenarioId :: nat
  macro :: MacroShock
  assetReturns :: "AssetClass \<rightharpoonup> number"
  portfolioReturn :: number
  drawdown :: number
  path :: "number list"

record Metrics =
  p5Return :: number
  p25Return :: number
  p50Return :: number
  p75Return :: number
  p95Return :: number
  meanReturn :: number
  stdDev :: number
  sharpeRatio :: number
  maxDrawdown :: number
  cvar95 :: number
  probLoss :: number

record TailFlags =
  correlationBreakdown :: bool
  rateShockRisk :: bool
  inflationShockRisk :: bool
  concentrationRisk :: bool
  durationRisk :: bool

text \<open>
  \<open>runId\<close> is the string \<open>sim_<Date.now()>_<six base-36 digits of Math.random()>\<close>; it is
  kept as the pair of the two values that determine it.
\<close>

record SimulationSummary =
  runId :: "int \<times> string"
  portfolio :: Portfolio
  config :: SimulationConfig
  metrics :: Metrics
  tailFlags :: TailFlags
  worstScenarios :: "ScenarioResult list"
  bestScenarios :: "ScenarioResult list"
  medianScenario :: "ScenarioResult option"
  returnDistribution :: "nat list"
  correlationMatrix :: "AssetClass \<rightharpoonup> (AssetClass \<rightharpoonup> number)"

text \<open>
  The table \<open>data/assumptions.json\<close> is a parameter of the model: the asset keys in file
  order (\<open>ASSETS = Object.keys(assumptions.assets)\<close>), the per-asset assumptions and
  the regime table.
\<close>

record Assumptions =
  ASSETS :: "AssetClass list"
  assetData :: "AssetClass \<Rightarrow> AssetAssumptions"
  regimes :: "Regime \<rightharpoonup> RegimeConfig"

text \<open>
  What a call reads from outside its arguments: the clock at the construction of the
  generator (used when no seed is given), the clock and the random suffix of \<open>runId\<close>.
\<close>

record Ambient =
  now_rng :: int
  now_id :: int
  random_suffix :: string

text \<open>
  \<open>TypeError\<close> is the only exception the engine can raise (a property read on
  \<open>undefined\<close>). \<open>Unmodelled\<close> marks the two situations the model does not follow
  the code into: an empty population, and an array pick outside the array (which the
  range of the generator excludes, lemma \<open>pick_Some\<close>).
\<close>

datatype js_error = TypeError | Unmodelled

section \<open>Scenario generator\<close>

text \<open>
  \<open>regimes[r]\<close> of a regime missing from the table is \<open>undefined\<close>, and reading its
  \<open>probability\<close> in the following \<open>reduce\<close> throws.
\<close>

fun regimeEntries ::
  "(Regime \<rightharpoonup> RegimeConfig) \<Rightarrow> Regime list \<Rightarrow> js_error + (Regime \<times> RegimeConfig) list" where
  "regimeEntries rt [] = Inr []"
| "regimeEntries rt (r # rs) =
     (case rt r of
        None \<Rightarrow> Inl TypeError
      | Some c \<Rightarrow>
          (case regimeEntries rt rs of
             Inl e \<Rightarrow> Inl e
           | Inr es \<Rightarrow> Inr ((r, c) # es)))"

fun buildCdf :: "number \<Rightarrow> number \<Rightarrow> (Regime \<times> RegimeConfig) list \<Rightarrow> (Regime \<times> number) list" where
  "buildCdf totalProb cum [] = []"
| "buildCdf totalProb cum ((r, c) # es) =
     (let cum' = cum + probability c / totalProb
      in (r, cum') # buildCdf totalProb cum' es)"

fun firstCovering :: "number \<Rightarrow> (Regime \<times> number) list \<Rightarrow> Regime option" where
  "firstCovering u [] = None"
| "firstCovering u ((r, cumProb) # es) =
     (if u \<le> cumProb then Some r else firstCovering u es)"

text \<open>\<open>cdf[cdf.length - 1].regime\<close> throws on an empty table.\<close>

definition sampleRegime :: "number \<Rightarrow> (Regime \<times> number) list \<Rightarrow> js_error + Regime" where
  "sampleRegime u cdf =
     (case cdf of
        [] \<Rightarrow> Inl TypeError
      | _ # _ \<Rightarrow> Inr (case firstCovering u cdf of Some r \<Rightarrow> r | None \<Rightarrow> fst (last cdf)))"

definition correlationOverride ::
  "Regime \<Rightarrow> number \<Rightarrow> number \<Rightarrow> number \<Rightarrow> number \<Rightarrow> number \<times> number" where
  "correlationOverride rg volMult rate infl riskOff =
     (if rg = stress_2022 then
        (infl * Fin 0.4 + (rate / Fin 100) * Fin 0.6,
         riskOff * Fin 0.5 + \<bar>rate / Fin 100\<bar> * Fin 0.5)
      else if rg = stagflation then
        (let adjInflation = \<bar>infl\<bar> * volMult
         in (adjInflation, riskOff * Fin 0.3 + \<bar>adjInflation\<bar> * Fin 0.3))
      else if rg = deflation then
        (- \<bar>infl\<bar>, \<bar>riskOff\<bar> * volMult)
      else (infl, riskOff))"

definition tailJump :: "number \<Rightarrow> SeededRNG \<Rightarrow> number \<times> SeededRNG" where
  "tailJump rate rng0 =
     (let (j, rng1) = rng_next rng0
      in if j < Fin 0.05 then
           (let (s, rng2) = rng_next rng1;
                (a, rng3) = rng_next rng2
            in (rate + (if s > Fin 0.5 then Fin 1 else Fin (- 1)) * (Fin 200 + a * Fin 200), rng3))
         else (rate, rng1))"

definition genScenario ::
  "(Regime \<rightharpoonup> RegimeConfig) \<Rightarrow> (Regime \<times> number) list \<Rightarrow> SeededRNG
     \<Rightarrow> js_error + (MacroShock \<times> SeededRNG)" where
  "genScenario rt cdf rng0 =
     (let (u, rng1) = rng_next rng0
      in case sampleRegime u cdf of
           Inl e \<Rightarrow> Inl e
         | Inr rg \<Rightarrow>
            (case rt rg of
               None \<Rightarrow> Inl TypeError
             | Some regimeConf \<Rightarrow>
                (let volMult = volMultiplier regimeConf;
                     (g1, rng2) = nextGaussian rng1;
                     rate = g1 * Fin 100 * volMult;
                     (g2, rng3) = nextGaussian rng2;
                     infl = g2 * Fin 2 * volMult;
                     (g3, rng4) = nextGaussian rng3;
                     growth = g3 * Fin 2.5 * volMult;
                     (g4, rng5) = nextGaussian rng4;
                     riskOff = g4 * Fin 1 * volMult;
                     (adjInflation, adjRiskOff) = correlationOverride rg volMult rate infl riskOff;
                     (mutatedRate, rng6) = tailJump rate rng5
                 in Inr (\<lparr> rateChange = mutatedRate, inflationShock = adjInflation,
                           growthShock = growth, riskOffShock = adjRiskOff, regime = rg \<rparr>,
                         rng6))))"

fun scenarioLoop ::
  "(Regime \<rightharpoonup> RegimeConfig) \<Rightarrow> (Regime \<times> number) list \<Rightarrow> nat \<Rightarrow> SeededRNG
     \<Rightarrow> js_error + (MacroShock list \<times> SeededRNG)" where
  "scenarioLoop rt cdf 0 rng = Inr ([], rng)"
| "scenarioLoop rt cdf (Suc n) rng =
     (case genScenario rt cdf rng of
        Inl e \<Rightarrow> Inl e
      | Inr (m, rng') \<Rightarrow>
          (case scenarioLoop rt cdf n rng' of
             Inl e \<Rightarrow> Inl e
           | Inr (ms, rng'') \<Rightarrow> Inr (m # ms, rng'')))"

definition generateScenarios ::
  "SimulationConfig \<Rightarrow> (Regime \<rightharpoonup> RegimeConfig) \<Rightarrow> SeededRNG
     \<Rightarrow> js_error + (MacroShock list \<times> SeededRNG)" where
  "generateScenarios cfg rt rng =
     (case regimeEntries rt (regimesEnabled cfg) of
        Inl e \<Rightarrow> Inl e
      | Inr es \<Rightarrow>
          (let totalProb = foldl (\<lambda>s e. s + probability (snd e)) (Fin 0) es;
               cdf = buildCdf totalProb (Fin 0) es
           in scenarioLoop rt cdf (numScenarios cfg) rng))"

section \<open>Monte Carlo simulation\<close>

definition dt :: number where
  "dt = Fin 1 / Fin 12"

definition factorReturn :: "AssetAssumptions \<Rightarrow> MacroShock \<Rightarrow> number" where
  "factorReturn a m =
     betaRate a * (rateChange m / Fin 100) +
     betaInflation a * (inflationShock m / Fin 10) +
     betaGrowth a * (growthShock m / Fin 10) +
     betaRiskOff a * riskOffShock m"

text \<open>The loop over \<open>ASSETS\<close>: an asset whose weight is \<open>=== 0\<close> draws no noise.\<close>

fun assetLoop ::
  "(AssetClass \<Rightarrow> AssetAssumptions) \<Rightarrow> Allocations \<Rightarrow> MacroShock \<Rightarrow> number
     \<Rightarrow> AssetClass list \<Rightarrow> (AssetClass \<rightharpoonup> number) \<Rightarrow> SeededRNG
     \<Rightarrow> (AssetClass \<rightharpoonup> number) \<times> SeededRNG" where
  "assetLoop ad al m monthlySteps [] acc rng = (acc, rng)"
| "assetLoop ad al m monthlySteps (asset # rest) acc rng =
     (if strict_eq (nullish (al asset) (Fin 0)) (Fin 0)
      then assetLoop ad al m monthlySteps rest acc rng
      else
        (let a = ad asset;
             idioVol = volatility a * Fin 0.5;
             (g, rng') = nextGaussian rng;
             idioNoise = g * idioVol * Math_sqrt (monthlySteps * dt);
             totalReturn = expectedReturn a * (monthlySteps * dt) + factorReturn a m + idioNoise
         in assetLoop ad al m monthlySteps rest (acc(asset \<mapsto> totalReturn)) rng'))"

definition monthlyReturnOf :: "Allocations \<Rightarrow> (AssetClass \<rightharpoonup> number) \<Rightarrow> number \<Rightarrow> number" where
  "monthlyReturnOf al ar monthlySteps =
     foldl (\<lambda>sum (asset, weight). sum + weight * nullish (ar asset) (Fin 0)) (Fin 0) (entries al)
       / monthlySteps"

text \<open>
  The wealth path: at step \<open>m\<close> the array has \<open>m\<close> elements, so \<open>path[m - 1]\<close> is its last
  element.
\<close>

fun pathLoop :: "number \<Rightarrow> nat \<Rightarrow> number list \<Rightarrow> SeededRNG \<Rightarrow> number list \<times> SeededRNG" where
  "pathLoop monthlyReturn 0 pth rng = (pth, rng)"
| "pathLoop monthlyReturn (Suc k) pth rng =
     (let (g, rng') = nextGaussian rng;
          noise = g * Fin 0.01
      in pathLoop monthlyReturn k
           (pth @ [last_num pth * (Fin 1 + monthlyReturn + noise)]) rng')"

fun drawdownLoop :: "number list \<Rightarrow> number \<Rightarrow> number \<Rightarrow> number" where
  "drawdownLoop [] peak maxDD = maxDD"
| "drawdownLoop (val # vals) peak maxDD =
     (let peak' = (if val > peak then val else peak);
          dd = (peak' - val) / peak'
      in drawdownLoop vals peak' (if dd > maxDD then dd else maxDD))"

definition simulateScenario ::
  "Assumptions \<Rightarrow> Portfolio \<Rightarrow> SimulationConfig \<Rightarrow> nat \<Rightarrow> MacroShock \<Rightarrow> SeededRNG
     \<Rightarrow> ScenarioResult \<times> SeededRNG" where
  "simulateScenario A pf cfg i m rng0 =
     (let monthlySteps = Fin (real (horizonMonths cfg));
          (ar, rng1) = assetLoop (assetData A) (allocations pf) m monthlySteps (ASSETS A)
                         Map.empty rng0;
          monthlyReturn = monthlyReturnOf (allocations pf) ar monthlySteps;
          (pth, rng2) = pathLoop monthlyReturn (horizonMonths cfg) [Fin 1] rng1;
          maxDD = drawdownLoop pth (first_num pth) (Fin 0);
          pr = last_num pth / first_num pth - Fin 1
      in (\<lparr> scenarioId = i, macro = m, assetReturns = ar, portfolioReturn = pr,
             drawdown = maxDD, path = pth \<rparr>, rng2))"

fun resultsLoop ::
  "Assumptions \<Rightarrow> Portfolio \<Rightarrow> SimulationConfig \<Rightarrow> nat \<Rightarrow> MacroShock list \<Rightarrow> SeededRNG
     \<Rightarrow> ScenarioResult list" where
  "resultsLoop A pf cfg i [] rng = []"
| "resultsLoop A pf cfg i (m # ms) rng =
     (let (r, rng') = simulateScenario A pf cfg i m rng
      in r # resultsLoop A pf cfg (Suc i) ms rng')"

subsection \<open>Aggregation\<close>

definition sortedReturns :: "ScenarioResult list \<Rightarrow> number list" where
  "sortedReturns results = sort_by (\<lambda>a b. a - b) (map portfolioReturn results)"

text \<open>\<open>Math.floor(returns.length * 0.05)\<close>, a count.\<close>

definition cutoff :: "number list \<Rightarrow> nat" where
  "cutoff returns = nat \<lfloor>real (length returns) * 0.05\<rfloor>"

definition cvar95_of :: "number list \<Rightarrow> number" where
  "cvar95_of returns = mean (take (cutoff returns) returns)"

definition sharpe_of :: "SimulationConfig \<Rightarrow> number list \<Rightarrow> number" where
  "sharpe_of cfg returns =
     (let riskFreeRate = Fin 0.04 * (Fin (real (horizonMonths cfg)) / Fin 12);
          avgReturn = mean returns;
          vol = stddev returns
      in if vol > Fin 0 then (avgReturn - riskFreeRate) / vol else Fin 0)"

definition activeAssets :: "Assumptions \<Rightarrow> Portfolio \<Rightarrow> AssetClass list" where
  "activeAssets A pf = filter (\<lambda>a. nullish (allocations pf a) (Fin 0) > Fin 0) (ASSETS A)"

definition assetSeries :: "ScenarioResult list \<Rightarrow> AssetClass \<Rightarrow> number list" where
  "assetSeries results a = map (\<lambda>r. nullish (assetReturns r a) (Fin 0)) results"

definition correlation :: "ScenarioResult list \<Rightarrow> AssetClass \<Rightarrow> AssetClass \<Rightarrow> number" where
  "correlation results a1 a2 =
     (let r1 = assetSeries results a1; m1 = mean r1; s1 = stddev r1;
          r2 = assetSeries results a2; m2 = mean r2; s2 = stddev r2
      in if s1 > Fin 0 \<and> s2 > Fin 0 then
           (let cov = foldl (\<lambda>sum (v, w). sum + (v - m1) * (w - m2)) (Fin 0) (zip r1 r2) / len r1
            in cov / (s1 * s2))
         else if a1 = a2 then Fin 1 else Fin 0)"

definition corrMatrix_of ::
  "Assumptions \<Rightarrow> Portfolio \<Rightarrow> ScenarioResult list \<Rightarrow> AssetClass \<rightharpoonup> (AssetClass \<rightharpoonup> number)" where
  "corrMatrix_of A pf results =
     (\<lambda>a1. if a1 \<in> set (activeAssets A pf)
            then Some (\<lambda>a2. if a2 \<in> set (activeAssets A pf)
                             then Some (correlation results a1 a2) else None)
            else None)"

definition stockBondCorr_of :: "Portfolio \<Rightarrow> (AssetClass \<rightharpoonup> (AssetClass \<rightharpoonup> number)) \<Rightarrow> number" where
  "stockBondCorr_of pf cm =
     (let al = allocations pf;
          hasEquities = (nullish (al usEquities) (Fin 0) > Fin 0
                           \<or> nullish (al intlEquities) (Fin 0) > Fin 0);
          hasBonds = (nullish (al longTermBonds) (Fin 0) > Fin 0);
          equityKey = (if to_number (al usEquities) > Fin 0 then usEquities else intlEquities)
      in if hasEquities \<and> hasBonds
         then nullish (case cm equityKey of None \<Rightarrow> None | Some row \<Rightarrow> row longTermBonds) (Fin 0)
         else Fin 0)"

definition hasLongDuration :: "Portfolio \<Rightarrow> bool" where
  "hasLongDuration pf = (nullish (allocations pf longTermBonds) (Fin 0) > Fin 0.15)"

definition tailFlags_of :: "Portfolio \<Rightarrow> (AssetClass \<rightharpoonup> (AssetClass \<rightharpoonup> number)) \<Rightarrow> TailFlags" where
  "tailFlags_of pf cm =
     (let maxAlloc = Math_max_list (values_of (allocations pf))
      in \<lparr> correlationBreakdown = (stockBondCorr_of pf cm > Fin 0.2),
           rateShockRisk = hasLongDuration pf,
           inflationShockRisk =
             (nullish (allocations pf longTermBonds) (Fin 0) > Fin 0.2
                \<and> nullish (allocations pf tips) (Fin 0) < Fin 0.1),
           concentrationRisk = (maxAlloc > Fin 0.4),
           durationRisk = hasLongDuration pf \<rparr>)"

text \<open>
  The histogram: \<open>histogram[bucket]++\<close> counts only when \<open>bucket\<close> is one of the indices
  \<open>0..19\<close> (any other value sets a property outside the array's elements).
\<close>

definition histogram_of :: "number list \<Rightarrow> nat list" where
  "histogram_of returns =
     (let minR = first_num returns;
          maxR = last_num returns;
          bucketSize = or_else ((maxR - minR) / Fin 20) (Fin 0.01)
      in foldl (\<lambda>h r.
            case index_of (Math_min (Fin 19) (Math_floor ((r - minR) / bucketSize))) of
              Some b \<Rightarrow> if b < length h then h[b := Suc (h ! b)] else h
            | None \<Rightarrow> h)
          (replicate 20 0) returns)"

definition sortedResults :: "ScenarioResult list \<Rightarrow> ScenarioResult list" where
  "sortedResults results = sort_by (\<lambda>a b. portfolioReturn a - portfolioReturn b) results"

definition countNegative :: "number list \<Rightarrow> number" where
  "countNegative returns = len (filter (\<lambda>r. r < Fin 0) returns)"

definition metrics_of :: "SimulationConfig \<Rightarrow> ScenarioResult list \<Rightarrow> Metrics" where
  "metrics_of cfg results =
     (let returns = sortedReturns results
      in \<lparr> p5Return = percentile returns (Fin 5),
           p25Return = percentile returns (Fin 25),
           p50Return = percentile returns (Fin 50),
           p75Return = percentile returns (Fin 75),
           p95Return = percentile returns (Fin 95),
           meanReturn = mean returns,
           stdDev = stddev returns,
           sharpeRatio = sharpe_of cfg returns,
           maxDrawdown = Math_max_list (map drawdown results),
           cvar95 = cvar95_of returns,
           probLoss = countNegative returns / len returns \<rparr>)"

text \<open>\<open>slice(0, 3)\<close>, \<open>slice(-3).reverse()\<close> and \<open>sorted[Math.floor(sorted.length / 2)]\<close>.\<close>

definition worst_of :: "ScenarioResult list \<Rightarrow> ScenarioResult list" where
  "worst_of srt = take 3 srt"

definition best_of :: "ScenarioResult list \<Rightarrow> ScenarioResult list" where
  "best_of srt = rev (drop (length srt - 3) srt)"

definition median_of :: "ScenarioResult list \<Rightarrow> ScenarioResult option" where
  "median_of srt = elem_at srt (Math_floor (len srt / Fin 2))"

definition summarize ::
  "Assumptions \<Rightarrow> Ambient \<Rightarrow> Portfolio \<Rightarrow> SimulationConfig \<Rightarrow> ScenarioResult list
     \<Rightarrow> SimulationSummary" where
  "summarize A amb pf cfg results =
     (let cm = corrMatrix_of A pf results;
          srt = sortedResults results
      in \<lparr> runId = (now_id amb, random_suffix amb),
           portfolio = pf,
           config = cfg,
           metrics = metrics_of cfg results,
           tailFlags = tailFlags_of pf cm,
           worstScenarios = worst_of srt,
           bestScenarios = best_of srt,
           medianScenario = median_of srt,
           returnDistribution = histogram_of (sortedReturns results),
           correlationMatrix = cm \<rparr>)"

text \<open>
  \<open>runMonteCarlo\<close>. The generator is seeded with \<open>seed ?? Date.now()\<close>; the scenario
  generator is the only part that can throw.
\<close>

definition runMonteCarlo ::
  "Assumptions \<Rightarrow> Ambient \<Rightarrow> Portfolio \<Rightarrow> SimulationConfig \<Rightarrow> number option
     \<Rightarrow> js_error + SimulationSummary" where
  "runMonteCarlo A amb pf cfg sd =
     (let rng = SeededRNG_new (nullish sd (Fin (of_int (now_rng amb))))
      in case generateScenarios cfg (regimes A) rng of
           Inl e \<Rightarrow> Inl e
         | Inr (scenarios, rng') \<Rightarrow>
             Inr (summarize A amb pf cfg (resultsLoop A pf cfg 0 scenarios rng')))"

subsection \<open>Example inputs\<close>

text \<open>
  An assumptions table with every asset and regime present and finite, the front end's
  ``balanced'' preset, and a configuration with all four regimes enabled. They serve to
  instantiate the theorems below.
\<close>

definition exampleAsset :: AssetAssumptions where
  "exampleAsset =
     \<lparr> expectedReturn = Fin 0.06, volatility = Fin 0.15, betaRate = Fin (- 0.2),
       betaInflation = Fin (- 0.1), betaGrowth = Fin 0.3, betaRiskOff = Fin (- 0.05) \<rparr>"

definition exampleRegime :: RegimeConfig where
  "exampleRegime = \<lparr> probability = Fin 0.25, volMultiplier = Fin 1.5 \<rparr>"

definition exampleAssumptions :: Assumptions where
  "exampleAssumptions =
     \<lparr> ASSETS = ALL_ASSETS, assetData = (\<lambda>_. exampleAsset),
       regimes = (\<lambda>_. Some exampleRegime) \<rparr>"

definition exampleAmbient :: Ambient where
  "exampleAmbient = \<lparr> now_rng = 1700000000000, now_id = 1700000000001, random_suffix = ''k3x9qa'' \<rparr>"

definition balanced :: Portfolio where
  "balanced =
     \<lparr> allocations =
         [usEquities \<mapsto> Fin 0.25, intlEquities \<mapsto> Fin 0.10, emergingEquities \<mapsto> Fin 0.05,
          longTermBonds \<mapsto> Fin 0.10, shortTermBonds \<mapsto> Fin 0.15, tips \<mapsto> Fin 0.10,
          reits \<mapsto> Fin 0.10, commodities \<mapsto> Fin 0.05, gold \<mapsto> Fin 0.05, cash \<mapsto> Fin 0.05] \<rparr>"

definition exampleConfig :: "nat \<Rightarrow> SimulationConfig" where
  "exampleConfig n =
     \<lparr> numScenarios = n, horizonMonths = 12, seed = Some (Fin 42),
       regimesEnabled = [normal, stress_2022, stagflation, deflation] \<rparr>"

section \<open>Rounding to IEEE 754 doubles\<close>

text \<open>
  The simulation above is computed in exact arithmetic. Where a property depends on the
  rounding of JavaScript numbers (the weights \<open>normalize\<close> returns, the distance between
  two allocations), the operations are rounded to binary64: 53 significant bits, exponents
  from -1022 to 1023, gradual underflow, round to nearest with ties to even, overflow to
  infinity.

  \<open>lg x\<close> is the binary exponent of \<open>x\<close>, \<open>\<lfloor>log\<^sub>2 |x|\<rfloor>\<close>, computed from the bit length
  of an integer; \<open>ulp x\<close> is the spacing of the doubles around \<open>x\<close>; \<open>rne\<close> rounds to the
  nearest integer, ties to even; \<open>rd x\<close> is the multiple of \<open>ulp x\<close> nearest to \<open>x\<close>.
\<close>

definition lg :: "real \<Rightarrow> int" where
  "lg x = (if 1 \<le> \<bar>x\<bar> then bitlen \<lfloor>\<bar>x\<bar>\<rfloor> - 1 else - bitlen (\<lceil>1 / \<bar>x\<bar>\<rceil> - 1))"

definition mant :: nat where
  "mant = 52"

definition emin :: int where
  "emin = - 1022"

definition ex :: "real \<Rightarrow> int" where
  "ex x = max (lg x) emin"

definition ulp :: "real \<Rightarrow> real" where
  "ulp x = 2 powi (ex x - int mant)"

definition rne :: "real \<Rightarrow> int" where
  "rne q = (let f = \<lfloor>q\<rfloor>; d = q - of_int f
            in if d < 1 / 2 then f else if 1 / 2 < d then f + 1 else if even f then f else f + 1)"

definition rd :: "real \<Rightarrow> real" where
  "rd x = (if x = 0 then 0 else of_int (rne (x / ulp x)) * ulp x)"

text \<open>A rounded value of magnitude \<open>2^1024\<close> or more is an overflow.\<close>

definition fl :: "real \<Rightarrow> number" where
  "fl x = (let r = rd x
           in if 2 ^ 1024 \<le> \<bar>r\<bar> then (if 0 < r then PInf else NInf) else Fin r)"

definition round64 :: "number \<Rightarrow> number" where
  "round64 a = (case a of Fin x \<Rightarrow> fl x | _ \<Rightarrow> a)"

text \<open>The arithmetic of doubles: the exact result, rounded.\<close>

definition add64 :: "number \<Rightarrow> number \<Rightarrow> number" where
  "add64 a b = round64 (a + b)"

definition sub64 :: "number \<Rightarrow> number \<Rightarrow> number" where
  "sub64 a b = round64 (a - b)"

definition mul64 :: "number \<Rightarrow> number \<Rightarrow> number" where
  "mul64 a b = round64 (a * b)"

definition div64 :: "number \<Rightarrow> number \<Rightarrow> number" where
  "div64 a b = round64 (a / b)"

definition sqrt64 :: "number \<Rightarrow> number" where
  "sqrt64 a = round64 (Math_sqrt a)"

text \<open>The double a decimal literal of the source denotes, and the reals that are doubles.\<close>

definition dbl :: "real \<Rightarrow> number" where
  "dbl x = fl x"

definition isDouble :: "real \<Rightarrow> bool" where
  "isDouble x = (fl x = Fin x)"



section \<open>Evolution engine\<close>

record FitnessWeights =
  w_sharpe :: number
  w_cvar :: number
  w_maxDrawdown :: number
  w_returnMean :: number

text \<open>
  Field names that the simulation's records already use carry a suffix:
  \<open>seed_e\<close>, \<open>portfolio_e\<close>, \<open>generation_e\<close>, \<open>generation_g\<close>.
\<close>

record EvolutionConfig =
  populationSize :: nat
  generations :: nat
  mutationRate :: number
  crossoverRate :: number
  eliteCount :: nat
  fitnessWeights :: FitnessWeights
  adversarialPressure :: number
  simConfig :: SimulationConfig
  seed_e :: "number option"

record EvolvedPortfolio =
  portfolio_e :: Portfolio
  fitness :: number
  summary :: SimulationSummary
  generation_e :: nat
  parentage :: string

record GenerationSnapshot =
  generation_g :: nat
  best :: EvolvedPortfolio
  worst :: EvolvedPortfolio
  median :: EvolvedPortfolio
  avgFitness :: number
  diversity :: number
  population :: "EvolvedPortfolio list"

text \<open>
  \<open>adversarialFindings\<close> (a report of strings built from the final population) is not
  part of the model.
\<close>

record EvolutionResult =
  generations_r :: "GenerationSnapshot list"
  champion :: EvolvedPortfolio
  hallOfFame :: "EvolvedPortfolio list"

subsection \<open>Normalisation\<close>

text \<open>
  \<open>normalize\<close> is computed in doubles: every sum, quotient and product is rounded, and
  \<open>0.02\<close> is the double that literal denotes. \<open>Object.values\<close> is taken in the order of
  \<open>ALL_ASSETS\<close>, the order in which the repository writes its records (presets,
  crossover children, random portfolios); a record with its keys in another order can
  sum to a neighbouring double.
\<close>

definition sum_values :: "Allocations \<Rightarrow> number" where
  "sum_values r = foldl (\<lambda>s v. add64 s v) (Fin 0) (values_of r)"

text \<open>
  \<open>for (const k of ALL_ASSETS) result[k] = f(result[k])\<close>. After the first loop of
  \<open>normalize\<close> every key is present, so the later reads never see \<open>undefined\<close>.
\<close>

definition for_each :: "(number \<Rightarrow> number) \<Rightarrow> Allocations \<Rightarrow> Allocations" where
  "for_each f r = foldl (\<lambda>r k. r(k \<mapsto> f (to_number (r k)))) r ALL_ASSETS"

definition clampAll :: "Allocations \<Rightarrow> Allocations" where
  "clampAll r = foldl (\<lambda>r k. r(k \<mapsto> Math_max (Fin 0) (nullish (r k) (Fin 0)))) r ALL_ASSETS"

definition scaleToOne :: "Allocations \<Rightarrow> Allocations" where
  "scaleToOne r =
     (let total = sum_values r
      in if strict_eq total (Fin 0)
         then for_each (\<lambda>_. div64 (Fin 1) (len ALL_ASSETS)) r
         else for_each (\<lambda>v. div64 v total) r)"

definition dropDust :: "Allocations \<Rightarrow> Allocations" where
  "dropDust r =
     (let r' = for_each (\<lambda>v. if v < dbl 0.02 then Fin 0 else v) r;
          total2 = sum_values r'
      in for_each (\<lambda>v. div64 v total2) r')"

definition snap :: "Allocations \<Rightarrow> Allocations" where
  "snap r = for_each (\<lambda>v. div64 (Math_round (mul64 v (Fin 200))) (Fin 200)) r"

definition finalScale :: "Allocations \<Rightarrow> Allocations" where
  "finalScale r =
     (let total3 = sum_values r
      in if total3 > Fin 0 then for_each (\<lambda>v. div64 v total3) r else r)"

definition normalize :: "Allocations \<Rightarrow> Allocations" where
  "normalize allocs = finalScale (snap (dropDust (scaleToOne (clampAll allocs))))"

subsection \<open>Fitness\<close>

definition computeFitness :: "SimulationSummary \<Rightarrow> FitnessWeights \<Rightarrow> number" where
  "computeFitness s w =
     w_sharpe w * sharpeRatio (metrics s) +
     w_cvar w * \<bar>cvar95 (metrics s)\<bar> * Fin (- 1) +
     w_maxDrawdown w * maxDrawdown (metrics s) * Fin (- 1) +
     w_returnMean w * meanReturn (metrics s)"

subsection \<open>Variation operators\<close>

text \<open>\<open>xs[Math.floor(u * xs.length)]\<close>.\<close>

definition pick :: "'a list \<Rightarrow> number \<Rightarrow> 'a option" where
  "pick xs u = elem_at xs (Math_floor (u * len xs))"

definition pickAsset :: "AssetClass list \<Rightarrow> SeededRNG \<Rightarrow> js_error + (AssetClass \<times> SeededRNG)" where
  "pickAsset xs rng =
     (let (u, rng') = rng_next rng
      in case pick xs u of None \<Rightarrow> Inl Unmodelled | Some a \<Rightarrow> Inr (a, rng'))"

definition shiftWeight ::
  "Allocations \<Rightarrow> AssetClass \<Rightarrow> AssetClass \<Rightarrow> number \<Rightarrow> Allocations" where
  "shiftWeight r src dst amount =
     (let r1 = r(src \<mapsto> Math_max (Fin 0) (nullish (r src) (Fin 0) - amount))
      in r1(dst \<mapsto> nullish (r1 dst) (Fin 0) + amount))"

definition pointMutation :: "Allocations \<Rightarrow> number \<Rightarrow> SeededRNG \<Rightarrow> js_error + (Allocations \<times> SeededRNG)" where
  "pointMutation r rate rng0 =
     (case pickAsset ALL_ASSETS rng0 of Inl e \<Rightarrow> Inl e | Inr (src, rng1) \<Rightarrow>
      (case pickAsset ALL_ASSETS rng1 of Inl e \<Rightarrow> Inl e | Inr (dst, rng2) \<Rightarrow>
       (let (u, rng3) = rng_next rng2;
            amount = u * rate * Fin 0.3
        in Inr (shiftWeight r src dst amount, rng3))))"

fun gaussianNoise :: "AssetClass list \<Rightarrow> Allocations \<Rightarrow> number \<Rightarrow> SeededRNG \<Rightarrow> Allocations \<times> SeededRNG" where
  "gaussianNoise [] r rate rng = (r, rng)"
| "gaussianNoise (k # ks) r rate rng =
     (let (g, rng') = nextGaussian rng
      in gaussianNoise ks (r(k \<mapsto> nullish (r k) (Fin 0) + g * rate * Fin 0.1)) rate rng')"

definition swapMutation :: "Allocations \<Rightarrow> SeededRNG \<Rightarrow> js_error + (Allocations \<times> SeededRNG)" where
  "swapMutation r rng0 =
     (case pickAsset ALL_ASSETS rng0 of Inl e \<Rightarrow> Inl e | Inr (a, rng1) \<Rightarrow>
      (case pickAsset ALL_ASSETS rng1 of Inl e \<Rightarrow> Inl e | Inr (b, rng2) \<Rightarrow>
       (let tmp = r a;
            r1 = r(a := r b)
        in Inr (r1(b := tmp), rng2))))"

definition zeroOut :: "Allocations \<Rightarrow> SeededRNG \<Rightarrow> js_error + (Allocations \<times> SeededRNG)" where
  "zeroOut r rng0 =
     (case pickAsset ALL_ASSETS rng0 of Inl e \<Rightarrow> Inl e | Inr (kill, rng1) \<Rightarrow>
      (let amount = nullish (r kill) (Fin 0);
           r1 = r(kill \<mapsto> Fin 0);
           remaining = filter (\<lambda>a. a \<noteq> kill \<and> nullish (r1 a) (Fin 0) > Fin 0) ALL_ASSETS
       in if length remaining > 0 then
            (case pickAsset remaining rng1 of Inl e \<Rightarrow> Inl e | Inr (target, rng2) \<Rightarrow>
               Inr (r1(target \<mapsto> nullish (r1 target) (Fin 0) + amount), rng2))
          else Inr (r1, rng1)))"

definition hedges :: "AssetClass list" where
  "hedges = [tips, commodities, gold, shortTermBonds]"

definition risky :: "AssetClass list" where
  "risky = [usEquities, intlEquities, emergingEquities, longTermBonds]"

definition hedgeShift :: "Allocations \<Rightarrow> number \<Rightarrow> SeededRNG \<Rightarrow> js_error + (Allocations \<times> SeededRNG)" where
  "hedgeShift r rate rng0 =
     (case pickAsset hedges rng0 of Inl e \<Rightarrow> Inl e | Inr (hedge, rng1) \<Rightarrow>
      (case pickAsset risky rng1 of Inl e \<Rightarrow> Inl e | Inr (risk, rng2) \<Rightarrow>
       (let (u, rng3) = rng_next rng2;
            shift = u * rate * Fin 0.2
        in Inr (shiftWeight r risk hedge shift, rng3))))"

definition mutate :: "Allocations \<Rightarrow> number \<Rightarrow> SeededRNG \<Rightarrow> js_error + (Allocations \<times> SeededRNG)" where
  "mutate allocs rate rng0 =
     (let (mutationType, rng1) = rng_next rng0
      in case (if mutationType < Fin 0.3 then pointMutation allocs rate rng1
               else if mutationType < Fin 0.55 then Inr (gaussianNoise ALL_ASSETS allocs rate rng1)
               else if mutationType < Fin 0.7 then swapMutation allocs rng1
               else if mutationType < Fin 0.85 then zeroOut allocs rng1
               else hedgeShift allocs rate rng1) of
           Inl e \<Rightarrow> Inl e
         | Inr (r, rng') \<Rightarrow> Inr (normalize r, rng'))"

fun uniformCross :: "AssetClass list \<Rightarrow> Allocations \<Rightarrow> Allocations \<Rightarrow> Allocations \<Rightarrow> SeededRNG \<Rightarrow> Allocations \<times> SeededRNG" where
  "uniformCross [] a b r rng = (r, rng)"
| "uniformCross (k # ks) a b r rng =
     (let (u, rng') = rng_next rng
      in uniformCross ks a b
           (r(k \<mapsto> (if u < Fin 0.5 then nullish (a k) (Fin 0) else nullish (b k) (Fin 0)))) rng')"

definition blendCross :: "Allocations \<Rightarrow> Allocations \<Rightarrow> SeededRNG \<Rightarrow> Allocations \<times> SeededRNG" where
  "blendCross a b rng =
     (let (u, rng') = rng_next rng;
          alpha = Fin 0.2 + u * Fin 0.6
      in (foldl (\<lambda>r k. r(k \<mapsto> alpha * nullish (a k) (Fin 0) + (Fin 1 - alpha) * nullish (b k) (Fin 0)))
            Map.empty ALL_ASSETS, rng'))"

definition crossover :: "Allocations \<Rightarrow> Allocations \<Rightarrow> SeededRNG \<Rightarrow> Allocations \<times> SeededRNG" where
  "crossover a b rng0 =
     (let (crossType, rng1) = rng_next rng0;
          (r, rng') = (if crossType < Fin 0.5 then uniformCross ALL_ASSETS a b Map.empty rng1
                       else blendCross a b rng1)
      in (normalize r, rng'))"

fun randomWeights :: "AssetClass list \<Rightarrow> Allocations \<Rightarrow> SeededRNG \<Rightarrow> Allocations \<times> SeededRNG" where
  "randomWeights [] r rng = (r, rng)"
| "randomWeights (k # ks) r rng =
     (let (u, rng') = rng_next rng in randomWeights ks (r(k \<mapsto> u)) rng')"

definition randomPortfolio :: "SeededRNG \<Rightarrow> Allocations \<times> SeededRNG" where
  "randomPortfolio rng = (let (r, rng') = randomWeights ALL_ASSETS Map.empty rng in (normalize r, rng'))"

subsection \<open>Selection and diagnostics\<close>

definition pickMember :: "EvolvedPortfolio list \<Rightarrow> SeededRNG \<Rightarrow> EvolvedPortfolio option \<times> SeededRNG" where
  "pickMember pop rng = (let (u, rng') = rng_next rng in (pick pop u, rng'))"

text \<open>
  Tournament of three. A pick that is \<open>undefined\<close> (an empty population) throws when its
  \<open>fitness\<close> is read.
\<close>

definition tournamentSelect :: "EvolvedPortfolio list \<Rightarrow> SeededRNG \<Rightarrow> js_error + (EvolvedPortfolio \<times> SeededRNG)" where
  "tournamentSelect pop rng0 =
     (let (b0, rng1) = pickMember pop rng0;
          (c1, rng2) = pickMember pop rng1;
          (c2, rng3) = pickMember pop rng2
      in case (b0, c1, c2) of
           (Some b0, Some c1, Some c2) \<Rightarrow>
             (let b1 = (if fitness c1 > fitness b0 then c1 else b0);
                  b2 = (if fitness c2 > fitness b1 then c2 else b1)
              in Inr (b2, rng3))
         | _ \<Rightarrow> Inl TypeError)"

text \<open>The Euclidean distance of two allocations, computed in doubles.\<close>

definition distance2 :: "Allocations \<Rightarrow> Allocations \<Rightarrow> number" where
  "distance2 a b =
     foldl (\<lambda>dist k. let diff = sub64 (nullish (a k) (Fin 0)) (nullish (b k) (Fin 0))
                      in add64 dist (mul64 diff diff))
       (Fin 0) ALL_ASSETS"

definition allocDistance :: "EvolvedPortfolio \<Rightarrow> EvolvedPortfolio \<Rightarrow> number" where
  "allocDistance p q =
     sqrt64 (distance2 (allocations (portfolio_e p)) (allocations (portfolio_e q)))"

fun pairwise :: "EvolvedPortfolio list \<Rightarrow> number list" where
  "pairwise [] = []"
| "pairwise (p # ps) = map (allocDistance p) ps @ pairwise ps"

definition measureDiversity :: "EvolvedPortfolio list \<Rightarrow> number" where
  "measureDiversity pop =
     (if length pop < 2 then Fin 0
      else (let ds = pairwise (take 20 pop);
                totalDist = foldl (\<lambda>s d. add64 s d) (Fin 0) ds;
                pairs = len ds
            in if pairs > Fin 0 then div64 totalDist pairs else Fin 0))"

subsection \<open>Hall of fame\<close>

definition isDuplicate :: "EvolvedPortfolio list \<Rightarrow> EvolvedPortfolio \<Rightarrow> bool" where
  "isDuplicate hof cand = list_ex (\<lambda>h. allocDistance h cand < dbl 0.05) hof"

definition byFitnessDesc :: "EvolvedPortfolio \<Rightarrow> EvolvedPortfolio \<Rightarrow> number" where
  "byFitnessDesc a b = fitness b - fitness a"

definition admits :: "EvolvedPortfolio list \<Rightarrow> EvolvedPortfolio \<Rightarrow> bool" where
  "admits hof cand =
     ((case hof of [] \<Rightarrow> True | h # _ \<Rightarrow> fitness cand > mul64 (fitness h) (dbl 0.95))
        \<and> \<not> isDuplicate hof cand)"

definition updateHallOfFame :: "EvolvedPortfolio list \<Rightarrow> EvolvedPortfolio \<Rightarrow> nat \<Rightarrow> EvolvedPortfolio list" where
  "updateHallOfFame hof cand gen =
     (if admits hof cand then
        (let hof' = sort_by byFitnessDesc (hof @ [cand\<lparr>generation_e := gen\<rparr>])
         in if length hof' > 5 then butlast hof' else hof')
      else hof)"

subsection \<open>Evaluating a candidate\<close>

text \<open>\<open>x | 0\<close> read back as a number.\<close>

definition int32_number :: "number \<Rightarrow> number" where
  "int32_number x = Fin (of_int (sint (ToInt32 x)))"

text \<open>
  Every candidate is normalised, simulated with a seed drawn from the engine's stream
  (\<open>rng.next() * 1e9 | 0\<close>) and scored. \<open>world\<close> gives the ambient reads of the
  successive simulation calls; \<open>tick\<close> counts them.
\<close>

definition evaluate ::
  "Assumptions \<Rightarrow> (nat \<Rightarrow> Ambient) \<Rightarrow> EvolutionConfig \<Rightarrow> SimulationConfig \<Rightarrow> Allocations
     \<Rightarrow> nat \<Rightarrow> string \<Rightarrow> SeededRNG \<Rightarrow> nat
     \<Rightarrow> js_error + (EvolvedPortfolio \<times> SeededRNG \<times> nat)" where
  "evaluate A world cfg adv allocs gen tag rng tick =
     (let pf = \<lparr> allocations = normalize allocs \<rparr>;
          (u, rng') = rng_next rng
      in case runMonteCarlo A (world tick) pf adv (Some (int32_number (u * Fin (10 ^ 9)))) of
           Inl e \<Rightarrow> Inl e
         | Inr sm \<Rightarrow>
             Inr (\<lparr> portfolio_e = pf, fitness = computeFitness sm (fitnessWeights cfg),
                    summary = sm, generation_e = gen, parentage = tag \<rparr>, rng', Suc tick))"

subsection \<open>Initial population\<close>

definition initialAllocs ::
  "Portfolio \<Rightarrow> EvolutionConfig \<Rightarrow> nat \<Rightarrow> SeededRNG \<Rightarrow> js_error + (Allocations \<times> SeededRNG)" where
  "initialAllocs sp cfg i rng =
     (if i = 0 then Inr (allocations sp, rng)
      else if Fin (real i) < Fin (real (populationSize cfg)) * Fin 0.5 then
        mutate (allocations sp) (mutationRate cfg * (Fin 1 + Fin (real i) * Fin 0.1)) rng
      else Inr (randomPortfolio rng))"

definition initialTag :: "EvolutionConfig \<Rightarrow> nat \<Rightarrow> string" where
  "initialTag cfg i =
     (if i = 0 then ''seed''
      else if Fin (real i) < Fin (real (populationSize cfg)) * Fin 0.5 then ''mutation''
      else ''random'')"

fun initLoop ::
  "Assumptions \<Rightarrow> (nat \<Rightarrow> Ambient) \<Rightarrow> Portfolio \<Rightarrow> EvolutionConfig \<Rightarrow> SimulationConfig
     \<Rightarrow> nat \<Rightarrow> nat \<Rightarrow> SeededRNG \<Rightarrow> nat
     \<Rightarrow> js_error + (EvolvedPortfolio list \<times> SeededRNG \<times> nat)" where
  "initLoop A world sp cfg adv 0 i rng tick = Inr ([], rng, tick)"
| "initLoop A world sp cfg adv (Suc n) i rng tick =
     (case initialAllocs sp cfg i rng of
        Inl e \<Rightarrow> Inl e
      | Inr (allocs, rng1) \<Rightarrow>
         (case evaluate A world cfg adv allocs 0 (initialTag cfg i) rng1 tick of
            Inl e \<Rightarrow> Inl e
          | Inr (ind, rng2, tick2) \<Rightarrow>
             (case initLoop A world sp cfg adv n (Suc i) rng2 tick2 of
                Inl e \<Rightarrow> Inl e
              | Inr (rest, rng3, tick3) \<Rightarrow> Inr (ind # rest, rng3, tick3))))"

definition adversarialSimConfig :: "EvolutionConfig \<Rightarrow> SimulationConfig" where
  "adversarialSimConfig cfg =
     (simConfig cfg)\<lparr> regimesEnabled :=
        (if adversarialPressure cfg > Fin 0.5
         then [stress_2022, stagflation, deflation, normal]
         else regimesEnabled (simConfig cfg)) \<rparr>"

definition initialPopulation ::
  "Assumptions \<Rightarrow> (nat \<Rightarrow> Ambient) \<Rightarrow> Portfolio \<Rightarrow> EvolutionConfig
     \<Rightarrow> js_error + (EvolvedPortfolio list \<times> SeededRNG \<times> nat)" where
  "initialPopulation A world sp cfg =
     initLoop A world sp cfg (adversarialSimConfig cfg) (populationSize cfg) 0
       (SeededRNG_new (nullish (seed_e cfg) (Fin (of_int (now_rng (world 0)))))) 0"

subsection \<open>One generation\<close>

definition breed ::
  "Assumptions \<Rightarrow> (nat \<Rightarrow> Ambient) \<Rightarrow> EvolutionConfig \<Rightarrow> SimulationConfig
     \<Rightarrow> EvolvedPortfolio list \<Rightarrow> nat \<Rightarrow> SeededRNG \<Rightarrow> nat
     \<Rightarrow> js_error + (EvolvedPortfolio \<times> SeededRNG \<times> nat)" where
  "breed A world cfg adv pop gen rng0 tick =
     (let (roll, rng1) = rng_next rng0
      in if roll < crossoverRate cfg \<and> length pop \<ge> 2 then
           (case tournamentSelect pop rng1 of Inl e \<Rightarrow> Inl e | Inr (parentA, rng2) \<Rightarrow>
            (case tournamentSelect pop rng2 of Inl e \<Rightarrow> Inl e | Inr (parentB, rng3) \<Rightarrow>
             (let (child, rng4) = crossover (allocations (portfolio_e parentA))
                                    (allocations (portfolio_e parentB)) rng3;
                  (u, rng5) = rng_next rng4
              in case (if u < mutationRate cfg then mutate child (mutationRate cfg) rng5
                       else Inr (child, rng5)) of
                   Inl e \<Rightarrow> Inl e
                 | Inr (child', rng6) \<Rightarrow>
                     evaluate A world cfg adv child' (Suc gen) ''crossover'' rng6 tick)))
         else if roll < crossoverRate cfg + mutationRate cfg then
           (case tournamentSelect pop rng1 of Inl e \<Rightarrow> Inl e | Inr (parent, rng2) \<Rightarrow>
            (case mutate (allocations (portfolio_e parent)) (mutationRate cfg) rng2 of
               Inl e \<Rightarrow> Inl e
             | Inr (child, rng3) \<Rightarrow>
                 evaluate A world cfg adv child (Suc gen) ''mutation'' rng3 tick))
         else
           (let (allocs, rng2) = randomPortfolio rng1
            in evaluate A world cfg adv allocs (Suc gen) ''immigrant'' rng2 tick))"

text \<open>
  \<open>while (nextGen.length < config.populationSize)\<close>: every pass appends one offspring,
  so the loop makes as many passes as there are free slots.
\<close>

fun fillLoop ::
  "Assumptions \<Rightarrow> (nat \<Rightarrow> Ambient) \<Rightarrow> EvolutionConfig \<Rightarrow> SimulationConfig
     \<Rightarrow> EvolvedPortfolio list \<Rightarrow> nat \<Rightarrow> nat \<Rightarrow> SeededRNG \<Rightarrow> nat
     \<Rightarrow> js_error + (EvolvedPortfolio list \<times> SeededRNG \<times> nat)" where
  "fillLoop A world cfg adv pop gen 0 rng tick = Inr ([], rng, tick)"
| "fillLoop A world cfg adv pop gen (Suc n) rng tick =
     (case breed A world cfg adv pop gen rng tick of
        Inl e \<Rightarrow> Inl e
      | Inr (child, rng1, tick1) \<Rightarrow>
         (case fillLoop A world cfg adv pop gen n rng1 tick1 of
            Inl e \<Rightarrow> Inl e
          | Inr (rest, rng2, tick2) \<Rightarrow> Inr (child # rest, rng2, tick2)))"

definition elites :: "EvolutionConfig \<Rightarrow> EvolvedPortfolio list \<Rightarrow> nat \<Rightarrow> EvolvedPortfolio list" where
  "elites cfg pop gen =
     map (\<lambda>p. p\<lparr> generation_e := Suc gen, parentage := ''elite'' \<rparr>) (take (eliteCount cfg) pop)"

definition raisePressure :: "EvolutionConfig \<Rightarrow> nat \<Rightarrow> SimulationConfig \<Rightarrow> SimulationConfig" where
  "raisePressure cfg gen adv =
     (if adversarialPressure cfg > Fin 0 then
        (let pressure = adversarialPressure cfg
                          * (Fin 1 + Fin (real gen) / Fin (real (generations cfg)))
         in if pressure > Fin 0.7 \<and> stress_2022 \<notin> set (regimesEnabled adv)
            then adv\<lparr> regimesEnabled := regimesEnabled adv @ [stress_2022] \<rparr>
            else adv)
      else adv)"

text \<open>
  The snapshot of a sorted population. \<open>population[Math.floor(population.length / 2)]\<close>
  is an element whenever the population is not empty.
\<close>

definition snapshot :: "nat \<Rightarrow> EvolvedPortfolio list \<Rightarrow> js_error + GenerationSnapshot" where
  "snapshot gen pop =
     (case pop of
        [] \<Rightarrow> Inl Unmodelled
      | b # _ \<Rightarrow>
          Inr \<lparr> generation_g = gen, best = b, worst = last pop,
                median = pop ! (length pop div 2),
                avgFitness = foldl (\<lambda>s p. s + fitness p) (Fin 0) pop / len pop,
                diversity = measureDiversity pop,
                population = pop \<rparr>)"

text \<open>
  The state of the run between generations. The simulation configuration is a value here;
  in the code it is one object shared by the summaries already produced, so the regime
  pushed by \<open>raisePressure\<close> also shows in their \<open>config\<close> field.
\<close>

record EvoState =
  population_s :: "EvolvedPortfolio list"
  hall :: "EvolvedPortfolio list"
  history :: "GenerationSnapshot list"
  advConfig :: SimulationConfig
  rng_s :: SeededRNG
  tick_s :: nat

definition generationStep ::
  "Assumptions \<Rightarrow> (nat \<Rightarrow> Ambient) \<Rightarrow> EvolutionConfig \<Rightarrow> nat \<Rightarrow> EvoState \<Rightarrow> js_error + EvoState" where
  "generationStep A world cfg gen st =
     (let pop = sort_by byFitnessDesc (population_s st)
      in case snapshot gen pop of
           Inl e \<Rightarrow> Inl e
         | Inr snp \<Rightarrow>
            (let hof = updateHallOfFame (hall st) (best snp) gen;
                 nextGen = elites cfg pop gen
             in case fillLoop A world cfg (advConfig st) pop gen
                       (populationSize cfg - length nextGen) (rng_s st) (tick_s st) of
                  Inl e \<Rightarrow> Inl e
                | Inr (offspring, rng', tick') \<Rightarrow>
                    Inr \<lparr> population_s = nextGen @ offspring, hall = hof,
                          history = history st @ [snp],
                          advConfig = raisePressure cfg gen (advConfig st),
                          rng_s = rng', tick_s = tick' \<rparr>))"

fun evolveLoop ::
  "Assumptions \<Rightarrow> (nat \<Rightarrow> Ambient) \<Rightarrow> EvolutionConfig \<Rightarrow> nat \<Rightarrow> nat \<Rightarrow> EvoState
     \<Rightarrow> js_error + EvoState" where
  "evolveLoop A world cfg 0 gen st = Inr st"
| "evolveLoop A world cfg (Suc n) gen st =
     (case generationStep A world cfg gen st of
        Inl e \<Rightarrow> Inl e
      | Inr st' \<Rightarrow> evolveLoop A world cfg n (Suc gen) st')"

definition evolvePortfolio ::
  "Assumptions \<Rightarrow> (nat \<Rightarrow> Ambient) \<Rightarrow> Portfolio \<Rightarrow> EvolutionConfig \<Rightarrow> js_error + EvolutionResult" where
  "evolvePortfolio A world seedPortfolio cfg =
     (case initialPopulation A world seedPortfolio cfg of
        Inl e \<Rightarrow> Inl e
      | Inr (pop0, rng1, tick1) \<Rightarrow>
         (case evolveLoop A world cfg (generations cfg) 0
                 \<lparr> population_s = pop0, hall = [], history = [],
                   advConfig = adversarialSimConfig cfg, rng_s = rng1, tick_s = tick1 \<rparr> of
            Inl e \<Rightarrow> Inl e
          | Inr st \<Rightarrow>
             (let pop = sort_by byFitnessDesc (population_s st)
              in case snapshot (generations cfg) pop of
                   Inl e \<Rightarrow> Inl e
                 | Inr snp \<Rightarrow>
                     Inr \<lparr> generations_r = history st @ [snp],
                           champion = best snp,
                           hallOfFame = (if length (hall st) > 0 then hall st else [best snp]) \<rparr>)))"

section \<open>Well-formed inputs\<close>

text \<open>
  Predicates for the inputs the properties below are about: finite numbers in a record
  of weights, in the assumptions table and in the regimes a configuration enables.
\<close>

fun isFin :: "number \<Rightarrow> bool" where
  "isFin (Fin _) = True"
| "isFin _ = False"

definition finiteAllocations :: "Allocations \<Rightarrow> bool" where
  "finiteAllocations r = list_all isFin (values_of r)"

abbreviation weights :: "(AssetClass \<Rightarrow> real) \<Rightarrow> Allocations" where
  "weights w \<equiv> (\<lambda>k. Some (Fin (w k)))"

abbreviation totalW :: "(AssetClass \<Rightarrow> real) \<Rightarrow> real" where
  "totalW w \<equiv> sum_list (map w ALL_ASSETS)"

text \<open>
  A record of doubles: every weight present is a finite double.
\<close>

definition doubleAllocations :: "Allocations \<Rightarrow> bool" where
  "doubleAllocations r = list_all (\<lambda>v. case v of Fin x \<Rightarrow> isDouble x | _ \<Rightarrow> False) (values_of r)"

text \<open>
  Rounding errors. \<open>eps\<close> is the unit roundoff \<open>2^-53\<close>, \<open>eta\<close> half the smallest
  subnormal, \<open>gam\<close> bounds the relative error of a sum of ten terms. \<open>nnd x\<close>: \<open>x\<close> is a
  non-negative real that rounding leaves as it is.
\<close>

definition eps :: real where
  "eps = 1 / (2 * 2 ^ mant)"

definition eta :: real where
  "eta = 2 powi (emin - int mant) / 2"

definition gam :: real where
  "gam = 1 / 2 ^ 49"

definition nnd :: "real \<Rightarrow> bool" where
  "nnd x = (0 \<le> x \<and> rd x = x)"

text \<open>
  The stages of \<open>normalize\<close> on lists of non-negative reals, with every operation
  rounded: the sum accumulated from the left, the scaling to sum 1 with its fallback to
  equal weights, the dust threshold \<open>tau\<close> (the double of \<open>0.02\<close>) and the rescaling
  after it, the rounding to the nearest 0.5\%, and the final rescaling.
\<close>

definition dsum :: "real list \<Rightarrow> real" where
  "dsum xs = foldl (\<lambda>s v. rd (s + v)) 0 xs"

definition tau :: real where
  "tau = rd (1 / 50)"

definition snap1 :: "real \<Rightarrow> real" where
  "snap1 x = rd (of_int \<lfloor>rd (x * 200) + 1 / 2\<rfloor> / 200)"

definition scaleL :: "real list \<Rightarrow> real list" where
  "scaleL c = (if dsum c = 0 then map (\<lambda>_. rd (1 / 10)) c else map (\<lambda>x. rd (x / dsum c)) c)"

definition zeroL :: "real list \<Rightarrow> real list" where
  "zeroL s = map (\<lambda>x. if x < tau then 0 else x) s"

definition dustL :: "real list \<Rightarrow> real list" where
  "dustL s = map (\<lambda>x. rd (x / dsum (zeroL s))) (zeroL s)"

definition finalL :: "real list \<Rightarrow> real list" where
  "finalL g = (if 0 < dsum g then map (\<lambda>x. rd (x / dsum g)) g else g)"

definition normalizeL :: "real list \<Rightarrow> real list" where
  "normalizeL c = finalL (map snap1 (dustL (scaleL c)))"

text \<open>
  What the stages establish: ten non-negative doubles, none above 1, that sum to 1 up
  to \<open>2^-48\<close> (\<open>goodL\<close>); after the rounding, ten doubles that are zero or the double of
  \<open>n/200\<close> for an \<open>n\<close> from 4 to 200 (\<open>onGrid\<close>) and sum to 1 up to 3\% (\<open>goodG\<close>).
\<close>

definition goodL :: "real list \<Rightarrow> bool" where
  "goodL xs = (length xs = 10 \<and> (\<forall>x \<in> set xs. nnd x \<and> x \<le> 1)
     \<and> 1 - 1 / 2 ^ 48 \<le> sum_list xs \<and> sum_list xs \<le> 1 + 1 / 2 ^ 48)"

definition onGrid :: "real \<Rightarrow> bool" where
  "onGrid x = (x = 0 \<or> (\<exists>n::int. 4 \<le> n \<and> n \<le> 200 \<and> x = rd (of_int n / 200)))"

definition goodG :: "real list \<Rightarrow> bool" where
  "goodG g = (length g = 10 \<and> (\<forall>x \<in> set g. nnd x \<and> x \<le> 1 \<and> onGrid x)
     \<and> 97 / 100 \<le> sum_list g \<and> sum_list g \<le> 103 / 100)"

text \<open>
  The weights of a record as reals, clamped at zero, in the order of \<open>ALL_ASSETS\<close>, and
  the record a list of ten reals stands for. Lemma \<open>normalize_stages\<close> shows that
  \<open>normalize\<close> computes \<open>normalizeL\<close> on records of doubles whose sum does not overflow.
\<close>

definition weightOf :: "Allocations \<Rightarrow> AssetClass \<Rightarrow> real" where
  "weightOf r k = (case r k of Some (Fin x) \<Rightarrow> x | _ \<Rightarrow> 0)"

definition clampW :: "Allocations \<Rightarrow> AssetClass \<Rightarrow> real" where
  "clampW r = (\<lambda>k. max 0 (weightOf r k))"

definition clampL :: "Allocations \<Rightarrow> real list" where
  "clampL r = map (clampW r) ALL_ASSETS"

definition position :: "AssetClass \<Rightarrow> nat" where
  "position k = (case k of usEquities \<Rightarrow> 0 | intlEquities \<Rightarrow> 1 | emergingEquities \<Rightarrow> 2
        | longTermBonds \<Rightarrow> 3 | shortTermBonds \<Rightarrow> 4 | tips \<Rightarrow> 5 | reits \<Rightarrow> 6
        | commodities \<Rightarrow> 7 | gold \<Rightarrow> 8 | cash \<Rightarrow> 9)"

definition record_of :: "real list \<Rightarrow> Allocations" where
  "record_of xs = (\<lambda>k. Some (Fin (xs ! position k)))"

text \<open>The largest sum of clamped weights the theorems are stated for, \<open>1.79e308\<close>.\<close>

definition maxTotal :: real where
  "maxTotal = 179 * 10 ^ 306"

subsection \<open>Example weights\<close>

text \<open>
  Records of four weights, written with the source's decimal literals: \<open>dusty\<close> holds
  a weight written \<open>0.02\<close> among weights written to sum to 1; \<open>barbell\<close> and \<open>barbell2\<close> differ by 2.5\% in
  each of their four weights; \<open>huge\<close> holds two weights of \<open>1e308\<close>.
\<close>

definition lit4 :: "real \<Rightarrow> real \<Rightarrow> real \<Rightarrow> real \<Rightarrow> Allocations" where
  "lit4 a b c d = [usEquities \<mapsto> dbl a, intlEquities \<mapsto> dbl b,
                   emergingEquities \<mapsto> dbl c, longTermBonds \<mapsto> dbl d]"

definition dusty :: Allocations where
  "dusty = lit4 0.02 0.328 0.3285 0.3235"

definition barbell :: Allocations where
  "barbell = lit4 0.05 0.05 0.25 0.65"

definition barbell2 :: Allocations where
  "barbell2 = lit4 0.075 0.075 0.225 0.625"



definition finiteAsset :: "AssetAssumptions \<Rightarrow> bool" where
  "finiteAsset a =
     (isFin (expectedReturn a) \<and> isFin (volatility a) \<and> isFin (betaRate a)
        \<and> isFin (betaInflation a) \<and> isFin (betaGrowth a) \<and> isFin (betaRiskOff a))"

definition finiteAssumptions :: "Assumptions \<Rightarrow> bool" where
  "finiteAssumptions A = list_all (\<lambda>a. finiteAsset (assetData A a)) (ASSETS A)"

text \<open>The enabled regimes: at least one, each in the table with a finite multiplier.\<close>

definition regimesAvailable :: "Assumptions \<Rightarrow> SimulationConfig \<Rightarrow> bool" where
  "regimesAvailable A cfg =
     (regimesEnabled cfg \<noteq> []
        \<and> list_all (\<lambda>r. case regimes A r of None \<Rightarrow> False | Some c \<Rightarrow> isFin (volMultiplier c))
              (regimesEnabled cfg))"

text \<open>
  The inputs of \<open>runMonteCarlo\<close> the properties are stated for: a finite table, finite
  weights, at least one scenario and a horizon of at least one month.
\<close>

definition validInput :: "Assumptions \<Rightarrow> Portfolio \<Rightarrow> SimulationConfig \<Rightarrow> bool" where
  "validInput A pf cfg =
     (finiteAssumptions A \<and> regimesAvailable A cfg \<and> finiteAllocations (allocations pf)
        \<and> 1 \<le> numScenarios cfg \<and> 1 \<le> horizonMonths cfg)"

text \<open>Finite intermediate values of a simulation.\<close>

definition finiteMacro :: "MacroShock \<Rightarrow> bool" where
  "finiteMacro m =
     (isFin (rateChange m) \<and> isFin (inflationShock m) \<and> isFin (growthShock m)
        \<and> isFin (riskOffShock m))"

definition finiteResult :: "ScenarioResult \<Rightarrow> bool" where
  "finiteResult r = (isFin (portfolioReturn r) \<and> isFin (drawdown r))"

definition finiteMap :: "(AssetClass \<rightharpoonup> number) \<Rightarrow> bool" where
  "finiteMap ar = (\<forall>a v. ar a = Some v \<longrightarrow> isFin v)"

text \<open>The real value of a finite number (0 for the special values).\<close>

definition realOf :: "number \<Rightarrow> real" where
  "realOf x = (case x of Fin r \<Rightarrow> r | _ \<Rightarrow> 0)"

text \<open>
  Linear interpolation between the order statistics of a list of reals at position \<open>t\<close>:
  what \<open>percentile\<close> computes on finite data (lemma \<open>percentile_interp\<close>).
\<close>

definition interp :: "real list \<Rightarrow> real \<Rightarrow> real" where
  "interp xs t =
     (if \<lfloor>t\<rfloor> = \<lceil>t\<rceil> then xs ! nat \<lfloor>t\<rfloor>
      else xs ! nat \<lfloor>t\<rfloor> + (xs ! nat \<lceil>t\<rceil> - xs ! nat \<lfloor>t\<rfloor>) * (t - of_int \<lfloor>t\<rfloor>))"

definition finiteMetrics :: "Metrics \<Rightarrow> bool" where
  "finiteMetrics m =
     (isFin (p5Return m) \<and> isFin (p25Return m) \<and> isFin (p50Return m) \<and> isFin (p75Return m)
        \<and> isFin (p95Return m) \<and> isFin (meanReturn m) \<and> isFin (stdDev m)
        \<and> isFin (sharpeRatio m) \<and> isFin (maxDrawdown m) \<and> isFin (cvar95 m)
        \<and> isFin (probLoss m))"

text \<open>
  The invariant of the hall of fame: at most five entries, sorted by descending fitness,
  and no two entries (at different positions) at a computed distance less than the double
  of \<open>0.05\<close>. For a distance that is a number \<open>\<not> d < 0.05\<close> is \<open>d \<ge> 0.05\<close>.
\<close>

definition apart :: "EvolvedPortfolio \<Rightarrow> EvolvedPortfolio \<Rightarrow> bool" where
  "apart a b = (\<not> allocDistance a b < dbl 0.05 \<and> \<not> allocDistance b a < dbl 0.05)"

definition hofInv :: "EvolvedPortfolio list \<Rightarrow> bool" where
  "hofInv hof =
     (length hof \<le> 5
        \<and> sorted_wrt (\<lambda>a b. fitness b \<le> fitness a) hof
        \<and> sorted_wrt apart hof)"

text \<open>
  The regime table holds all four regimes, and the simulation configuration of a run
  enables at least one: then no simulation of the run can throw.
\<close>

definition fullTable :: "Assumptions \<Rightarrow> bool" where
  "fullTable A = list_all (\<lambda>r. regimes A r \<noteq> None) [normal, stress_2022, stagflation, deflation]"

definition runnable :: "Assumptions \<Rightarrow> EvolutionConfig \<Rightarrow> bool" where
  "runnable A cfg =
     (fullTable A \<and> regimesEnabled (simConfig cfg) \<noteq> [] \<and> 1 \<le> populationSize cfg)"

text \<open>The state of a run after its first \<open>k\<close> generations.\<close>

definition stateAfter ::
  "Assumptions \<Rightarrow> (nat \<Rightarrow> Ambient) \<Rightarrow> Portfolio \<Rightarrow> EvolutionConfig \<Rightarrow> nat \<Rightarrow> js_error + EvoState" where
  "stateAfter A world seedPortfolio cfg k =
     (case initialPopulation A world seedPortfolio cfg of
        Inl e \<Rightarrow> Inl e
      | Inr (pop0, rng1, tick1) \<Rightarrow>
          evolveLoop A world cfg k 0
            \<lparr> population_s = pop0, hall = [], history = [],
              advConfig = adversarialSimConfig cfg, rng_s = rng1, tick_s = tick1 \<rparr>)"

subsection \<open>Example runs\<close>

text \<open>
  An evolution configuration with the server's default rates and fitness weights, six
  candidates and three generations, over \<open>n\<close> scenarios per simulation.
\<close>

definition exampleWorld :: "nat \<Rightarrow> Ambient" where
  "exampleWorld = (\<lambda>_. exampleAmbient)"

definition exampleEvolution :: "nat \<Rightarrow> EvolutionConfig" where
  "exampleEvolution n =
     \<lparr> populationSize = 6, generations = 3, mutationRate = Fin 0.6, crossoverRate = Fin 0.4,
       eliteCount = 2,
       fitnessWeights = \<lparr> w_sharpe = Fin 2, w_cvar = Fin 1.5, w_maxDrawdown = Fin 1,
                          w_returnMean = Fin 1 \<rparr>,
       adversarialPressure = Fin 0.5, simConfig = exampleConfig n, seed_e = Some (Fin 7) \<rparr>"

text \<open>A seed with a 1\% position.\<close>

definition tilted :: Portfolio where
  "tilted = \<lparr> allocations = [usEquities \<mapsto> dbl 0.99, intlEquities \<mapsto> dbl 0.01] \<rparr>"

text \<open>
  Two hall-of-fame entries, the normalised \<open>barbell\<close> and \<open>barbell2\<close>, whose computed
  distance is the double of \<open>0.05\<close>. The hall of fame reads only the allocations and the
  fitness of an entry; the summary is a placeholder.
\<close>

definition blankSummary :: "Portfolio \<Rightarrow> SimulationSummary" where
  "blankSummary pf =
     \<lparr> runId = (0, ''''), portfolio = pf, config = exampleConfig 2000,
       metrics = \<lparr> p5Return = Fin 0, p25Return = Fin 0, p50Return = Fin 0, p75Return = Fin 0,
                   p95Return = Fin 0, meanReturn = Fin 0, stdDev = Fin 0, sharpeRatio = Fin 0,
                   maxDrawdown = Fin 0, cvar95 = Fin 0, probLoss = Fin 0 \<rparr>,
       tailFlags = \<lparr> correlationBreakdown = False, rateShockRisk = False,
                     inflationShockRisk = False, concentrationRisk = False,
                     durationRisk = False \<rparr>,
       worstScenarios = [], bestScenarios = [], medianScenario = None,
       returnDistribution = replicate 20 0, correlationMatrix = Map.empty \<rparr>"

definition entryA :: EvolvedPortfolio where
  "entryA =
     (let pf = \<lparr> allocations = normalize barbell \<rparr>
      in \<lparr> portfolio_e = pf, fitness = Fin 1, summary = blankSummary pf,
           generation_e = 0, parentage = ''seed'' \<rparr>)"

definition entryB :: EvolvedPortfolio where
  "entryB =
     (let pf = \<lparr> allocations = normalize barbell2 \<rparr>
      in \<lparr> portfolio_e = pf, fitness = Fin 1, summary = blankSummary pf,
           generation_e = 1, parentage = ''mutation'' \<rparr>)"

text \<open>Invariants of the generation loop used in the proofs about champion fitness.\<close>

definition allNaN :: "nat \<Rightarrow> EvoState \<Rightarrow> bool" where
  "allNaN g st = (numScenarios (advConfig st) < 20
      \<and> list_all (\<lambda>p. fitness p = NaN) (population_s st)
      \<and> map (\<lambda>sn. fitness (best sn)) (history st) = replicate g NaN)"

definition nonDecreasing :: "GenerationSnapshot list \<Rightarrow> bool" where
  "nonDecreasing h =
     (\<forall>i. Suc i < length h \<longrightarrow> (\<forall>p \<in> set (population (h ! Suc i)). fitness p \<noteq> NaN)
          \<longrightarrow> fitness (best (h ! i)) \<le> fitness (best (h ! Suc i)))"

definition carried :: "nat \<Rightarrow> EvoState \<Rightarrow> bool" where
  "carried g st =
     ((history st = [] \<or> (\<exists>p \<in> set (population_s st). fitness p = fitness (best (last (history st)))))
        \<and> nonDecreasing (history st))"

text \<open>
  Inputs of \<open>evolvePortfolio\<close> for which every candidate has a finite fitness: a finite
  table with all four regimes, finite rates and fitness weights, finite seed weights, a
  horizon of at least one month and at least twenty scenarios per simulation.
\<close>

definition finiteWeights :: "FitnessWeights \<Rightarrow> bool" where
  "finiteWeights w =
     (isFin (w_sharpe w) \<and> isFin (w_cvar w) \<and> isFin (w_maxDrawdown w) \<and> isFin (w_returnMean w))"

definition finiteTable :: "Assumptions \<Rightarrow> bool" where
  "finiteTable A =
     (finiteAssumptions A
        \<and> list_all (\<lambda>r. case regimes A r of None \<Rightarrow> False | Some c \<Rightarrow> isFin (volMultiplier c))
             [normal, stress_2022, stagflation, deflation])"

definition validEvolution :: "Assumptions \<Rightarrow> Portfolio \<Rightarrow> EvolutionConfig \<Rightarrow> bool" where
  "validEvolution A sp cfg =
     (finiteTable A \<and> finiteAllocations (allocations sp) \<and> finiteWeights (fitnessWeights cfg)
        \<and> isFin (mutationRate cfg) \<and> regimesEnabled (simConfig cfg) \<noteq> []
        \<and> 1 \<le> populationSize cfg \<and> 1 \<le> horizonMonths (simConfig cfg)
        \<and> 20 \<le> numScenarios (simConfig cfg))"

definition finiteCandidate :: "EvolvedPortfolio \<Rightarrow> bool" where
  "finiteCandidate p = (isFin (fitness p) \<and> finiteAllocations (allocations (portfolio_e p)))"

text \<open>
  The state of such a run at the start of generation \<open>g\<close>: every candidate of the
  population and of the snapshots taken so far is finite, one snapshot per past generation.
\<close>

definition healthy :: "nat \<Rightarrow> EvoState \<Rightarrow> bool" where
  "healthy g st =
     (list_all finiteCandidate (population_s st) \<and> regimesEnabled (advConfig st) \<noteq> []
        \<and> 20 \<le> numScenarios (advConfig st) \<and> 1 \<le> horizonMonths (advConfig st)
        \<and> list_all (\<lambda>snp. list_all finiteCandidate (population snp)) (history st)
        \<and> length (history st) = g)"

section \<open>The simulation returns a summary\<close>

lemma regimeEntries_Inr:
  "list_all (\<lambda>r. rt r \<noteq> None) rs \<Longrightarrow> \<exists>es. regimeEntries rt rs = Inr es \<and> map fst es = rs"
  by (induction rs) (auto split: option.splits sum.splits)

lemma regimeEntries_sound:
  "regimeEntries rt rs = Inr es \<Longrightarrow> map fst es = rs \<and> list_all (\<lambda>(r, c). rt r = Some c) es"
  by (induction rs arbitrary: es) (auto split: option.splits sum.splits)

lemma buildCdf_fst: "map fst (buildCdf tp cum es) = map fst es"
  by (induction tp cum es rule: buildCdf.induct) (auto simp: Let_def)

lemma firstCovering_mem: "firstCovering u cdf = Some r \<Longrightarrow> r \<in> fst ` set cdf"
  by (induction u cdf rule: firstCovering.induct) (auto split: if_splits)

lemma sampleRegime_mem:
  assumes "sampleRegime u cdf = Inr r"
  shows "r \<in> fst ` set cdf"
proof (cases "firstCovering u cdf")
  case None
  with assms have "cdf \<noteq> []" "r = fst (last cdf)"
    by (cases cdf; simp add: sampleRegime_def)+
  then show ?thesis by simp
next
  case (Some r')
  with assms have "r' = r" by (cases cdf) (auto simp: sampleRegime_def)
  with Some show ?thesis by (simp add: firstCovering_mem)
qed

lemma sampleRegime_Inr: "cdf \<noteq> [] \<Longrightarrow> \<exists>r. sampleRegime u cdf = Inr r"
  by (auto simp: sampleRegime_def split: list.splits)

lemma genScenario_Inr:
  assumes "cdf \<noteq> []" "\<forall>r \<in> fst ` set cdf. rt r \<noteq> None"
  shows "\<exists>m rng'. genScenario rt cdf rng = Inr (m, rng')"
proof -
  obtain u rng1 where u: "rng_next rng = (u, rng1)" by (cases "rng_next rng")
  obtain r where r: "sampleRegime u cdf = Inr r" using sampleRegime_Inr[OF assms(1)] by blast
  then obtain c where c: "rt r = Some c" using assms(2) sampleRegime_mem by fastforce
  show ?thesis
    by (simp add: genScenario_def u r c Let_def split: prod.splits)
qed

lemma scenarioLoop_Inr:
  assumes "cdf \<noteq> []" "\<forall>r \<in> fst ` set cdf. rt r \<noteq> None"
  shows "\<exists>ms rng'. scenarioLoop rt cdf n rng = Inr (ms, rng') \<and> length ms = n"
proof (induction n arbitrary: rng)
  case 0 show ?case by simp
next
  case (Suc n)
  obtain m rng1 where m: "genScenario rt cdf rng = Inr (m, rng1)"
    using genScenario_Inr[OF assms] by blast
  obtain ms rng2 where "scenarioLoop rt cdf n rng1 = Inr (ms, rng2)" "length ms = n"
    using Suc by blast
  with m show ?case by simp
qed

lemma scenarioLoop_length:
  "scenarioLoop rt cdf n rng = Inr (ms, rng') \<Longrightarrow> length ms = n"
  by (induction n arbitrary: rng ms rng') (auto split: sum.splits prod.splits)

lemma generateScenarios_Inr:
  assumes "regimesEnabled cfg \<noteq> []" "list_all (\<lambda>r. rt r \<noteq> None) (regimesEnabled cfg)"
  shows "\<exists>ms rng'. generateScenarios cfg rt rng = Inr (ms, rng') \<and> length ms = numScenarios cfg"
proof -
  obtain es where es: "regimeEntries rt (regimesEnabled cfg) = Inr es" "map fst es = regimesEnabled cfg"
    using regimeEntries_Inr[OF assms(2)] by blast
  let ?cdf = "buildCdf (foldl (\<lambda>s e. s + probability (snd e)) (Fin 0) es) (Fin 0) es"
  have fst: "map fst ?cdf = regimesEnabled cfg" by (simp add: buildCdf_fst es)
  then have ne: "?cdf \<noteq> []" using assms(1) by auto
  have "fst ` set ?cdf = set (regimesEnabled cfg)" using fst by (metis set_map)
  then have ok: "\<forall>r \<in> fst ` set ?cdf. rt r \<noteq> None" using assms(2) by (simp add: list_all_iff)
  show ?thesis
    using scenarioLoop_Inr[OF ne ok] by (simp add: generateScenarios_def es Let_def)
qed

lemma generateScenarios_length:
  "generateScenarios cfg rt rng = Inr (ms, rng') \<Longrightarrow> length ms = numScenarios cfg"
  by (auto simp: generateScenarios_def Let_def split: sum.splits dest: scenarioLoop_length)

lemma resultsLoop_length: "length (resultsLoop A pf cfg i ms rng) = length ms"
  by (induction ms arbitrary: i rng) (auto simp: Let_def split: prod.splits)

lemma simulateScenario_id: "scenarioId (fst (simulateScenario A pf cfg i m rng)) = i"
  by (simp add: simulateScenario_def Let_def split: prod.splits)

lemma resultsLoop_ids: "map scenarioId (resultsLoop A pf cfg i ms rng) = [i ..< i + length ms]"
proof (induction ms arbitrary: i rng)
  case Nil
  show ?case by simp
next
  case (Cons m ms)
  obtain r rng1 where r: "simulateScenario A pf cfg i m rng = (r, rng1)"
    by (cases "simulateScenario A pf cfg i m rng")
  have "scenarioId r = i" using simulateScenario_id[of A pf cfg i m rng] r by simp
  moreover have "map scenarioId (resultsLoop A pf cfg (Suc i) ms rng1) = [Suc i ..< Suc i + length ms]"
    by (rule Cons)
  moreover have "[i ..< i + length (m # ms)] = i # [Suc i ..< Suc i + length ms]"
  proof -
    have "i < i + length (m # ms)" by simp
    from upt_conv_Cons[OF this] show ?thesis by (simp only: list.size add_Suc_right add_Suc add_0_right)
  qed
  ultimately show ?case using r by simp
qed

lemma runMonteCarlo_Inr:
  assumes "regimesEnabled cfg \<noteq> []" "list_all (\<lambda>r. regimes A r \<noteq> None) (regimesEnabled cfg)"
  shows "\<exists>s. runMonteCarlo A amb pf cfg sd = Inr s"
  using generateScenarios_Inr[OF assms] 
  by (simp add: runMonteCarlo_def Let_def split: sum.splits prod.splits) (metis Inl_Inr_False)

lemma runMonteCarlo_summary:
  assumes "runMonteCarlo A amb pf cfg sd = Inr s"
  shows "\<exists>results. s = summarize A amb pf cfg results \<and> length results = numScenarios cfg
           \<and> map scenarioId results = [0 ..< numScenarios cfg]"
  using assms
  by (auto simp: runMonteCarlo_def Let_def resultsLoop_length resultsLoop_ids 
      split: sum.splits prod.splits dest!: generateScenarios_length)

lemma metrics_summarize: "metrics (summarize A amb pf cfg results) = metrics_of cfg results"
  by (simp add: summarize_def Let_def)

lemma tailFlags_summarize:
  "tailFlags (summarize A amb pf cfg results) = tailFlags_of pf (corrMatrix_of A pf results)"
  by (simp add: summarize_def Let_def)


section \<open>Determinism of the simulation\<close>

lemma runMonteCarlo_unseeded:
  "runMonteCarlo A amb pf cfg None
     = runMonteCarlo A amb pf cfg (Some (Fin (of_int (now_rng amb))))"
  by (simp add: runMonteCarlo_def nullish_def)

text \<open>
  Claim C1. With a seed given, the metrics of \<open>runMonteCarlo\<close> are a function of the
  assumptions table, the portfolio, the configuration and the seed alone: two calls that
  differ in everything a call reads from outside its arguments (the clock, \<open>Math.random\<close>)
  return the same metrics, or both throw. Numbers are exact reals with the IEEE special
  values, so equality of the metrics is equality of every field.
\<close>

theorem runMonteCarlo_deterministic:
  "map_sum id metrics (runMonteCarlo A amb1 pf cfg (Some sd))
     = map_sum id metrics (runMonteCarlo A amb2 pf cfg (Some sd))"
proof (cases "generateScenarios cfg (regimes A) (SeededRNG_new sd)")
  case (Inl e)
  then show ?thesis by (simp add: runMonteCarlo_def nullish_def)
next
  case (Inr p)
  then show ?thesis
    by (cases p) (simp add: runMonteCarlo_def nullish_def metrics_summarize)
qed

section \<open>Tail flags\<close>

lemma example_runs: "\<exists>s. runMonteCarlo exampleAssumptions amb pf (exampleConfig n) sd = Inr s"
  by (rule runMonteCarlo_Inr) (simp_all add: exampleConfig_def exampleAssumptions_def)

text \<open>
  Claim C10. Every summary returned by \<open>runMonteCarlo\<close> carries a fifth tail flag,
  \<open>durationRisk\<close>, and it always equals \<open>rateShockRisk\<close>: both are true exactly when the
  long-term-bond weight (0 when absent) exceeds 0.15.
\<close>

theorem durationRisk_eq_rateShockRisk:
  assumes "runMonteCarlo A amb pf cfg sd = Inr s"
  shows "durationRisk (tailFlags s) = rateShockRisk (tailFlags s)
         \<and> rateShockRisk (tailFlags s) = (nullish (allocations pf longTermBonds) (Fin 0) > Fin 0.15)"
  using runMonteCarlo_summary[OF assms]
  by (auto simp: tailFlags_summarize tailFlags_of_def hasLongDuration_def Let_def)

theorem durationRisk_eq_rateShockRisk_witness:
  "\<exists>s. runMonteCarlo exampleAssumptions exampleAmbient balanced (exampleConfig 2000) (Some (Fin 42)) = Inr s
       \<and> durationRisk (tailFlags s) = rateShockRisk (tailFlags s)
       \<and> rateShockRisk (tailFlags s) = (nullish (allocations balanced longTermBonds) (Fin 0) > Fin 0.15)"
proof -
  obtain s where s: "runMonteCarlo exampleAssumptions exampleAmbient balanced (exampleConfig 2000) (Some (Fin 42)) = Inr s"
    using example_runs by blast
  from durationRisk_eq_rateShockRisk[OF s] s show ?thesis by blast
qed


section \<open>Properties of the rounding\<close>

subsection \<open>The binary exponent\<close>

lemma lg_bounds:
  assumes "0 < x"
  shows "2 powi lg x \<le> x" "x < 2 powi (lg x + 1)"
proof -
  have "2 powi lg x \<le> x \<and> x < 2 powi (lg x + 1)"
  proof (cases "1 \<le> x")
    case True
    let ?n = "\<lfloor>x\<rfloor>"
    have n: "0 < ?n" using True by simp
    let ?b = "bitlen ?n"
    have b1: "1 \<le> ?b" using n by (simp add: bitlen_alt_def)
    have l: "lg x = ?b - 1" using True assms by (simp add: lg_def)
    from bitlen_bounds[OF n] have lo: "2 ^ nat (?b - 1) \<le> ?n" and hi: "?n < 2 ^ nat ?b" by simp_all
    have "(2::real) ^ nat (?b - 1) \<le> of_int ?n" using lo by (metis of_int_le_iff of_int_numeral of_int_power)
    also have "\<dots> \<le> x" by simp
    finally have 1: "2 powi (?b - 1) \<le> x" using b1 by (simp add: power_int_def)
    from hi have "?n + 1 \<le> 2 ^ nat ?b" by simp
    then have "of_int (?n + 1) \<le> (2::real) ^ nat ?b" by (metis of_int_le_iff of_int_numeral of_int_power)
    moreover have "x < of_int (?n + 1)" by linarith
    ultimately have "x < 2 ^ nat ?b" by linarith
    then have 2: "x < 2 powi ?b" using b1 by (simp add: power_int_def)
    show ?thesis using 1 2 by (simp add: l)
  next
    case False
    let ?y = "1 / x"
    have y: "1 < ?y" using False assms by simp
    let ?m = "\<lceil>?y\<rceil>"
    have m: "0 < ?m - 1" using y by linarith
    let ?j = "bitlen (?m - 1)"
    have j1: "1 \<le> ?j" using m by (simp add: bitlen_alt_def)
    have l: "lg x = - ?j" using False assms by (simp add: lg_def)
    from bitlen_bounds[OF m] have lo: "2 ^ nat (?j - 1) \<le> ?m - 1" and hi: "?m - 1 < 2 ^ nat ?j" by simp_all
    from hi have "?m \<le> 2 ^ nat ?j" by simp
    then have "of_int ?m \<le> (2::real) ^ nat ?j" by (metis of_int_le_iff of_int_numeral of_int_power)
    moreover have "?y \<le> of_int ?m" by simp
    ultimately have "?y \<le> 2 ^ nat ?j" by linarith
    then have "1 \<le> x * 2 ^ nat ?j" using assms by (simp add: field_simps)
    then have "1 / 2 ^ nat ?j \<le> x" by (simp add: field_simps)
    then have 1: "2 powi (- ?j) \<le> x" using j1 by (simp add: power_int_def field_simps)
    have "(2::real) ^ nat (?j - 1) \<le> of_int (?m - 1)" using lo by (metis of_int_le_iff of_int_numeral of_int_power)
    moreover have "of_int (?m - 1) < ?y" by linarith
    ultimately have "(2::real) ^ nat (?j - 1) < ?y" by linarith
    then have "x * 2 ^ nat (?j - 1) < 1" using assms by (simp add: field_simps)
    then have "x < 1 / 2 ^ nat (?j - 1)" by (simp add: field_simps)
    moreover have "2 powi (- ?j + 1) = 1 / (2::real) ^ nat (?j - 1)"
    proof -
      have "- ?j + 1 = - (?j - 1)" by simp
      then have "2 powi (- ?j + 1) = 1 / (2::real) powi (?j - 1)" by (simp only: power_int_minus_divide)
      then show ?thesis using j1 by (simp add: power_int_def)
    qed
    ultimately have 2: "x < 2 powi (- ?j + 1)" by simp
    show ?thesis using 1 2 by (simp add: l)
  qed
  then show "2 powi lg x \<le> x" "x < 2 powi (lg x + 1)" by simp_all
qed

lemma lg_unique:
  assumes "2 powi k \<le> x" "x < 2 powi (k + 1)"
  shows "lg x = k"
proof -
  have x: "0 < x" using assms(1) by (smt (verit) zero_less_power_int)
  note b = lg_bounds[OF x]
  have "\<not> lg x < k"
  proof
    assume "lg x < k"
    then have "lg x + 1 \<le> k" by simp
    then have "(2::real) powi (lg x + 1) \<le> 2 powi k" by (intro power_int_increasing) simp_all
    then show False using b(2) assms(1) by linarith
  qed
  moreover have "\<not> k < lg x"
  proof
    assume "k < lg x"
    then have "k + 1 \<le> lg x" by simp
    then have "(2::real) powi (k + 1) \<le> 2 powi lg x" by (intro power_int_increasing) simp_all
    then show False using b(1) assms(2) by linarith
  qed
  ultimately show ?thesis by simp
qed

lemma lg_mono:
  assumes "0 < x" "x \<le> y"
  shows "lg x \<le> lg y"
proof (rule ccontr)
  assume "\<not> lg x \<le> lg y"
  then have "lg y + 1 \<le> lg x" by simp
  then have "(2::real) powi (lg y + 1) \<le> 2 powi lg x" by (intro power_int_increasing) simp_all
  moreover have "0 < y" using assms by simp
  ultimately show False using lg_bounds(1)[OF assms(1)] lg_bounds(2)[of y] assms(2) by linarith
qed

lemma ex_mono: "0 < x \<Longrightarrow> x \<le> y \<Longrightarrow> ex x \<le> ex y"
  using lg_mono[of x y] by (simp add: ex_def)

lemma ex_ge: "emin \<le> ex x"
  by (simp add: ex_def)

lemma ulp_pos: "0 < ulp x"
  by (simp add: ulp_def)

lemma x_below_next: "0 < x \<Longrightarrow> x < 2 powi (ex x + 1)"
proof -
  assume x: "0 < x"
  have "(2::real) powi (lg x + 1) \<le> 2 powi (ex x + 1)"
    by (intro power_int_increasing) (simp_all add: ex_def)
  then show ?thesis using lg_bounds(2)[OF x] by linarith
qed

subsection \<open>Rounding to the nearest integer\<close>

lemma rne_floor: "rne q = \<lfloor>q\<rfloor> \<or> rne q = \<lfloor>q\<rfloor> + 1"
  by (simp add: rne_def Let_def)

lemma rne_err: "\<bar>of_int (rne q) - q\<bar> \<le> 1 / 2"
  unfolding rne_def Let_def by (auto split: if_splits)

lemma rne_of_int [simp]: "rne (of_int n) = n"
  by (simp add: rne_def)

lemma rne_mono:
  assumes "q \<le> q'"
  shows "rne q \<le> rne q'"
proof (cases "\<lfloor>q\<rfloor> = \<lfloor>q'\<rfloor>")
  case True
  then show ?thesis using assms unfolding rne_def Let_def by (auto split: if_splits)
next
  case False
  then have "\<lfloor>q\<rfloor> < \<lfloor>q'\<rfloor>" using assms floor_mono[of q q'] by linarith
  moreover have "rne q \<le> \<lfloor>q\<rfloor> + 1" using rne_floor[of q] by auto
  moreover have "\<lfloor>q'\<rfloor> \<le> rne q'" using rne_floor[of q'] by auto
  ultimately show ?thesis by linarith
qed

lemma rne_nonneg: "0 \<le> q \<Longrightarrow> 0 \<le> rne q"
  using rne_mono[of 0 q] rne_of_int[of 0] by simp

subsection \<open>Error and monotonicity of the rounding\<close>

lemma rd_0 [simp]: "rd 0 = 0"
  by (simp add: rd_def)

lemma rd_nonneg: "0 \<le> x \<Longrightarrow> 0 \<le> rd x"
  using ulp_pos[of x] by (auto simp: rd_def intro!: mult_nonneg_nonneg rne_nonneg)

lemma rd_half_ulp: "\<bar>rd x - x\<bar> \<le> ulp x / 2"
proof (cases "x = 0")
  case True
  then show ?thesis using ulp_pos[of x] by simp
next
  case False
  have u: "0 < ulp x" by (rule ulp_pos)
  have "rd x - x = (of_int (rne (x / ulp x)) - x / ulp x) * ulp x"
    using u False by (simp add: rd_def left_diff_distrib)
  then have "\<bar>rd x - x\<bar> = \<bar>of_int (rne (x / ulp x)) - x / ulp x\<bar> * ulp x"
    using u by (simp only: abs_mult abs_of_pos[OF u])
  also have "\<dots> \<le> (1 / 2) * ulp x"
    using u rne_err[of "x / ulp x"] by (intro mult_right_mono) simp_all
  finally show ?thesis by simp
qed

lemma pow2_pos: "0 < (2::real) powi k"
  by simp

lemma pw_split: "(2::real) powi e = 2 ^ mant * 2 powi (e - int mant)"
proof -
  have "(2::real) powi e = 2 powi (int mant + (e - int mant))" by simp
  also have "\<dots> = 2 powi (int mant) * 2 powi (e - int mant)" by (subst power_int_add) simp_all
  finally show ?thesis by simp
qed

lemma pw_Suc: "(2::real) powi (e + 1) = 2 * 2 powi e"
proof -
  have "(2::real) powi (e + 1) = 2 powi (1 + e)" by (simp add: add.commute)
  also have "\<dots> = 2 powi 1 * 2 powi e" by (subst power_int_add) simp_all
  finally show ?thesis by simp
qed

lemma pw_split': "of_int (2 ^ mant) * (2::real) powi (e - int mant) = 2 powi e"
  using pw_split[of e] by simp

lemma pw_split2: "of_int (2 * 2 ^ mant) * (2::real) powi (e - int mant) = 2 powi (e + 1)"
  using pw_split[of e] pw_Suc[of e] by simp

lemma pw_mono: "a \<le> b \<Longrightarrow> (2::real) powi a \<le> 2 powi b"
  by (intro power_int_increasing) simp_all

lemma pos_of_ge: "2 powi k \<le> x \<Longrightarrow> 0 < (x::real)"
  using pow2_pos[of k] by linarith

lemma ex_normal: "2 powi emin \<le> x \<Longrightarrow> ex x = lg x"
proof -
  assume a: "2 powi emin \<le> x"
  have x: "0 < x" by (rule pos_of_ge[OF a])
  have "\<not> lg x + 1 \<le> emin"
  proof
    assume "lg x + 1 \<le> emin"
    from pw_mono[OF this] show False using lg_bounds(2)[OF x] a by linarith
  qed
  then show ?thesis by (simp add: ex_def)
qed

lemma ex_subnormal: "0 < x \<Longrightarrow> x < 2 powi emin \<Longrightarrow> ex x = emin"
proof -
  assume x: "0 < x" and a: "x < 2 powi emin"
  have "\<not> emin < lg x"
  proof
    assume "emin < lg x"
    then have "emin \<le> lg x" by simp
    from pw_mono[OF this] show False using lg_bounds(1)[OF x] a by linarith
  qed
  then show ?thesis by (simp add: ex_def)
qed

text \<open>The scaled value \<open>x / ulp x\<close> lies below \<open>2^53\<close>, and for normal \<open>x\<close> at or above \<open>2^52\<close>.\<close>

lemma scaled_upper:
  assumes "0 < x"
  shows "x / ulp x \<le> of_int (2 * 2 ^ mant)"
proof -
  have u: "0 < ulp x" by (rule ulp_pos)
  have "x < 2 powi (ex x + 1)" by (rule x_below_next[OF assms])
  also have "\<dots> = of_int (2 * 2 ^ mant) * ulp x" unfolding ulp_def by (rule pw_split2[symmetric])
  finally have "x / ulp x < of_int (2 * 2 ^ mant)" using u by (simp only: pos_divide_less_eq)
  then show ?thesis by (rule less_imp_le)
qed

lemma scaled_lower:
  assumes "2 powi emin \<le> x"
  shows "of_int (2 ^ mant) \<le> x / ulp x"
proof -
  have x: "0 < x" by (rule pos_of_ge[OF assms])
  have u: "0 < ulp x" by (rule ulp_pos)
  have "of_int (2 ^ mant) * ulp x = 2 powi (lg x)" unfolding ulp_def ex_normal[OF assms] by (rule pw_split')
  also have "\<dots> \<le> x" by (rule lg_bounds(1)[OF x])
  finally show ?thesis using u by (simp only: pos_le_divide_eq)
qed

lemma mantissa_upper: "0 < x \<Longrightarrow> rne (x / ulp x) \<le> 2 * 2 ^ mant"
  using rne_mono[OF scaled_upper, of x] unfolding rne_of_int .

lemma mantissa_lower: "2 powi emin \<le> x \<Longrightarrow> 2 ^ mant \<le> rne (x / ulp x)"
  using rne_mono[OF scaled_lower, of x] unfolding rne_of_int .

lemma ulp_normal:
  assumes "2 powi emin \<le> x"
  shows "ulp x \<le> x / 2 ^ mant"
proof -
  have u: "0 < ulp x" by (rule ulp_pos)
  have "(2::real) ^ mant \<le> x / ulp x" using scaled_lower[OF assms] by simp
  then have "2 ^ mant * ulp x \<le> x" using u by (simp add: pos_le_divide_eq)
  then have "ulp x * 2 ^ mant \<le> x" by (simp add: mult.commute)
  then show ?thesis by (simp add: pos_le_divide_eq)
qed

lemma rd_err_normal:
  assumes "2 powi emin \<le> x"
  shows "\<bar>rd x - x\<bar> \<le> x / (2 * 2 ^ mant)"
proof -
  have "\<bar>rd x - x\<bar> \<le> ulp x / 2" by (rule rd_half_ulp)
  also have "\<dots> \<le> (x / 2 ^ mant) / 2" using ulp_normal[OF assms] by simp
  finally show ?thesis by simp
qed

lemma rd_err_subnormal:
  assumes "0 \<le> x" "x < 2 powi emin"
  shows "\<bar>rd x - x\<bar> \<le> 2 powi (emin - int mant) / 2"
proof (cases "x = 0")
  case True
  then show ?thesis by simp
next
  case False
  then have x: "0 < x" using assms by simp
  have "ulp x = 2 powi (emin - int mant)" by (simp add: ulp_def ex_subnormal[OF x assms(2)])
  then show ?thesis using rd_half_ulp[of x] by simp
qed

lemma rd_err:
  assumes "0 \<le> x"
  shows "\<bar>rd x - x\<bar> \<le> x / (2 * 2 ^ mant) + 2 powi (emin - int mant) / 2"
proof (cases "2 powi emin \<le> x")
  case True
  have "0 \<le> (2::real) powi (emin - int mant) / 2" by simp
  then show ?thesis using rd_err_normal[OF True] by linarith
next
  case False
  then have "\<bar>rd x - x\<bar> \<le> 2 powi (emin - int mant) / 2" using rd_err_subnormal[OF assms] by simp
  moreover have "0 \<le> x / (2 * 2 ^ mant)" using assms by simp
  ultimately show ?thesis by linarith
qed

lemma rd_upper:
  assumes "0 < x"
  shows "rd x \<le> 2 powi (ex x + 1)"
proof -
  have u: "0 < ulp x" by (rule ulp_pos)
  have "of_int (rne (x / ulp x)) \<le> (of_int (2 * 2 ^ mant) :: real)"
    using mantissa_upper[OF assms] by (simp only: of_int_le_iff)
  then have "of_int (rne (x / ulp x)) * ulp x \<le> of_int (2 * 2 ^ mant) * ulp x"
    using u by (intro mult_right_mono) simp_all
  also have "\<dots> = 2 powi (ex x + 1)" unfolding ulp_def by (rule pw_split2)
  finally show ?thesis using assms by (simp add: rd_def)
qed

lemma rd_lower:
  assumes "2 powi emin \<le> x"
  shows "2 powi (ex x) \<le> rd x"
proof -
  have x: "0 < x" by (rule pos_of_ge[OF assms])
  have u: "0 < ulp x" by (rule ulp_pos)
  have "(of_int (2 ^ mant) :: real) \<le> of_int (rne (x / ulp x))"
    using mantissa_lower[OF assms] by (simp only: of_int_le_iff)
  then have "of_int (2 ^ mant) * ulp x \<le> of_int (rne (x / ulp x)) * ulp x"
    using u by (intro mult_right_mono) simp_all
  moreover have "of_int (2 ^ mant) * ulp x = 2 powi (ex x)" unfolding ulp_def by (rule pw_split')
  ultimately have "2 powi (ex x) \<le> of_int (rne (x / ulp x)) * ulp x" by (simp only:)
  then show ?thesis using x by (simp add: rd_def)
qed

lemma rd_mono:
  assumes "0 \<le> x" "x \<le> y"
  shows "rd x \<le> rd y"
proof (cases "x = 0")
  case True
  then show ?thesis using rd_nonneg[of y] assms by simp
next
  case False
  then have x: "0 < x" and y: "0 < y" using assms by simp_all
  show ?thesis
  proof (cases "ex x = ex y")
    case True
    then have u: "ulp x = ulp y" by (simp add: ulp_def)
    have "x / ulp y \<le> y / ulp y" using assms(2) ulp_pos[of y] by (simp add: divide_right_mono)
    from rne_mono[OF this] have "of_int (rne (x / ulp y)) \<le> (of_int (rne (y / ulp y)) :: real)" by simp
    then have "of_int (rne (x / ulp y)) * ulp y \<le> of_int (rne (y / ulp y)) * ulp y"
      using ulp_pos[of y] by (intro mult_right_mono) simp_all
    then show ?thesis using x y by (simp add: rd_def u)
  next
    case False
    then have lt: "ex x + 1 \<le> ex y" using ex_mono[OF x assms(2)] by simp
    then have gt: "emin < ex y" using ex_ge[of x] by simp
    then have ly: "ex y = lg y" by (simp add: ex_def split: if_splits)
    have "emin \<le> lg y" using gt ly by simp
    from pw_mono[OF this] have ny: "2 powi emin \<le> y" using lg_bounds(1)[OF y] by linarith
    have "rd x \<le> 2 powi (ex x + 1)" by (rule rd_upper[OF x])
    also have "\<dots> \<le> 2 powi (ex y)" by (rule pw_mono[OF lt])
    also have "\<dots> \<le> rd y" by (rule rd_lower[OF ny])
    finally show ?thesis .
  qed
qed

lemma rd_exact_normal:
  assumes "emin \<le> k" "2 ^ mant \<le> n" "n < 2 * 2 ^ mant"
  shows "rd (of_int n * 2 powi (k - int mant)) = of_int n * 2 powi (k - int mant)"
proof -
  let ?u = "(2::real) powi (k - int mant)"
  let ?x = "of_int n * ?u"
  have n1: "(of_int (2 ^ mant) :: real) \<le> of_int n" using assms(2) by (simp only: of_int_le_iff)
  have n2: "(of_int n :: real) < of_int (2 * 2 ^ mant)" using assms(3) by (simp only: of_int_less_iff)
  have p: "0 < ?u" by simp
  have "of_int (2 ^ mant) * ?u \<le> ?x" using n1 p by (intro mult_right_mono) simp_all
  then have lo: "2 powi k \<le> ?x" by (simp only: pw_split')
  have "?x < of_int (2 * 2 ^ mant) * ?u" using n2 p by (intro mult_strict_right_mono) simp_all
  then have hi: "?x < 2 powi (k + 1)" by (simp only: pw_split2)
  have l: "lg ?x = k" by (rule lg_unique[OF lo hi])
  have e: "ex ?x = k" using assms(1) by (simp add: ex_def l)
  have x: "?x \<noteq> 0" using pos_of_ge[OF lo] by auto
  have "rd ?x = of_int (rne (?x / ?u)) * ?u" using x by (simp only: rd_def ulp_def e if_False)
  moreover have "?x / ?u = of_int n" using p by simp
  ultimately show ?thesis by (simp only: rne_of_int)
qed

lemma rd_exact_subnormal:
  assumes "0 \<le> n" "n < 2 ^ mant"
  shows "rd (of_int n * 2 powi (emin - int mant)) = of_int n * 2 powi (emin - int mant)"
proof (cases "n = 0")
  case True
  then show ?thesis by simp
next
  case False
  let ?u = "(2::real) powi (emin - int mant)"
  let ?x = "of_int n * ?u"
  have n0: "0 < (of_int n :: real)" using False assms(1) by simp
  have n2: "(of_int n :: real) < of_int (2 ^ mant)" using assms(2) by (simp only: of_int_less_iff)
  have p: "0 < ?u" by simp
  have x: "0 < ?x" using n0 p by simp
  have "?x < of_int (2 ^ mant) * ?u" using n2 p by (intro mult_strict_right_mono) simp_all
  then have "?x < 2 powi emin" by (simp only: pw_split')
  then have e: "ex ?x = emin" by (rule ex_subnormal[OF x])
  have x0: "?x \<noteq> 0" using x by auto
  have "rd ?x = of_int (rne (?x / ?u)) * ?u" using x0 by (simp only: rd_def ulp_def e if_False)
  moreover have "?x / ?u = of_int n" using p by simp
  ultimately show ?thesis by (simp only: rne_of_int)
qed

lemma rd_rd:
  assumes "0 \<le> x"
  shows "rd (rd x) = rd x"
proof (cases "x = 0")
  case True
  then show ?thesis by simp
next
  case False
  then have x: "0 < x" using assms by simp
  let ?m = "rne (x / ulp x)"
  have r: "rd x = of_int ?m * 2 powi (ex x - int mant)" using False by (simp add: rd_def ulp_def)
  have u: "0 < ulp x" by (rule ulp_pos)
  have m0: "0 \<le> ?m" using x u by (intro rne_nonneg) simp
  consider (top) "?m = 2 * 2 ^ mant" | (normal) "2 ^ mant \<le> ?m" "?m < 2 * 2 ^ mant" | (small) "?m < 2 ^ mant"
    using mantissa_upper[OF x] by linarith
  then show ?thesis
  proof cases
    case top
    have "rd x = of_int (2 * 2 ^ mant) * 2 powi (ex x - int mant)" unfolding r top ..
    also have "\<dots> = 2 powi (ex x + 1)" by (rule pw_split2)
    also have "\<dots> = of_int (2 ^ mant) * 2 powi ((ex x + 1) - int mant)" by (rule pw_split'[symmetric])
    finally have r': "rd x = of_int (2 ^ mant) * 2 powi ((ex x + 1) - int mant)" .
    have "emin \<le> ex x + 1" using ex_ge[of x] by simp
    then show ?thesis unfolding r' by (rule rd_exact_normal) simp_all
  next
    case normal
    show ?thesis unfolding r by (rule rd_exact_normal[OF ex_ge normal])
  next
    case small
    have "\<not> 2 powi emin \<le> x" using mantissa_lower[of x] small by auto
    then have e: "ex x = emin" using ex_subnormal[OF x] by simp
    show ?thesis unfolding r e by (rule rd_exact_subnormal[OF m0 small])
  qed
qed

lemma rd_grid:
  assumes "0 \<le> x"
  shows "\<exists>n::int. 0 \<le> n \<and> rd x = of_int n * 2 powi (emin - int mant)"
proof (cases "x = 0")
  case True
  then show ?thesis by (intro exI[of _ 0]) simp
next
  case False
  then have x: "0 < x" using assms by simp
  let ?m = "rne (x / ulp x)"
  have m0: "0 \<le> ?m" using x ulp_pos[of x] by (intro rne_nonneg) simp
  let ?d = "nat (ex x - emin)"
  have d: "int ?d = ex x - emin" using ex_ge[of x] by simp
  have "ex x - int mant = int ?d + (emin - int mant)" unfolding d by simp
  then have "(2::real) powi (ex x - int mant) = 2 powi (int ?d + (emin - int mant))" by (simp only:)
  also have "\<dots> = 2 powi (int ?d) * 2 powi (emin - int mant)" by (subst power_int_add) simp_all
  finally have "of_int ?m * (2::real) powi (ex x - int mant) = of_int (?m * 2 ^ ?d) * 2 powi (emin - int mant)"
    by (simp only: power_int_of_nat of_int_mult of_int_power of_int_numeral mult.assoc)
  then have "rd x = of_int (?m * 2 ^ ?d) * 2 powi (emin - int mant)"
    using False by (simp only: rd_def ulp_def if_False)
  moreover have "0 \<le> ?m * 2 ^ ?d" using m0 by simp
  ultimately show ?thesis by blast
qed

lemma rd_add_err:
  assumes "0 \<le> a" "0 \<le> b" "rd a = a" "rd b = b"
  shows "\<bar>rd (a + b) - (a + b)\<bar> \<le> (a + b) / (2 * 2 ^ mant)"
proof (cases "2 powi emin \<le> a + b")
  case True
  then show ?thesis by (rule rd_err_normal)
next
  case False
  let ?u = "(2::real) powi (emin - int mant)"
  obtain n where n: "0 \<le> n" "a = of_int n * ?u" using rd_grid[OF assms(1)] assms(3) by auto
  obtain m where m: "0 \<le> m" "b = of_int m * ?u" using rd_grid[OF assms(2)] assms(4) by auto
  have s: "a + b = of_int (n + m) * ?u" by (simp add: n(2) m(2) distrib_right)
  have "\<not> 2 ^ mant \<le> n + m"
  proof
    assume "2 ^ mant \<le> n + m"
    then have "(of_int (2 ^ mant) :: real) \<le> of_int (n + m)" by (simp only: of_int_le_iff)
    then have "of_int (2 ^ mant) * ?u \<le> of_int (n + m) * ?u"
      by (intro mult_right_mono) simp_all
    then have "2 powi emin \<le> of_int (n + m) * ?u" by (simp only: pw_split')
    then show False using False unfolding s by (simp only:)
  qed
  then have "rd (a + b) = a + b"
    unfolding s using n(1) m(1) by (intro rd_exact_subnormal) simp_all
  then show ?thesis using assms(1,2) by simp
qed

subsection \<open>Certificates for single roundings\<close>

lemma rne_eqI: "\<bar>q - of_int m\<bar> < 1 / 2 \<Longrightarrow> rne q = m"
proof -
  assume a: "\<bar>q - of_int m\<bar> < 1 / 2"
  have "\<lfloor>q\<rfloor> = m \<or> \<lfloor>q\<rfloor> = m - 1" using a by linarith
  then show ?thesis
  proof
    assume f: "\<lfloor>q\<rfloor> = m"
    have "q - of_int \<lfloor>q\<rfloor> < 1 / 2" using a unfolding f by linarith
    then show ?thesis by (simp add: rne_def f)
  next
    assume f: "\<lfloor>q\<rfloor> = m - 1"
    have "of_int (m - 1) = (of_int m :: real) - 1" by simp
    then have "1 / 2 < q - of_int \<lfloor>q\<rfloor>" using a unfolding f by linarith
    then show ?thesis by (simp add: rne_def f)
  qed
qed

text \<open>A certificate for one rounding: the binade \<open>k\<close> and the mantissa \<open>m\<close>.\<close>

lemma rd_cert:
  assumes "emin \<le> k" "2 powi k \<le> x" "x < 2 powi (k + 1)"
    and "r = of_int m * 2 powi (k - int mant)"
    and "\<bar>x - r\<bar> < 2 powi (k - int mant) / 2"
  shows "rd x = r"
proof -
  let ?u = "(2::real) powi (k - int mant)"
  have u: "0 < ?u" by simp
  have l: "lg x = k" by (rule lg_unique[OF assms(2,3)])
  have e: "ex x = k" using assms(1) by (simp add: ex_def l)
  have x: "x \<noteq> 0" using pos_of_ge[OF assms(2)] by auto
  have "x / ?u - of_int m = (x - r) / ?u" using u by (simp add: assms(4) diff_divide_distrib)
  then have "\<bar>x / ?u - of_int m\<bar> = \<bar>x - r\<bar> / ?u" using u by (simp only: abs_divide abs_of_pos[OF u])
  also have "\<dots> < (?u / 2) / ?u" using assms(5) u by (simp only: divide_strict_right_mono)
  also have "\<dots> = 1 / 2" using u by simp
  finally have "rne (x / ?u) = m" by (rule rne_eqI)
  then show ?thesis using x by (simp add: rd_def ulp_def e assms(4))
qed

lemma rne_tie: "q = of_int f + 1 / 2 \<Longrightarrow> rne q = (if even f then f else f + 1)"
proof -
  assume q: "q = of_int f + 1 / 2"
  have fl: "\<lfloor>q\<rfloor> = f" unfolding q by linarith
  have "q - of_int \<lfloor>q\<rfloor> = 1 / 2" unfolding fl q by simp
  then show ?thesis by (simp add: rne_def fl)
qed

lemma rd_cert_tie:
  assumes "emin \<le> k" "2 powi k \<le> x" "x < 2 powi (k + 1)"
    and "x = (of_int f + 1 / 2) * 2 powi (k - int mant)"
    and "r = of_int (if even f then f else f + 1) * 2 powi (k - int mant)"
  shows "rd x = r"
proof -
  let ?u = "(2::real) powi (k - int mant)"
  have u: "0 < ?u" by simp
  have l: "lg x = k" by (rule lg_unique[OF assms(2,3)])
  have e: "ex x = k" using assms(1) by (simp add: ex_def l)
  have x: "x \<noteq> 0" using pos_of_ge[OF assms(2)] by auto
  have "x / ?u = of_int f + 1 / 2" using u by (simp add: assms(4))
  then have "rne (x / ?u) = (if even f then f else f + 1)" by (rule rne_tie)
  then show ?thesis using x by (simp only: rd_def ulp_def e assms(5) if_False)
qed

lemma rne_minus: "rne (- q) = - rne q"
proof (cases "q = of_int \<lfloor>q\<rfloor>")
  case True
  then obtain n :: int where n: "q = of_int n" by metis
  have "- q = of_int (- n)" by (simp add: n)
  then have "rne (- q) = - n" by (simp only: rne_of_int)
  then show ?thesis by (simp add: n)
next
  case False
  let ?f = "\<lfloor>q\<rfloor>"
  let ?d = "q - of_int ?f"
  have d: "0 < ?d" "?d < 1" using False by linarith+
  have fm: "\<lfloor>- q\<rfloor> = - ?f - 1" using d by linarith
  have dm: "- q - of_int \<lfloor>- q\<rfloor> = 1 - ?d" unfolding fm by simp
  consider "?d < 1 / 2" | "1 / 2 < ?d" | "?d = 1 / 2" by linarith
  then show ?thesis
  proof cases
    case 1
    then have "rne q = ?f" by (simp add: rne_def)
    moreover have "1 / 2 < - q - of_int \<lfloor>- q\<rfloor>" unfolding dm using 1 by linarith
    then have "rne (- q) = \<lfloor>- q\<rfloor> + 1" by (simp add: rne_def Let_def)
    ultimately show ?thesis by (simp add: fm)
  next
    case 2
    then have "rne q = ?f + 1" by (simp add: rne_def)
    moreover have "- q - of_int \<lfloor>- q\<rfloor> < 1 / 2" unfolding dm using 2 by linarith
    then have "rne (- q) = \<lfloor>- q\<rfloor>" by (simp add: rne_def Let_def)
    ultimately show ?thesis by (simp add: fm)
  next
    case 3
    then have a: "rne q = (if even ?f then ?f else ?f + 1)" by (simp add: rne_def)
    have "- q - of_int \<lfloor>- q\<rfloor> = 1 / 2" unfolding dm using 3 by linarith
    then have b: "rne (- q) = (if even \<lfloor>- q\<rfloor> then \<lfloor>- q\<rfloor> else \<lfloor>- q\<rfloor> + 1)"
      by (simp add: rne_def Let_def)
    show ?thesis unfolding a b fm by auto
  qed
qed

lemma rd_minus: "rd (- x) = - rd x"
proof -
  have "lg (- x) = lg x" by (simp add: lg_def)
  then have u: "ulp (- x) = ulp x" by (simp add: ulp_def ex_def)
  have "rne (- x / ulp x) = - rne (x / ulp x)" using rne_minus[of "x / ulp x"] by simp
  then show ?thesis by (simp add: rd_def u)
qed

lemma rd_cert_sqrt:
  assumes "emin \<le> k" and "r = of_int m * 2 powi (k - int mant)" and "h = 2 powi (k - int mant) / 2"
    and "2 powi k \<le> r - h" and "r + h \<le> 2 powi (k + 1)"
    and "(r - h)\<^sup>2 < x" and "x < (r + h)\<^sup>2"
  shows "rd (sqrt x) = r"
proof -
  have h: "0 < h" by (simp add: assms(3))
  have lo0: "0 < r - h" using pos_of_ge[OF assms(4)] .
  have 1: "r - h < sqrt x" by (rule real_less_rsqrt[OF assms(6)])
  have 2: "sqrt x < r + h" using lo0 h by (intro real_less_lsqrt[OF _ assms(7)]) simp
  have "\<bar>sqrt x - r\<bar> < h" using 1 2 by (simp add: abs_less_iff)
  then have "\<bar>sqrt x - r\<bar> < 2 powi (k - int mant) / 2" by (simp only: assms(3))
  moreover have "2 powi k \<le> sqrt x" using assms(4) 1 by linarith
  moreover have "sqrt x < 2 powi (k + 1)" using assms(5) 2 by linarith
  ultimately show ?thesis using assms(1,2) by (intro rd_cert[where k = k and m = m])
qed

subsection \<open>Rounded sums\<close>

lemma eps_pos: "0 < eps" "eps < 1"
  by (simp_all add: eps_def mant_def)

lemma eta_pos: "0 < eta"
  by (simp add: eta_def)

lemma nnd_0 [simp]: "nnd 0"
  by (simp add: nnd_def)

lemma nnd_rd: "0 \<le> x \<Longrightarrow> nnd (rd x)"
  by (simp add: nnd_def rd_nonneg rd_rd)

lemma rd_add_bounds:
  assumes "nnd a" "nnd b"
  shows "(a + b) * (1 - eps) \<le> rd (a + b)" "rd (a + b) \<le> (a + b) * (1 + eps)"
proof -
  have "\<bar>rd (a + b) - (a + b)\<bar> \<le> (a + b) * eps"
    using rd_add_err[of a b] assms by (simp add: nnd_def eps_def)
  then show "(a + b) * (1 - eps) \<le> rd (a + b)" "rd (a + b) \<le> (a + b) * (1 + eps)"
    by (simp_all add: algebra_simps abs_le_iff)
qed

lemma rd_bounds:
  assumes "0 \<le> x"
  shows "x * (1 - eps) - eta \<le> rd x" "rd x \<le> x * (1 + eps) + eta"
proof -
  have "\<bar>rd x - x\<bar> \<le> x * eps + eta" using rd_err[OF assms] by (simp add: eps_def eta_def)
  then show "x * (1 - eps) - eta \<le> rd x" "rd x \<le> x * (1 + eps) + eta"
    by (simp_all add: algebra_simps abs_le_iff)
qed

lemma rd_bounds_normal:
  assumes "2 powi emin \<le> x"
  shows "x * (1 - eps) \<le> rd x" "rd x \<le> x * (1 + eps)"
proof -
  have "\<bar>rd x - x\<bar> \<le> x * eps" using rd_err_normal[OF assms] by (simp add: eps_def)
  then show "x * (1 - eps) \<le> rd x" "rd x \<le> x * (1 + eps)"
    by (simp_all add: algebra_simps abs_le_iff)
qed

lemma foldl_rd_bounds:
  assumes "\<forall>x \<in> set xs. nnd x" "nnd p"
  shows "nnd (foldl (\<lambda>s v. rd (s + v)) p xs)
       \<and> (p + sum_list xs) * (1 - eps) ^ length xs \<le> foldl (\<lambda>s v. rd (s + v)) p xs
       \<and> foldl (\<lambda>s v. rd (s + v)) p xs \<le> (p + sum_list xs) * (1 + eps) ^ length xs
       \<and> p \<le> foldl (\<lambda>s v. rd (s + v)) p xs
       \<and> (\<forall>x \<in> set xs. x \<le> foldl (\<lambda>s v. rd (s + v)) p xs)"
  using assms
proof (induction xs arbitrary: p)
  case Nil
  then show ?case by simp
next
  case (Cons x xs)
  let ?p = "rd (p + x)"
  let ?r = "foldl (\<lambda>s v. rd (s + v)) ?p xs"
  have x: "nnd x" and p: "nnd p" using Cons.prems by simp_all
  have px: "0 \<le> p + x" using x p by (simp add: nnd_def)
  have np: "nnd ?p" by (rule nnd_rd[OF px])
  have xs: "\<forall>x \<in> set xs. nnd x" using Cons.prems by simp
  note ih = Cons.IH[OF xs np]
  note b = rd_add_bounds[OF p x]
  have s0: "0 \<le> sum_list xs" using xs by (intro sum_list_nonneg) (simp add: nnd_def)
  have e1: "0 \<le> (1 - eps) ^ length xs" using eps_pos by simp
  have e2: "0 \<le> (1 + eps) ^ length xs" using eps_pos by simp
  have es: "0 \<le> eps * sum_list xs" using s0 eps_pos by simp
  have "(p + x + sum_list xs) * (1 - eps) \<le> ?p + sum_list xs"
    using b(1) es by (simp add: algebra_simps)
  then have "(p + x + sum_list xs) * (1 - eps) * (1 - eps) ^ length xs \<le> (?p + sum_list xs) * (1 - eps) ^ length xs"
    using e1 by (rule mult_right_mono)
  then have lo: "(p + sum_list (x # xs)) * (1 - eps) ^ length (x # xs) \<le> ?r"
    using ih by (simp add: algebra_simps)
  have "?p + sum_list xs \<le> (p + x + sum_list xs) * (1 + eps)"
    using b(2) es by (simp add: algebra_simps)
  then have "(?p + sum_list xs) * (1 + eps) ^ length xs \<le> (p + x + sum_list xs) * (1 + eps) * (1 + eps) ^ length xs"
    using e2 by (rule mult_right_mono)
  then have hi: "?r \<le> (p + sum_list (x # xs)) * (1 + eps) ^ length (x # xs)"
    using ih by (simp add: algebra_simps)
  have "rd p \<le> ?p" using p x by (intro rd_mono) (simp_all add: nnd_def)
  then have pp: "p \<le> ?p" using p by (simp add: nnd_def)
  have "rd x \<le> ?p" using p x by (intro rd_mono) (simp_all add: nnd_def)
  then have xp: "x \<le> ?p" using x by (simp add: nnd_def)
  show ?case using ih lo hi pp xp by auto
qed

lemma dsum_props:
  assumes "\<forall>x \<in> set xs. nnd x"
  shows "nnd (dsum xs)"
    and "sum_list xs * (1 - eps) ^ length xs \<le> dsum xs"
    and "dsum xs \<le> sum_list xs * (1 + eps) ^ length xs"
    and "\<And>x. x \<in> set xs \<Longrightarrow> x \<le> dsum xs"
  using foldl_rd_bounds[OF assms nnd_0] by (simp_all add: dsum_def)

lemma dsum_zero_iff:
  assumes "\<forall>x \<in> set xs. nnd x"
  shows "dsum xs = 0 \<longleftrightarrow> (\<forall>x \<in> set xs. x = 0)"
proof
  assume z: "dsum xs = 0"
  show "\<forall>x \<in> set xs. x = 0"
  proof
    fix x assume x: "x \<in> set xs"
    then have "x \<le> 0" using dsum_props(4)[OF assms x] z by simp
    moreover have "0 \<le> x" using assms x by (simp add: nnd_def)
    ultimately show "x = 0" by simp
  qed
next
  assume "\<forall>x \<in> set xs. x = 0"
  then have "sum_list xs = 0" by (induction xs) simp_all
  then have "dsum xs \<le> 0" using dsum_props(3)[OF assms] by simp
  moreover have "0 \<le> dsum xs" using dsum_props(1)[OF assms] by (simp add: nnd_def)
  ultimately show "dsum xs = 0" by simp
qed

text \<open>Numeric bounds for sums of ten terms.\<close>

lemma ten_terms:
  "1 - 1 / 2 ^ 49 \<le> (1 - eps) ^ 10" "(1 + eps) ^ 10 \<le> 1 + 1 / 2 ^ 49"
  by (simp_all add: eps_def mant_def power_divide field_simps)

lemma eta_small: "eta \<le> 1 / 2 ^ 1000"
  by (simp add: eta_def emin_def mant_def)

subsection \<open>Rounded quotients\<close>

lemma rd_1: "rd 1 = 1"
proof -
  have "rd (of_int (2 ^ mant) * 2 powi (0 - int mant)) = of_int (2 ^ mant) * 2 powi (0 - int mant)"
    by (rule rd_exact_normal) (simp_all add: emin_def)
  moreover have "of_int (2 ^ mant) * (2::real) powi (0 - int mant) = 1" by (rule pw_split'[of 0, simplified power_int_0_right])
  ultimately show ?thesis by simp
qed

lemma rd_le_1: "0 \<le> x \<Longrightarrow> x \<le> 1 \<Longrightarrow> rd x \<le> 1"
  using rd_mono[of x 1] rd_1 by simp

lemma sum_list_affine:
  "sum_list (map (\<lambda>d. d * a + b) ds) = sum_list ds * a + real (length ds) * (b::real)"
  by (induction ds) (simp_all add: algebra_simps)

lemma gam_pos: "0 < gam" "gam < 1"
  by (simp_all add: gam_def)

lemma ten_terms': "1 - gam \<le> (1 - eps) ^ 10" "(1 + eps) ^ 10 \<le> 1 + gam"
  using ten_terms by (simp_all add: gam_def)

text \<open>Dividing the terms of a sum by their rounded sum.\<close>

lemma quot_props:
  assumes ds: "\<forall>d \<in> set ds. nnd d" and len: "length ds = 10" and pos: "0 < sum_list ds"
  defines "T \<equiv> dsum ds"
  shows "0 < T"
    and "sum_list ds * (1 - gam) \<le> T"
    and "T \<le> sum_list ds * (1 + gam)"
    and "\<And>d. d \<in> set ds \<Longrightarrow> nnd (rd (d / T)) \<and> rd (d / T) \<le> 1"
    and "sum_list (map (\<lambda>d. rd (d / T)) ds) \<le> 1 + 1 / 2 ^ 48"
    and "1 - 1 / 2 ^ 48 \<le> sum_list (map (\<lambda>d. rd (d / T)) ds)"
    and "\<And>d. d \<in> set ds \<Longrightarrow> d / (sum_list ds * (1 + gam)) * (1 - eps) - eta \<le> rd (d / T)"
proof -
  let ?D = "sum_list ds"
  have lo: "?D * (1 - gam) \<le> T"
  proof -
    have "?D * (1 - gam) \<le> ?D * (1 - eps) ^ 10"
      using pos ten_terms'(1) by (intro mult_left_mono) simp_all
    then show ?thesis using dsum_props(2)[OF ds] by (simp add: T_def len)
  qed
  have hi: "T \<le> ?D * (1 + gam)"
  proof -
    have "?D * (1 + eps) ^ 10 \<le> ?D * (1 + gam)"
      using pos ten_terms'(2) by (intro mult_left_mono) simp_all
    then show ?thesis using dsum_props(3)[OF ds] by (simp add: T_def len)
  qed
  have "0 < ?D * (1 - gam)" using pos gam_pos by simp
  then show T: "0 < T" using lo by linarith
  show "?D * (1 - gam) \<le> T" by (rule lo)
  show "T \<le> ?D * (1 + gam)" by (rule hi)
  show q: "\<And>d. d \<in> set ds \<Longrightarrow> nnd (rd (d / T)) \<and> rd (d / T) \<le> 1"
  proof -
    fix d assume d: "d \<in> set ds"
    have d0: "0 \<le> d" using ds d by (simp add: nnd_def)
    have "d \<le> T" unfolding T_def by (rule dsum_props(4)[OF ds d])
    then have "d / T \<le> 1" using T by simp
    moreover have "0 \<le> d / T" using d0 T by simp
    ultimately show "nnd (rd (d / T)) \<and> rd (d / T) \<le> 1" by (simp add: nnd_rd rd_le_1)
  qed
  have ratio_hi: "?D / T \<le> 1 / (1 - gam)"
  proof -
    have "?D * (1 - gam) / (1 - gam) \<le> T / (1 - gam)"
      using lo gam_pos by (intro divide_right_mono) simp_all
    then have "?D \<le> T / (1 - gam)" using gam_pos by simp
    then have "?D / T \<le> T / (1 - gam) / T" using T by (intro divide_right_mono) simp_all
    then show ?thesis using T by simp
  qed
  have ratio_lo: "1 / (1 + gam) \<le> ?D / T"
  proof -
    have "T / (1 + gam) \<le> ?D * (1 + gam) / (1 + gam)"
      using hi gam_pos by (intro divide_right_mono) simp_all
    then have "T / (1 + gam) \<le> ?D" using gam_pos by simp
    then have "T / (1 + gam) / T \<le> ?D / T" using T by (intro divide_right_mono) simp_all
    then show ?thesis using T by simp
  qed
  have "sum_list (map (\<lambda>d. rd (d / T)) ds) \<le> sum_list (map (\<lambda>d. d * ((1 + eps) / T) + eta) ds)"
  proof (rule sum_list_mono)
    fix d assume d: "d \<in> set ds"
    have "0 \<le> d / T" using ds d T by (simp add: nnd_def)
    from rd_bounds(2)[OF this] show "rd (d / T) \<le> d * ((1 + eps) / T) + eta" by (simp add: algebra_simps)
  qed
  also have "\<dots> = ?D / T * (1 + eps) + 10 * eta"
    using sum_list_affine[of "(1 + eps) / T" eta ds] by (simp add: len)
  also have "\<dots> \<le> 1 / (1 - gam) * (1 + eps) + 10 * eta"
    using mult_right_mono[OF ratio_hi, of "1 + eps"] eps_pos by simp
  also have "\<dots> \<le> 1 / (1 - gam) * (1 + eps) + 10 * (1 / 2 ^ 1000)"
    using eta_small by simp
  also have "\<dots> \<le> 1 + 1 / 2 ^ 48" by (simp add: eps_def gam_def mant_def field_simps)
  finally show "sum_list (map (\<lambda>d. rd (d / T)) ds) \<le> 1 + 1 / 2 ^ 48" .
  have "sum_list (map (\<lambda>d. d * ((1 - eps) / T) - eta) ds) \<le> sum_list (map (\<lambda>d. rd (d / T)) ds)"
  proof (rule sum_list_mono)
    fix d assume d: "d \<in> set ds"
    have "0 \<le> d / T" using ds d T by (simp add: nnd_def)
    from rd_bounds(1)[OF this] show "d * ((1 - eps) / T) - eta \<le> rd (d / T)" by (simp add: algebra_simps)
  qed
  moreover have "sum_list (map (\<lambda>d. d * ((1 - eps) / T) - eta) ds) = ?D / T * (1 - eps) - 10 * eta"
    using sum_list_affine[of "(1 - eps) / T" "- eta" ds] by (simp add: len)
  moreover have "1 / (1 + gam) * (1 - eps) - 10 * eta \<le> ?D / T * (1 - eps) - 10 * eta"
    using mult_right_mono[OF ratio_lo, of "1 - eps"] eps_pos by simp
  moreover have "1 / (1 + gam) * (1 - eps) - 10 * (1 / 2 ^ 1000) \<le> 1 / (1 + gam) * (1 - eps) - 10 * eta"
    using eta_small by simp
  moreover have "1 - 1 / 2 ^ 48 \<le> 1 / (1 + gam) * (1 - eps) - 10 * (1 / 2 ^ 1000)"
    by (simp add: eps_def gam_def mant_def field_simps)
  ultimately show "1 - 1 / 2 ^ 48 \<le> sum_list (map (\<lambda>d. rd (d / T)) ds)" by linarith
  show "\<And>d. d \<in> set ds \<Longrightarrow> d / (?D * (1 + gam)) * (1 - eps) - eta \<le> rd (d / T)"
  proof -
    fix d assume d: "d \<in> set ds"
    have d0: "0 \<le> d" using ds d by (simp add: nnd_def)
    have q0: "0 \<le> d / T" using d0 T by simp
    have "d / (?D * (1 + gam)) \<le> d / T" using hi T d0 pos gam_pos by (intro divide_left_mono) simp_all
    then have "d / (?D * (1 + gam)) * (1 - eps) \<le> d / T * (1 - eps)"
      using eps_pos by (intro mult_right_mono) simp_all
    then show "d / (?D * (1 + gam)) * (1 - eps) - eta \<le> rd (d / T)"
      using rd_bounds(1)[OF q0] by linarith
  qed
qed

section \<open>The stages of normalisation on doubles\<close>

lemma emin_small: "2 powi emin \<le> (1 / 100 :: real)"
proof -
  have "(2::real) powi emin \<le> 2 powi (- 7)" by (rule pw_mono) (simp add: emin_def)
  also have "\<dots> \<le> 1 / 100" by simp
  finally show ?thesis .
qed

lemma normal_ge: "1 / 100 \<le> x \<Longrightarrow> 2 powi emin \<le> (x::real)"
  using emin_small by linarith

lemma tau_bounds: "1 / 50 * (1 - eps) \<le> tau" "tau \<le> 1 / 50 * (1 + eps)" "0 < tau" "nnd tau"
proof -
  have n: "2 powi emin \<le> (1 / 50 :: real)" by (rule normal_ge) simp
  show 1: "1 / 50 * (1 - eps) \<le> tau" unfolding tau_def by (rule rd_bounds_normal(1)[OF n])
  show "tau \<le> 1 / 50 * (1 + eps)" unfolding tau_def by (rule rd_bounds_normal(2)[OF n])
  have "0 < 1 / 50 * (1 - eps)" using eps_pos by simp
  then show "0 < tau" using 1 by linarith
  show "nnd tau" unfolding tau_def by (rule nnd_rd) simp
qed

lemma sum_list_const: "sum_list (map (\<lambda>_. a) xs) = real (length xs) * (a::real)"
  by (induction xs) (simp_all add: algebra_simps)

lemma sum_list_le_const: "\<forall>x \<in> set xs. x \<le> c \<Longrightarrow> sum_list xs \<le> real (length xs) * (c::real)"
  by (induction xs) (simp_all add: algebra_simps)

lemma sum_list_close:
  "\<forall>x \<in> set xs. \<bar>f x - x\<bar> \<le> c \<Longrightarrow> \<bar>sum_list (map f xs) - sum_list xs\<bar> \<le> real (length xs) * (c::real)"
proof (induction xs)
  case Nil
  then show ?case by simp
next
  case (Cons x xs)
  then have "\<bar>f x - x\<bar> \<le> c" "\<bar>sum_list (map f xs) - sum_list xs\<bar> \<le> real (length xs) * c" by simp_all
  then show ?case by (simp add: algebra_simps)
qed

lemma nonneg_sum_pos:
  assumes "\<forall>x \<in> set xs. 0 \<le> (x::real)" "y \<in> set xs" "0 < y"
  shows "0 < sum_list xs"
proof -
  have "y \<le> sum_list xs" using assms(1,2) by (metis member_le_sum_list)
  then show ?thesis using assms(3) by linarith
qed

lemma scale_good:
  assumes len: "length c = 10" and c: "\<forall>x \<in> set c. nnd x"
  shows "goodL (scaleL c)"
proof (cases "dsum c = 0")
  case True
  have n: "2 powi emin \<le> (1 / 10 :: real)" by (rule normal_ge) simp
  note b = rd_bounds_normal[OF n]
  have s: "sum_list (scaleL c) = 10 * rd (1 / 10)" by (simp add: scaleL_def True sum_list_const len)
  have "1 - 1 / 2 ^ 48 \<le> 10 * (1 / 10 * (1 - eps))" by (simp add: eps_def mant_def)
  then have lo: "1 - 1 / 2 ^ 48 \<le> sum_list (scaleL c)" unfolding s using b(1) by linarith
  have "10 * (1 / 10 * (1 + eps)) \<le> 1 + 1 / 2 ^ 48" by (simp add: eps_def mant_def)
  then have hi: "sum_list (scaleL c) \<le> 1 + 1 / 2 ^ 48" unfolding s using b(2) by linarith
  have "nnd (rd (1 / 10))" by (rule nnd_rd) simp
  moreover have "rd (1 / 10) \<le> 1" by (rule rd_le_1) simp_all
  ultimately show ?thesis using lo hi by (simp add: goodL_def scaleL_def True len)
next
  case False
  then obtain y where y: "y \<in> set c" "y \<noteq> 0" using dsum_zero_iff[OF c] by blast
  then have "0 < y" using c by (auto simp: nnd_def)
  then have pos: "0 < sum_list c" using nonneg_sum_pos[of c y] c y(1) by (simp add: nnd_def)
  note q = quot_props[OF c len pos]
  show ?thesis using q(4,5,6) by (simp add: goodL_def scaleL_def False len)
qed

lemma zero_props:
  assumes "goodL s"
  shows "length (zeroL s) = 10" "\<forall>x \<in> set (zeroL s). nnd x \<and> (x = 0 \<or> tau \<le> x)"
    "tau \<le> sum_list (zeroL s)" "sum_list (zeroL s) \<le> 1 + 1 / 2 ^ 48"
proof -
  show "length (zeroL s) = 10" using assms by (simp add: zeroL_def goodL_def)
  show el: "\<forall>x \<in> set (zeroL s). nnd x \<and> (x = 0 \<or> tau \<le> x)"
    using assms by (auto simp: zeroL_def goodL_def)
  have "\<exists>x \<in> set s. tau \<le> x"
  proof (rule ccontr)
    assume "\<not> ?thesis"
    then have "\<forall>x \<in> set s. x \<le> tau" by auto
    from sum_list_le_const[OF this] have "sum_list s \<le> 10 * tau" using assms by (simp add: goodL_def)
    also have "\<dots> \<le> 10 * (1 / 50 * (1 + eps))" using tau_bounds(2) by simp
    also have "\<dots> < 1 - 1 / 2 ^ 48" by (simp add: eps_def mant_def)
    finally show False using assms by (simp add: goodL_def)
  qed
  then obtain x where x: "x \<in> set s" "tau \<le> x" by blast
  then have "x \<in> set (zeroL s)" by (force simp: zeroL_def)
  moreover have "\<forall>y \<in> set (zeroL s). 0 \<le> y" using el by (simp add: nnd_def)
  ultimately have "x \<le> sum_list (zeroL s)" by (metis member_le_sum_list)
  then show "tau \<le> sum_list (zeroL s)" using x(2) by linarith
  have "sum_list (zeroL s) \<le> sum_list s"
    unfolding zeroL_def using assms tau_bounds(3)
    by (intro sum_list_mono[of s "\<lambda>x. if x < tau then 0 else x" "\<lambda>x. x", simplified]) (auto simp: goodL_def nnd_def)
  then show "sum_list (zeroL s) \<le> 1 + 1 / 2 ^ 48" using assms by (simp add: goodL_def)
qed

lemma dust_good:
  assumes "goodL s"
  shows "goodL (dustL s)" "\<forall>x \<in> set (dustL s). x = 0 \<or> 199 / 10000 \<le> x"
proof -
  note z = zero_props[OF assms]
  have ds: "\<forall>d \<in> set (zeroL s). nnd d" using z(2) by simp
  have pos: "0 < sum_list (zeroL s)" using z(3) tau_bounds(3) by linarith
  note q = quot_props[OF ds z(1) pos]
  show "goodL (dustL s)" using q(4,5,6) z(1) by (simp add: goodL_def dustL_def)
  show "\<forall>x \<in> set (dustL s). x = 0 \<or> 199 / 10000 \<le> x"
  proof
    fix x assume "x \<in> set (dustL s)"
    then obtain d where d: "d \<in> set (zeroL s)" "x = rd (d / dsum (zeroL s))" by (auto simp: dustL_def)
    show "x = 0 \<or> 199 / 10000 \<le> x"
    proof (cases "d = 0")
      case True
      then show ?thesis by (simp add: d(2))
    next
      case False
      then have dt: "tau \<le> d" using z(2) d(1) by auto
      let ?D = "sum_list (zeroL s)"
      have D: "?D * (1 + gam) \<le> (1 + 1 / 2 ^ 48) * (1 + gam)" using z(4) gam_pos by (intro mult_right_mono) simp_all
      have Dpos: "0 < ?D * (1 + gam)" using pos gam_pos by simp
      have "1 / 50 * (1 - eps) / ((1 + 1 / 2 ^ 48) * (1 + gam)) \<le> tau / ((1 + 1 / 2 ^ 48) * (1 + gam))"
        using tau_bounds(1) gam_pos by (intro divide_right_mono) simp_all
      also have "\<dots> \<le> d / ((1 + 1 / 2 ^ 48) * (1 + gam))"
        using dt gam_pos by (intro divide_right_mono) simp_all
      also have "\<dots> \<le> d / (?D * (1 + gam))"
        using D Dpos dt tau_bounds(3) by (intro divide_left_mono) simp_all
      finally have "1 / 50 * (1 - eps) / ((1 + 1 / 2 ^ 48) * (1 + gam)) * (1 - eps) \<le> d / (?D * (1 + gam)) * (1 - eps)"
        using eps_pos by (intro mult_right_mono) simp_all
      moreover have "199 / 10000 \<le> 1 / 50 * (1 - eps) / ((1 + 1 / 2 ^ 48) * (1 + gam)) * (1 - eps) - 1 / 2 ^ 1000"
        by (simp add: eps_def gam_def mant_def field_simps)
      ultimately have "199 / 10000 \<le> d / (?D * (1 + gam)) * (1 - eps) - eta" using eta_small by linarith
      then show ?thesis using q(7)[OF d(1)] unfolding d(2) by linarith
    qed
  qed
qed

lemma rel_abs: "a * (1 - e) \<le> r \<Longrightarrow> r \<le> a * (1 + e) \<Longrightarrow> \<bar>r - a\<bar> \<le> a * (e::real)"
  by (simp add: abs_le_iff algebra_simps)

lemma snap1_0 [simp]: "snap1 0 = 0"
  by (simp add: snap1_def)

lemma tau_grid: "tau = rd (of_int 4 / 200)"
  by (simp add: tau_def)

lemma snap1_props:
  assumes x: "nnd x" "x \<le> 1" "199 / 10000 \<le> x"
  shows "\<exists>n::int. 4 \<le> n \<and> n \<le> 200 \<and> snap1 x = rd (of_int n / 200)"
    and "tau \<le> snap1 x" and "snap1 x \<le> 1" and "nnd (snap1 x)"
    and "\<bar>snap1 x - x\<bar> \<le> 26 / 10000"
proof -
  let ?y = "x * 200"
  let ?f = "rd ?y"
  let ?n = "\<lfloor>?f + 1 / 2\<rfloor>"
  have ny: "2 powi emin \<le> ?y" using x(3) by (intro normal_ge) simp
  note fb = rd_bounds_normal[OF ny]
  have y1: "398 / 100 \<le> ?y" "?y \<le> 200" using x(2,3) by simp_all
  have "398 / 100 * (1 - eps) \<le> ?y * (1 - eps)" using y1(1) eps_pos by (intro mult_right_mono) simp_all
  moreover have "7 / 2 \<le> 398 / 100 * (1 - eps)" by (simp add: eps_def mant_def)
  ultimately have f_lo: "7 / 2 \<le> ?f" using fb(1) by linarith
  have "?y * (1 + eps) \<le> 200 * (1 + eps)" using y1(2) eps_pos by (intro mult_right_mono) simp_all
  moreover have "200 * (1 + eps) < 401 / 2" by (simp add: eps_def mant_def)
  ultimately have f_hi: "?f < 401 / 2" using fb(2) by linarith
  have n4: "4 \<le> ?n" using f_lo by (simp add: le_floor_iff)
  have n200: "?n \<le> 200" using f_hi by (simp add: floor_le_iff)
  have nf: "\<bar>of_int ?n - ?f\<bar> \<le> 1 / 2" by linarith
  show "\<exists>n::int. 4 \<le> n \<and> n \<le> 200 \<and> snap1 x = rd (of_int n / 200)"
    using n4 n200 unfolding snap1_def by blast
  let ?q = "of_int ?n / (200::real)"
  have q1: "4 / 200 \<le> ?q" using n4 by (simp add: divide_right_mono)
  have q2: "?q \<le> 1" using n200 by simp
  have nq: "2 powi emin \<le> ?q" using q1 by (intro normal_ge) simp
  note gb = rd_bounds_normal[OF nq]
  have "rd (of_int 4 / 200) \<le> rd ?q" using q1 by (intro rd_mono) simp_all
  then show "tau \<le> snap1 x" by (simp add: tau_grid snap1_def)
  show "snap1 x \<le> 1" unfolding snap1_def using q1 q2 by (intro rd_le_1) simp_all
  show "nnd (snap1 x)" unfolding snap1_def using q1 by (intro nnd_rd) simp
  have "\<bar>rd ?q - ?q\<bar> \<le> ?q * eps" by (rule rel_abs[OF gb])
  also have "\<dots> \<le> 1 * eps" using q2 eps_pos by (intro mult_right_mono) simp_all
  finally have 1: "\<bar>rd ?q - ?q\<bar> \<le> eps" by simp
  have 2: "\<bar>?q - ?f / 200\<bar> \<le> 1 / 400" using nf by (simp add: abs_le_iff field_simps)
  have "\<bar>?f - ?y\<bar> \<le> ?y * eps" by (rule rel_abs[OF fb])
  also have "\<dots> \<le> 200 * eps" using y1(2) eps_pos by (intro mult_right_mono) simp_all
  finally have "\<bar>?f - x * 200\<bar> / 200 \<le> 200 * eps / 200" by (intro divide_right_mono) simp_all
  then have 3: "\<bar>?f / 200 - x\<bar> \<le> eps" by (simp add: abs_le_iff field_simps)
  have "\<bar>rd ?q - x\<bar> \<le> 1 / 400 + 2 * eps" using 1 2 3 by linarith
  moreover have "1 / 400 + 2 * eps \<le> 26 / 10000" by (simp add: eps_def mant_def)
  ultimately show "\<bar>snap1 x - x\<bar> \<le> 26 / 10000" unfolding snap1_def by linarith
qed

lemma snap_good:
  assumes e: "goodL e" "\<forall>x \<in> set e. x = 0 \<or> 199 / 10000 \<le> x"
  shows "goodG (map snap1 e)"
proof -
  have el: "\<forall>x \<in> set e. nnd (snap1 x) \<and> snap1 x \<le> 1 \<and> onGrid (snap1 x) \<and> \<bar>snap1 x - x\<bar> \<le> 26 / 10000"
  proof
    fix x assume x: "x \<in> set e"
    show "nnd (snap1 x) \<and> snap1 x \<le> 1 \<and> onGrid (snap1 x) \<and> \<bar>snap1 x - x\<bar> \<le> 26 / 10000"
    proof (cases "x = 0")
      case True
      then show ?thesis by (simp add: onGrid_def)
    next
      case False
      then have k: "199 / 10000 \<le> x" using e(2) x by auto
      have g: "nnd x" "x \<le> 1" using e(1) x by (simp_all add: goodL_def)
      from snap1_props[OF g k] show ?thesis by (simp add: onGrid_def)
    qed
  qed
  then have "\<forall>x \<in> set e. \<bar>snap1 x - x\<bar> \<le> 26 / 10000" by simp
  from sum_list_close[OF this] have "\<bar>sum_list (map snap1 e) - sum_list e\<bar> \<le> 26 / 1000"
    using e(1) by (simp add: goodL_def)
  moreover have "1 - 1 / 2 ^ 48 \<le> sum_list e" "sum_list e \<le> 1 + 1 / 2 ^ 48"
    using e(1) by (simp_all add: goodL_def)
  moreover have "(1::real) / 2 ^ 48 \<le> 1 / 1000" by simp
  ultimately have "97 / 100 \<le> sum_list (map snap1 e) \<and> sum_list (map snap1 e) \<le> 103 / 100"
    unfolding abs_le_iff by linarith
  then have "97 / 100 \<le> sum_list (map snap1 e)" "sum_list (map snap1 e) \<le> 103 / 100" by simp_all
  then show ?thesis using el e(1) by (simp add: goodG_def goodL_def)
qed

lemma onGrid_cases:
  assumes "onGrid x"
  shows "x = 0 \<or> tau \<le> x"
proof -
  { fix n :: int assume n: "4 \<le> n" "x = rd (of_int n / 200)"
    have "(of_int 4 :: real) / 200 \<le> of_int n / 200" using n(1) by (simp add: divide_right_mono)
    then have "rd (of_int 4 / 200) \<le> rd (of_int n / 200)" by (intro rd_mono) simp_all
    then have "tau \<le> x" by (simp add: tau_grid n(2)) }
  then show ?thesis using assms by (auto simp: onGrid_def)
qed

lemma final_good:
  assumes g: "goodG g"
  shows "0 < dsum g" "goodL (finalL g)" "\<forall>x \<in> set (finalL g). x = 0 \<or> 19 / 1000 \<le> x"
proof -
  have ds: "\<forall>d \<in> set g. nnd d" using g by (simp add: goodG_def)
  have len: "length g = 10" using g by (simp add: goodG_def)
  have pos: "0 < sum_list g" using g by (simp add: goodG_def)
  note q = quot_props[OF ds len pos]
  show T: "0 < dsum g" by (rule q(1))
  show "goodL (finalL g)" using q(4,5,6) T len by (simp add: goodL_def finalL_def)
  show "\<forall>x \<in> set (finalL g). x = 0 \<or> 19 / 1000 \<le> x"
  proof
    fix x assume "x \<in> set (finalL g)"
    then obtain d where d: "d \<in> set g" "x = rd (d / dsum g)" using T by (auto simp: finalL_def)
    show "x = 0 \<or> 19 / 1000 \<le> x"
    proof (cases "d = 0")
      case True
      then show ?thesis by (simp add: d(2))
    next
      case False
      have "onGrid d" using g d(1) by (simp add: goodG_def)
      then have dt: "tau \<le> d" using onGrid_cases False by blast
      let ?D = "sum_list g"
      have D: "?D * (1 + gam) \<le> 103 / 100 * (1 + gam)" using g gam_pos by (intro mult_right_mono) (simp_all add: goodG_def)
      have Dpos: "0 < ?D * (1 + gam)" using pos gam_pos by simp
      have "1 / 50 * (1 - eps) / (103 / 100 * (1 + gam)) \<le> tau / (103 / 100 * (1 + gam))"
        using tau_bounds(1) gam_pos by (intro divide_right_mono) simp_all
      also have "\<dots> \<le> d / (103 / 100 * (1 + gam))"
        using dt gam_pos by (intro divide_right_mono) simp_all
      also have "\<dots> \<le> d / (?D * (1 + gam))"
        using D Dpos dt tau_bounds(3) by (intro divide_left_mono) simp_all
      finally have "1 / 50 * (1 - eps) / (103 / 100 * (1 + gam)) * (1 - eps) \<le> d / (?D * (1 + gam)) * (1 - eps)"
        using eps_pos by (intro mult_right_mono) simp_all
      moreover have "19 / 1000 \<le> 1 / 50 * (1 - eps) / (103 / 100 * (1 + gam)) * (1 - eps) - 1 / 2 ^ 1000"
        by (simp add: eps_def gam_def mant_def field_simps)
      ultimately have "19 / 1000 \<le> d / (?D * (1 + gam)) * (1 - eps) - eta" using eta_small by linarith
      then show ?thesis using q(7)[OF d(1)] unfolding d(2) by linarith
    qed
  qed
qed



lemma rd_div_1: "nnd x \<Longrightarrow> rd (x / 1) = x"
  by (simp add: nnd_def)


section \<open>Normalisation of weights\<close>

section \<open>Normalisation of weights\<close>

lemma all_assets: "k \<in> set ALL_ASSETS"
  by (cases k) (simp_all add: ALL_ASSETS_def)

lemma distinct_ALL_ASSETS: "distinct ALL_ASSETS"
  by (simp add: ALL_ASSETS_def)

lemma length_ALL_ASSETS: "length ALL_ASSETS = 10"
  by (simp add: ALL_ASSETS_def)

lemma foldl_upd_notin:
  "k \<notin> set ks \<Longrightarrow> foldl (\<lambda>r k. r(k \<mapsto> f k (r k))) r ks k = r k"
  by (induction ks arbitrary: r) auto

lemma foldl_upd_in:
  "distinct ks \<Longrightarrow> k \<in> set ks \<Longrightarrow> foldl (\<lambda>r k. r(k \<mapsto> f k (r k))) r ks k = Some (f k (r k))"
  by (induction ks arbitrary: r) (auto simp: foldl_upd_notin)

lemma for_each_apply: "for_each f r = (\<lambda>k. Some (f (to_number (r k))))"
  unfolding for_each_def
  using foldl_upd_in[OF distinct_ALL_ASSETS all_assets, of "\<lambda>_ v. f (to_number v)" r]
  by auto

lemma clampAll_apply: "clampAll r = (\<lambda>k. Some (Math_max (Fin 0) (nullish (r k) (Fin 0))))"
  unfolding clampAll_def
  using foldl_upd_in[OF distinct_ALL_ASSETS all_assets, of "\<lambda>_ v. Math_max (Fin 0) (nullish v (Fin 0))" r]
  by auto

lemma map_filter_Some: "List.map_filter (\<lambda>k. Some (g k)) ks = map g ks"
  by (induction ks) (simp_all add: List.map_filter_simps)

lemma values_of_total: "values_of (\<lambda>k. Some (g k)) = map g ALL_ASSETS"
  by (simp add: values_of_def entries_def map_filter_Some comp_def)

lemma values_of_mem: "r k = Some v \<Longrightarrow> v \<in> set (values_of r)"
proof -
  assume a: "r k = Some v"
  have "(k, v) \<in> set (entries r)"
    unfolding entries_def List.map_filter_def using a all_assets[of k] by force
  then show ?thesis unfolding values_of_def by force
qed

lemma len_ALL_ASSETS: "len ALL_ASSETS = Fin 10"
  by (simp add: len_def length_ALL_ASSETS)

text \<open>Records and lists of ten weights.\<close>

lemma position_less: "position k < 10"
  by (cases k) (simp_all add: position_def)

lemma ten_elements:
  assumes "length xs = 10"
  shows "xs = [xs ! 0, xs ! 1, xs ! 2, xs ! 3, xs ! 4, xs ! 5, xs ! 6, xs ! 7, xs ! 8, xs ! 9]"
proof (rule nth_equalityI)
  show "length xs = length [xs ! 0, xs ! 1, xs ! 2, xs ! 3, xs ! 4, xs ! 5, xs ! 6, xs ! 7, xs ! 8, xs ! 9]"
    using assms by simp
next
  fix i assume "i < length xs"
  then have "i \<in> set [0..<10]" using assms by simp
  then have "i \<in> {0, 1, 2, 3, 4, 5, 6, 7, 8, 9}"
    unfolding upt_conv_Cons_Cons by (simp add: upt_rec numeral_eq_Suc)
  then show "xs ! i = [xs ! 0, xs ! 1, xs ! 2, xs ! 3, xs ! 4, xs ! 5, xs ! 6, xs ! 7, xs ! 8, xs ! 9] ! i"
    by (elim insertE emptyE) simp_all
qed

lemma nth_positions:
  assumes "length xs = 10"
  shows "map (\<lambda>k. xs ! position k) ALL_ASSETS = xs"
  using ten_elements[OF assms] by (simp add: ALL_ASSETS_def position_def)

lemma positions_map: "map f ALL_ASSETS ! position k = f k"
  by (cases k) (simp_all add: ALL_ASSETS_def position_def)

lemma record_of_map: "record_of (map f ALL_ASSETS) = (\<lambda>k. Some (Fin (f k)))"
  by (simp add: record_of_def positions_map)

lemma values_of_record: "length xs = 10 \<Longrightarrow> values_of (record_of xs) = map Fin xs"
proof -
  assume l: "length xs = 10"
  have "values_of (record_of xs) = map (\<lambda>k. Fin (xs ! position k)) ALL_ASSETS"
    unfolding record_of_def by (rule values_of_total)
  also have "\<dots> = map Fin (map (\<lambda>k. xs ! position k) ALL_ASSETS)" by simp
  also have "\<dots> = map Fin xs" by (simp only: nth_positions[OF l])
  finally show ?thesis .
qed

lemma for_each_record:
  assumes l: "length xs = 10" and f: "\<forall>x \<in> set xs. f (Fin x) = Fin (g x)"
  shows "for_each f (record_of xs) = record_of (map g xs)"
proof (rule ext)
  fix k
  have p: "position k < length xs" using position_less[of k] l by simp
  then have "xs ! position k \<in> set xs" by simp
  then have "f (Fin (xs ! position k)) = Fin (g (xs ! position k))" using f by simp
  then show "for_each f (record_of xs) k = record_of (map g xs) k"
    using p by (simp add: for_each_apply record_of_def to_number_def)
qed

text \<open>Rounded operations on finite numbers.\<close>

lemma fl_Fin: "\<bar>rd x\<bar> < 2 ^ 1024 \<Longrightarrow> fl x = Fin (rd x)"
  by (simp add: fl_def Let_def)

lemma fl_0 [simp]: "fl 0 = Fin 0"
  by (simp add: fl_def)

lemma below_overflow:
  assumes "0 \<le> x" "x \<le> maxTotal * (1 + gam)"
  shows "\<bar>rd x\<bar> < 2 ^ 1024"
proof -
  have "rd x \<le> x * (1 + eps) + eta" by (rule rd_bounds(2)[OF assms(1)])
  also have "\<dots> \<le> maxTotal * (1 + gam) * (1 + eps) + 1 / 2 ^ 1000"
    using assms(2) eta_small eps_pos by (intro add_mono mult_right_mono) simp_all
  also have "\<dots> < 2 ^ 1024" by (simp add: maxTotal_def gam_def eps_def mant_def)
  finally show ?thesis using rd_nonneg[OF assms(1)] by simp
qed

lemma maxTotal_large: "2 \<le> maxTotal * (1 + gam)"
  by (simp add: maxTotal_def gam_def)

lemma fl_small: "0 \<le> x \<Longrightarrow> x \<le> 2 \<Longrightarrow> fl x = Fin (rd x)"
  using below_overflow[of x] maxTotal_large by (intro fl_Fin) simp

lemma isDouble_nnd: "isDouble x \<Longrightarrow> 0 \<le> x \<Longrightarrow> nnd x"
  by (auto simp: isDouble_def nnd_def fl_def Let_def split: if_splits)

lemma add64_Fin: "add64 (Fin a) (Fin b) = fl (a + b)"
  by (simp add: add64_def round64_def)

lemma mul64_Fin: "mul64 (Fin a) (Fin b) = fl (a * b)"
  by (simp add: mul64_def round64_def)

lemma div64_Fin: "b \<noteq> 0 \<Longrightarrow> div64 (Fin a) (Fin b) = fl (a / b)"
  by (simp add: div64_def round64_def)

lemma sub64_Fin: "sub64 (Fin a) (Fin b) = fl (a - b)"
  by (simp add: sub64_def round64_def minus_number_def)

lemma foldl_add64:
  assumes "\<forall>x \<in> set xs. nnd x" "nnd p" "(p + sum_list xs) * (1 + eps) ^ length xs \<le> maxTotal * (1 + gam)"
  shows "foldl add64 (Fin p) (map Fin xs) = Fin (foldl (\<lambda>s v. rd (s + v)) p xs)"
  using assms
proof (induction xs arbitrary: p)
  case Nil
  then show ?case by simp
next
  case (Cons x xs)
  have x: "nnd x" and p: "nnd p" and xs: "\<forall>x \<in> set xs. nnd x" using Cons.prems by simp_all
  have px: "0 \<le> p + x" using x p by (simp add: nnd_def)
  have s0: "0 \<le> sum_list xs" using xs by (intro sum_list_nonneg) (simp add: nnd_def)
  have e1: "1 \<le> (1 + eps) ^ length xs" using eps_pos by (intro one_le_power) simp
  have e0: "0 \<le> (1 + eps) ^ length xs" using e1 by linarith
  note b = rd_add_bounds[OF p x]
  have "rd (p + x) + sum_list xs \<le> (p + x + sum_list xs) * (1 + eps)"
  proof -
    have "0 \<le> eps * sum_list xs" using s0 eps_pos by simp
    then show ?thesis using b(2) by (simp add: algebra_simps)
  qed
  then have "(rd (p + x) + sum_list xs) * (1 + eps) ^ length xs
               \<le> (p + x + sum_list xs) * (1 + eps) * (1 + eps) ^ length xs"
    using e0 by (rule mult_right_mono)
  also have "\<dots> = (p + sum_list (x # xs)) * (1 + eps) ^ length (x # xs)" by (simp add: algebra_simps)
  finally have next_ok: "(rd (p + x) + sum_list xs) * (1 + eps) ^ length xs \<le> maxTotal * (1 + gam)"
    using Cons.prems(3) by linarith
  have "p + x \<le> (p + x + sum_list xs) * 1" using s0 by simp
  also have "\<dots> \<le> (p + x + sum_list xs) * (1 + eps) ^ length (x # xs)"
    using px s0 eps_pos by (intro mult_left_mono one_le_power) simp_all
  finally have "p + x \<le> (p + sum_list (x # xs)) * (1 + eps) ^ length (x # xs)"
    by (simp add: algebra_simps)
  then have "p + x \<le> maxTotal * (1 + gam)" using Cons.prems(3) by linarith
  then have step: "add64 (Fin p) (Fin x) = Fin (rd (p + x))"
    unfolding add64_Fin by (intro fl_Fin below_overflow[OF px])
  show ?case
    using Cons.IH[OF xs nnd_rd[OF px] next_ok] by (simp add: step)
qed

lemma gam_pos': "0 < gam"
  by (simp add: gam_def)

lemma sum_values_record:
  assumes "length xs = 10" "\<forall>x \<in> set xs. nnd x" "sum_list xs \<le> maxTotal"
  shows "sum_values (record_of xs) = Fin (dsum xs)"
proof -
  have s0: "0 \<le> sum_list xs" using assms(2) by (intro sum_list_nonneg) (simp add: nnd_def)
  have "sum_list xs * (1 + eps) ^ 10 \<le> sum_list xs * (1 + gam)"
    using s0 ten_terms'(2) by (intro mult_left_mono) simp_all
  also have "\<dots> \<le> maxTotal * (1 + gam)" using assms(3) gam_pos' by (intro mult_right_mono) simp_all
  finally have "(0 + sum_list xs) * (1 + eps) ^ length xs \<le> maxTotal * (1 + gam)"
    by (simp add: assms(1))
  from foldl_add64[OF assms(2) nnd_0 this] show ?thesis
    by (simp add: sum_values_def values_of_record[OF assms(1)] dsum_def)
qed

lemma foldl_plus_Fin: "foldl (\<lambda>s v. s + v) (Fin a) (map (\<lambda>k. Fin (w k)) ks) = Fin (a + sum_list (map w ks))"
  by (induction ks arbitrary: a) (simp_all add: add.assoc)

lemma finiteAllocations_cases:
  assumes "finiteAllocations r"
  shows "r k = None \<or> (\<exists>x. r k = Some (Fin x))"
proof (cases "r k")
  case None then show ?thesis by simp
next
  case (Some v)
  then have "isFin v" using assms values_of_mem[of r k v]
    by (simp add: finiteAllocations_def list_all_iff)
  then show ?thesis using Some by (cases v) simp_all
qed

lemma finiteAllocations_balanced: "finiteAllocations (allocations balanced)"
  by (simp add: finiteAllocations_def values_of_def entries_def ALL_ASSETS_def balanced_def)

lemma doubleAllocations_cases:
  assumes "doubleAllocations r"
  shows "r k = None \<or> (\<exists>x. r k = Some (Fin x) \<and> isDouble x)"
proof (cases "r k")
  case None
  then show ?thesis by simp
next
  case (Some v)
  then have "case v of Fin x \<Rightarrow> isDouble x | _ \<Rightarrow> False"
    using assms values_of_mem[of r k v] by (simp add: doubleAllocations_def list_all_iff)
  then show ?thesis using Some by (cases v) simp_all
qed

lemma clampW_nnd:
  assumes "doubleAllocations r"
  shows "nnd (clampW r k)"
  using doubleAllocations_cases[OF assms, of k]
  by (auto simp: clampW_def weightOf_def max_def isDouble_nnd)

lemma clampAll_record:
  assumes "doubleAllocations r"
  shows "clampAll r = record_of (clampL r)"
proof (rule ext)
  fix k
  from doubleAllocations_cases[OF assms, of k]
  show "clampAll r k = record_of (clampL r) k"
    unfolding clampL_def record_of_map
    by (auto simp: clampAll_apply clampW_def weightOf_def nullish_def Math_max_def max_def)
qed

lemma clampL_props:
  assumes "doubleAllocations r"
  shows "length (clampL r) = 10" "\<forall>x \<in> set (clampL r). nnd x"
  using clampW_nnd[OF assms] by (auto simp: clampL_def length_ALL_ASSETS)

lemma div64_quotient:
  assumes "0 \<le> x" "x \<le> T" "0 < T"
  shows "div64 (Fin x) (Fin T) = Fin (rd (x / T))"
proof -
  have "x / T \<le> 1" using assms by simp
  then have "x / T \<le> 2" by linarith
  moreover have "0 \<le> x / T" using assms by simp
  ultimately show ?thesis using assms(3) by (simp add: div64_Fin fl_small)
qed

lemma dsum_pos_iff:
  assumes "\<forall>x \<in> set xs. nnd x"
  shows "0 < dsum xs \<longleftrightarrow> dsum xs \<noteq> 0"
  using dsum_props(1)[OF assms] by (auto simp: nnd_def)

lemma scaleToOne_record:
  assumes len: "length c = 10" and c: "\<forall>x \<in> set c. nnd x" and le: "sum_list c \<le> maxTotal"
  shows "scaleToOne (record_of c) = record_of (scaleL c)"
proof -
  have total: "sum_values (record_of c) = Fin (dsum c)" by (rule sum_values_record[OF len c le])
  show ?thesis
  proof (cases "dsum c = 0")
    case True
    have "div64 (Fin 1) (Fin 10) = Fin (rd (1 / 10))" by (simp add: div64_Fin fl_small)
    then have "for_each (\<lambda>_. div64 (Fin 1) (len ALL_ASSETS)) (record_of c)
                 = record_of (map (\<lambda>_. rd (1 / 10)) c)"
      by (intro for_each_record[OF len]) (simp add: len_ALL_ASSETS)
    then show ?thesis by (simp add: scaleToOne_def total True strict_eq_def scaleL_def)
  next
    case False
    then have T: "0 < dsum c" using dsum_pos_iff[OF c] by simp
    have "\<forall>x \<in> set c. div64 (Fin x) (Fin (dsum c)) = Fin (rd (x / dsum c))"
    proof
      fix x assume x: "x \<in> set c"
      have "0 \<le> x" using c x by (simp add: nnd_def)
      moreover have "x \<le> dsum c" by (rule dsum_props(4)[OF c x])
      ultimately show "div64 (Fin x) (Fin (dsum c)) = Fin (rd (x / dsum c))" using T by (rule div64_quotient)
    qed
    then have "for_each (\<lambda>v. div64 v (Fin (dsum c))) (record_of c) = record_of (map (\<lambda>x. rd (x / dsum c)) c)"
      by (rule for_each_record[OF len])
    then show ?thesis using False by (simp add: scaleToOne_def total strict_eq_def scaleL_def)
  qed
qed

lemma dbl_tau: "dbl (1 / 50) = Fin tau"
  by (simp add: dbl_def tau_def fl_small)

lemma small_total: "x \<le> 2 \<Longrightarrow> x \<le> maxTotal"
  by (simp add: maxTotal_def)

lemma dropDust_record:
  assumes s: "goodL s"
  shows "dropDust (record_of s) = record_of (dustL s)"
proof -
  have len: "length s = 10" using s by (simp add: goodL_def)
  note z = zero_props[OF s]
  have zn: "\<forall>x \<in> set (zeroL s). nnd x" using z(2) by simp
  have 1: "for_each (\<lambda>v. if v < dbl 0.02 then Fin 0 else v) (record_of s) = record_of (zeroL s)"
    unfolding zeroL_def by (intro for_each_record[OF len]) (simp add: dbl_tau)
  have "sum_list (zeroL s) \<le> 2" using z(4) by simp
  then have total: "sum_values (record_of (zeroL s)) = Fin (dsum (zeroL s))"
    by (intro sum_values_record[OF z(1) zn] small_total)
  have pos: "0 < sum_list (zeroL s)" using z(3) tau_bounds(3) by linarith
  have T: "0 < dsum (zeroL s)" by (rule quot_props(1)[OF zn z(1) pos])
  have "\<forall>x \<in> set (zeroL s). div64 (Fin x) (Fin (dsum (zeroL s))) = Fin (rd (x / dsum (zeroL s)))"
  proof
    fix x assume x: "x \<in> set (zeroL s)"
    have "0 \<le> x" using zn x by (simp add: nnd_def)
    moreover have "x \<le> dsum (zeroL s)" by (rule dsum_props(4)[OF zn x])
    ultimately show "div64 (Fin x) (Fin (dsum (zeroL s))) = Fin (rd (x / dsum (zeroL s)))"
      using T by (rule div64_quotient)
  qed
  then have "for_each (\<lambda>v. div64 v (Fin (dsum (zeroL s)))) (record_of (zeroL s)) = record_of (dustL s)"
    unfolding dustL_def by (rule for_each_record[OF z(1)])
  then show ?thesis unfolding dropDust_def Let_def 1 total .
qed

lemma snap_element:
  assumes "nnd x" "x \<le> 1"
  shows "div64 (Math_round (mul64 (Fin x) (Fin 200))) (Fin 200) = Fin (snap1 x)"
proof -
  have x0: "0 \<le> x" using assms(1) by (simp add: nnd_def)
  have y: "0 \<le> x * 200" "x * 200 \<le> 200" using x0 assms(2) by simp_all
  have "x * 200 \<le> maxTotal * (1 + gam)" using y(2) maxTotal_large by (simp add: maxTotal_def gam_def)
  then have m: "mul64 (Fin x) (Fin 200) = Fin (rd (x * 200))"
    unfolding mul64_Fin by (intro fl_Fin below_overflow[OF y(1)])
  have f0: "0 \<le> rd (x * 200)" by (rule rd_nonneg[OF y(1)])
  have "rd (x * 200) \<le> x * 200 * (1 + eps) + eta" by (rule rd_bounds(2)[OF y(1)])
  also have "\<dots> \<le> 200 * (1 + eps) + 1 / 2 ^ 1000"
    using y(2) eps_pos eta_small by (intro add_mono mult_right_mono) simp_all
  also have "\<dots> \<le> 201" by (simp add: eps_def mant_def)
  finally have f1: "rd (x * 200) \<le> 201" .
  let ?n = "\<lfloor>rd (x * 200) + 1 / 2\<rfloor>"
  have n0: "0 \<le> ?n" using f0 by (simp add: le_floor_iff)
  have n1: "?n \<le> 201" using f1 by (simp add: floor_le_iff)
  have "0 \<le> of_int ?n / (200::real)" "of_int ?n / (200::real) \<le> 2" using n0 n1 by simp_all
  then have "div64 (Fin (of_int ?n)) (Fin 200) = Fin (rd (of_int ?n / 200))"
    by (simp add: div64_Fin fl_small)
  then show ?thesis by (simp add: m snap1_def)
qed

lemma snap_record:
  assumes e: "goodL e"
  shows "snap (record_of e) = record_of (map snap1 e)"
  unfolding snap_def using e
  by (intro for_each_record) (simp_all add: goodL_def snap_element)

lemma finalScale_record:
  assumes g: "goodG g"
  shows "finalScale (record_of g) = record_of (finalL g)"
proof -
  have len: "length g = 10" and gn: "\<forall>x \<in> set g. nnd x" using g by (simp_all add: goodG_def)
  have "sum_list g \<le> 2" using g by (simp add: goodG_def)
  then have total: "sum_values (record_of g) = Fin (dsum g)"
    by (intro sum_values_record[OF len gn] small_total)
  have T: "0 < dsum g" by (rule final_good(1)[OF g])
  have "\<forall>x \<in> set g. div64 (Fin x) (Fin (dsum g)) = Fin (rd (x / dsum g))"
  proof
    fix x assume x: "x \<in> set g"
    have "0 \<le> x" using gn x by (simp add: nnd_def)
    moreover have "x \<le> dsum g" by (rule dsum_props(4)[OF gn x])
    ultimately show "div64 (Fin x) (Fin (dsum g)) = Fin (rd (x / dsum g))" using T by (rule div64_quotient)
  qed
  then have "for_each (\<lambda>v. div64 v (Fin (dsum g))) (record_of g) = record_of (map (\<lambda>x. rd (x / dsum g)) g)"
    by (rule for_each_record[OF len])
  then show ?thesis using T by (simp add: finalScale_def total finalL_def)
qed

text \<open>\<open>normalize\<close> computes the rounded stages.\<close>

lemma normalize_stages:
  assumes d: "doubleAllocations r" and le: "sum_list (clampL r) \<le> maxTotal"
  shows "goodL (scaleL (clampL r))"
    and "goodL (dustL (scaleL (clampL r)))"
    and "goodG (map snap1 (dustL (scaleL (clampL r))))"
    and "goodL (normalizeL (clampL r))"
    and "\<forall>x \<in> set (normalizeL (clampL r)). x = 0 \<or> 19 / 1000 \<le> x"
    and "snap (dropDust (scaleToOne (clampAll r))) = record_of (map snap1 (dustL (scaleL (clampL r))))"
    and "normalize r = record_of (normalizeL (clampL r))"
proof -
  note c = clampL_props[OF d]
  show 1: "goodL (scaleL (clampL r))" by (rule scale_good[OF c])
  note 2 = dust_good[OF 1]
  show "goodL (dustL (scaleL (clampL r)))" by (rule 2(1))
  show 3: "goodG (map snap1 (dustL (scaleL (clampL r))))" by (rule snap_good[OF 2])
  show "goodL (normalizeL (clampL r))" unfolding normalizeL_def by (rule final_good(2)[OF 3])
  show "\<forall>x \<in> set (normalizeL (clampL r)). x = 0 \<or> 19 / 1000 \<le> x"
    unfolding normalizeL_def by (rule final_good(3)[OF 3])
  show 4: "snap (dropDust (scaleToOne (clampAll r))) = record_of (map snap1 (dustL (scaleL (clampL r))))"
    by (simp only: clampAll_record[OF d] scaleToOne_record[OF c le] dropDust_record[OF 1]
        snap_record[OF 2(1)])
  show "normalize r = record_of (normalizeL (clampL r))"
    unfolding normalize_def 4 normalizeL_def by (rule finalScale_record[OF 3])
qed

lemma nnd_isDouble: "nnd x \<Longrightarrow> x \<le> maxTotal * (1 + gam) \<Longrightarrow> isDouble x"
proof -
  assume n: "nnd x" and le: "x \<le> maxTotal * (1 + gam)"
  have x0: "0 \<le> x" using n by (simp add: nnd_def)
  have "fl x = Fin (rd x)" by (rule fl_Fin[OF below_overflow[OF x0 le]])
  then show ?thesis using n by (simp add: isDouble_def nnd_def)
qed

lemma nnd_small_isDouble: "nnd x \<Longrightarrow> x \<le> 2 \<Longrightarrow> isDouble x"
  using nnd_isDouble[of x] maxTotal_large by simp





lemma dbl_small:
  assumes "0 \<le> a" "a \<le> 1"
  shows "dbl a = Fin (rd a)" "isDouble (rd a)"
proof -
  show "dbl a = Fin (rd a)" using assms by (simp add: dbl_def fl_small)
  have "rd a \<le> 1" by (rule rd_le_1[OF assms])
  then show "isDouble (rd a)" using nnd_rd[OF assms(1)] by (intro nnd_small_isDouble) simp_all
qed

lemma lit4_props:
  assumes "0 \<le> a" "a \<le> 1" "0 \<le> b" "b \<le> 1" "0 \<le> c" "c \<le> 1" "0 \<le> d" "d \<le> 1"
  shows "doubleAllocations (lit4 a b c d)"
    and "clampL (lit4 a b c d) = [rd a, rd b, rd c, rd d, 0, 0, 0, 0, 0, 0]"
proof -
  note s = dbl_small[OF assms(1,2)] dbl_small[OF assms(3,4)] dbl_small[OF assms(5,6)] dbl_small[OF assms(7,8)]
  show "doubleAllocations (lit4 a b c d)"
    by (simp add: doubleAllocations_def values_of_def entries_def List.map_filter_def ALL_ASSETS_def
        lit4_def s)
  have nn: "0 \<le> rd a" "0 \<le> rd b" "0 \<le> rd c" "0 \<le> rd d"
    using assms by (simp_all add: rd_nonneg)
  show "clampL (lit4 a b c d) = [rd a, rd b, rd c, rd d, 0, 0, 0, 0, 0, 0]"
    using nn by (simp add: clampL_def clampW_def weightOf_def ALL_ASSETS_def lit4_def s)
qed

section \<open>Normalisation of given records\<close>

text \<open>
  Every rounding in the evaluation of \<open>normalize\<close> and of the distance on the records
  \<open>barbell\<close>, \<open>barbell2\<close>, \<open>dusty\<close> and \<open>tilted\<close>, with its binary exponent and mantissa.
\<close>

lemma cert_1: "rd (1 / 20) = 3602879701896397 / 72057594037927936"
  by (rule rd_cert[where k = "-5" and m = 7205759403792794]) (simp_all add: emin_def mant_def)

lemma cert_2: "rd (1 / 4) = 1 / 4"
  by (rule rd_cert[where k = "-2" and m = 4503599627370496]) (simp_all add: emin_def mant_def)

lemma cert_3: "rd (13 / 20) = 5854679515581645 / 9007199254740992"
  by (rule rd_cert[where k = "-1" and m = 5854679515581645]) (simp_all add: emin_def mant_def)

lemma cert_4: "rd (3602879701896397 / 72057594037927936) = 3602879701896397 / 72057594037927936"
  by (rule rd_cert[where k = "-5" and m = 7205759403792794]) (simp_all add: emin_def mant_def)

lemma cert_5: "rd (3602879701896397 / 36028797018963968) = 3602879701896397 / 36028797018963968"
  by (rule rd_cert[where k = "-4" and m = 7205759403792794]) (simp_all add: emin_def mant_def)

lemma cert_6: "rd (12610078956637389 / 36028797018963968) = 3152519739159347 / 9007199254740992"
  by (rule rd_cert_tie[where k = "-2" and f = 6305039478318694]) (simp_all add: emin_def mant_def)

lemma cert_7: "rd 1 = 1"
  by (rule rd_cert[where k = "0" and m = 4503599627370496]) (simp_all add: emin_def mant_def)

lemma cert_8: "rd (5854679515581645 / 9007199254740992) = 5854679515581645 / 9007199254740992"
  by (rule rd_cert[where k = "-1" and m = 5854679515581645]) (simp_all add: emin_def mant_def)

lemma cert_9: "rd (1 / 50) = 5764607523034235 / 288230376151711744"
  by (rule rd_cert[where k = "-6" and m = 5764607523034235]) (simp_all add: emin_def mant_def)

lemma cert_10: "rd (90071992547409925 / 9007199254740992) = 10"
  by (rule rd_cert[where k = "3" and m = 5629499534213120]) (simp_all add: emin_def mant_def)

lemma cert_11: "rd 50 = 50"
  by (rule rd_cert[where k = "5" and m = 7036874417766400]) (simp_all add: emin_def mant_def)

lemma cert_12: "rd (146366987889541125 / 1125899906842624) = 130"
  by (rule rd_cert[where k = "7" and m = 4573968371548160]) (simp_all add: emin_def mant_def)

lemma cert_13: "rd (3 / 40) = 5404319552844595 / 72057594037927936"
  by (rule rd_cert[where k = "-4" and m = 5404319552844595]) (simp_all add: emin_def mant_def)

lemma cert_14: "rd (9 / 40) = 8106479329266893 / 36028797018963968"
  by (rule rd_cert[where k = "-3" and m = 8106479329266893]) (simp_all add: emin_def mant_def)

lemma cert_15: "rd (5 / 8) = 5 / 8"
  by (rule rd_cert[where k = "-1" and m = 5629499534213120]) (simp_all add: emin_def mant_def)

lemma cert_16: "rd (5404319552844595 / 72057594037927936) = 5404319552844595 / 72057594037927936"
  by (rule rd_cert[where k = "-4" and m = 5404319552844595]) (simp_all add: emin_def mant_def)

lemma cert_17: "rd (5404319552844595 / 36028797018963968) = 5404319552844595 / 36028797018963968"
  by (rule rd_cert[where k = "-3" and m = 5404319552844595]) (simp_all add: emin_def mant_def)

lemma cert_18: "rd (3 / 8) = 3 / 8"
  by (rule rd_cert[where k = "-2" and m = 6755399441055744]) (simp_all add: emin_def mant_def)

lemma cert_19: "rd (8106479329266893 / 36028797018963968) = 8106479329266893 / 36028797018963968"
  by (rule rd_cert[where k = "-3" and m = 8106479329266893]) (simp_all add: emin_def mant_def)

lemma cert_20: "rd (135107988821114875 / 9007199254740992) = 15"
  by (rule rd_cert[where k = "3" and m = 8444249301319680]) (simp_all add: emin_def mant_def)

lemma cert_21: "rd (202661983231672325 / 4503599627370496) = 45"
  by (rule rd_cert[where k = "5" and m = 6333186975989760]) (simp_all add: emin_def mant_def)

lemma cert_22: "rd 125 = 125"
  by (rule rd_cert[where k = "6" and m = 8796093022208000]) (simp_all add: emin_def mant_def)

lemma cert_23: "rd (41 / 125) = 5908722711110091 / 18014398509481984"
  by (rule rd_cert[where k = "-2" and m = 5908722711110091]) (simp_all add: emin_def mant_def)

lemma cert_24: "rd (657 / 2000) = 184929059698901 / 562949953421312"
  by (rule rd_cert[where k = "-2" and m = 5917729910364832]) (simp_all add: emin_def mant_def)

lemma cert_25: "rd (647 / 2000) = 2913828958908711 / 9007199254740992"
  by (rule rd_cert[where k = "-2" and m = 5827657917817422]) (simp_all add: emin_def mant_def)

lemma cert_26: "rd (5764607523034235 / 288230376151711744) = 5764607523034235 / 288230376151711744"
  by (rule rd_cert[where k = "-6" and m = 5764607523034235]) (simp_all add: emin_def mant_def)

lemma cert_27: "rd (100304170900795691 / 288230376151711744) = 6269010681299731 / 18014398509481984"
  by (rule rd_cert[where k = "-2" and m = 6269010681299731]) (simp_all add: emin_def mant_def)

lemma cert_28: "rd (12186740591664563 / 18014398509481984) = 3046685147916141 / 4503599627370496"
  by (rule rd_cert_tie[where k = "-1" and f = 6093370295832281]) (simp_all add: emin_def mant_def)

lemma cert_29: "rd (9007199254740993 / 9007199254740992) = 1"
  by (rule rd_cert_tie[where k = "0" and f = 4503599627370496]) (simp_all add: emin_def mant_def)

lemma cert_30: "rd (5908722711110091 / 18014398509481984) = 5908722711110091 / 18014398509481984"
  by (rule rd_cert[where k = "-2" and m = 5908722711110091]) (simp_all add: emin_def mant_def)

lemma cert_31: "rd (184929059698901 / 562949953421312) = 184929059698901 / 562949953421312"
  by (rule rd_cert[where k = "-2" and m = 5917729910364832]) (simp_all add: emin_def mant_def)

lemma cert_32: "rd (2913828958908711 / 9007199254740992) = 2913828958908711 / 9007199254740992"
  by (rule rd_cert[where k = "-2" and m = 5827657917817422]) (simp_all add: emin_def mant_def)

lemma cert_33: "rd (144115188075855875 / 36028797018963968) = 4"
  by (rule rd_cert[where k = "2" and m = 4503599627370496]) (simp_all add: emin_def mant_def)

lemma cert_34: "rd (147718067777752275 / 2251799813685248) = 4616189618054759 / 70368744177664"
  by (rule rd_cert[where k = "6" and m = 4616189618054759]) (simp_all add: emin_def mant_def)

lemma cert_35: "rd (33 / 100) = 5944751508129055 / 18014398509481984"
  by (rule rd_cert[where k = "-2" and m = 5944751508129055]) (simp_all add: emin_def mant_def)

lemma cert_36: "rd (4623226492472525 / 70368744177664) = 4623226492472525 / 70368744177664"
  by (rule rd_cert[where k = "6" and m = 4623226492472525]) (simp_all add: emin_def mant_def)

lemma cert_37: "rd (72845723972717775 / 1125899906842624) = 4552857748294861 / 70368744177664"
  by (rule rd_cert[where k = "6" and m = 4552857748294861]) (simp_all add: emin_def mant_def)

lemma cert_38: "rd (13 / 40) = 5854679515581645 / 18014398509481984"
  by (rule rd_cert[where k = "-2" and m = 5854679515581645]) (simp_all add: emin_def mant_def)

lemma cert_39: "rd (100880631653099115 / 288230376151711744) = 6305039478318695 / 18014398509481984"
  by (rule rd_cert[where k = "-2" and m = 6305039478318695]) (simp_all add: emin_def mant_def)

lemma cert_40: "rd (6124895493223875 / 9007199254740992) = 6124895493223875 / 9007199254740992"
  by (rule rd_cert[where k = "-1" and m = 6124895493223875]) (simp_all add: emin_def mant_def)

lemma cert_41: "rd (18104470502029395 / 18014398509481984) = 4526117625507349 / 4503599627370496"
  by (rule rd_cert[where k = "0" and m = 4526117625507349]) (simp_all add: emin_def mant_def)

lemma cert_42: "rd (4526117625507349 / 4503599627370496) = 4526117625507349 / 4503599627370496"
  by (rule rd_cert[where k = "0" and m = 4526117625507349]) (simp_all add: emin_def mant_def)

lemma cert_43: "rd (5764607523034235 / 289671528032470336) = 2867963941808077 / 144115188075855872"
  by (rule rd_cert[where k = "-6" and m = 5735927883616154]) (simp_all add: emin_def mant_def)

lemma cert_44: "rd (5944751508129055 / 18104470502029396) = 5915175629979159 / 18014398509481984"
  by (rule rd_cert[where k = "-2" and m = 5915175629979159]) (simp_all add: emin_def mant_def)

lemma cert_45: "rd (5854679515581645 / 18104470502029396) = 728193969599707 / 2251799813685248"
  by (rule rd_cert[where k = "-2" and m = 5825551756797656]) (simp_all add: emin_def mant_def)

lemma cert_46: "rd (2867963941808077 / 144115188075855872) = 2867963941808077 / 144115188075855872"
  by (rule rd_cert[where k = "-6" and m = 5735927883616154]) (simp_all add: emin_def mant_def)

lemma cert_47: "rd (50189368981641349 / 144115188075855872) = 6273671122705169 / 18014398509481984"
  by (rule rd_cert[where k = "-2" and m = 6273671122705169]) (simp_all add: emin_def mant_def)

lemma cert_48: "rd (1523605844085541 / 2251799813685248) = 1523605844085541 / 2251799813685248"
  by (rule rd_cert[where k = "-1" and m = 6094423376342164]) (simp_all add: emin_def mant_def)

lemma cert_49: "rd (5915175629979159 / 18014398509481984) = 5915175629979159 / 18014398509481984"
  by (rule rd_cert[where k = "-2" and m = 5915175629979159]) (simp_all add: emin_def mant_def)

lemma cert_50: "rd (728193969599707 / 2251799813685248) = 728193969599707 / 2251799813685248"
  by (rule rd_cert[where k = "-2" and m = 5825551756797656]) (simp_all add: emin_def mant_def)

lemma cert_51: "rd (5915175629979159 / 9007199254740992) = 5915175629979159 / 9007199254740992"
  by (rule rd_cert[where k = "-1" and m = 5915175629979159]) (simp_all add: emin_def mant_def)

lemma cert_52: "rd (8827951508377987 / 9007199254740992) = 8827951508377987 / 9007199254740992"
  by (rule rd_cert[where k = "-1" and m = 8827951508377987]) (simp_all add: emin_def mant_def)

lemma cert_53: "rd (5915175629979159 / 17655903016755974) = 3017640359456373 / 9007199254740992"
  by (rule rd_cert[where k = "-2" and m = 6035280718912746]) (simp_all add: emin_def mant_def)

lemma cert_54: "rd (2912775878398828 / 8827951508377987) = 1485959267914123 / 4503599627370496"
  by (rule rd_cert[where k = "-2" and m = 5943837071656492]) (simp_all add: emin_def mant_def)

lemma cert_55: "rd (75441008986409325 / 1125899906842624) = 4715063061650583 / 70368744177664"
  by (rule rd_cert[where k = "6" and m = 4715063061650583]) (simp_all add: emin_def mant_def)

lemma cert_56: "rd (67 / 200) = 6034823500676465 / 18014398509481984"
  by (rule rd_cert[where k = "-2" and m = 6034823500676465]) (simp_all add: emin_def mant_def)

lemma cert_57: "rd (37148981697853075 / 562949953421312) = 2321811356115817 / 35184372088832"
  by (rule rd_cert[where k = "6" and m = 4643622712231634]) (simp_all add: emin_def mant_def)

lemma cert_58: "rd (6034823500676465 / 18014398509481984) = 6034823500676465 / 18014398509481984"
  by (rule rd_cert[where k = "-2" and m = 6034823500676465]) (simp_all add: emin_def mant_def)

lemma cert_59: "rd (6034823500676465 / 9007199254740992) = 6034823500676465 / 9007199254740992"
  by (rule rd_cert[where k = "-1" and m = 6034823500676465]) (simp_all add: emin_def mant_def)

lemma cert_60: "rd (18014398509481985 / 18014398509481984) = 1"
  by (rule rd_cert[where k = "0" and m = 4503599627370496]) (simp_all add: emin_def mant_def)

lemma cert_61: "rd (5944751508129055 / 18014398509481984) = 5944751508129055 / 18014398509481984"
  by (rule rd_cert[where k = "-2" and m = 5944751508129055]) (simp_all add: emin_def mant_def)

lemma cert_62: "rd (99 / 100) = 4458563631096791 / 4503599627370496"
  by (rule rd_cert[where k = "-1" and m = 8917127262193582]) (simp_all add: emin_def mant_def)

lemma cert_63: "rd (1 / 100) = 5764607523034235 / 576460752303423488"
  by (rule rd_cert[where k = "-7" and m = 5764607523034235]) (simp_all add: emin_def mant_def)

lemma cert_64: "rd (4458563631096791 / 4503599627370496) = 4458563631096791 / 4503599627370496"
  by (rule rd_cert[where k = "-1" and m = 8917127262193582]) (simp_all add: emin_def mant_def)

lemma cert_65: "rd (576460752303423483 / 576460752303423488) = 1"
  by (rule rd_cert[where k = "-1" and m = 9007199254740992]) (simp_all add: emin_def mant_def)

lemma cert_66: "rd (5764607523034235 / 576460752303423488) = 5764607523034235 / 576460752303423488"
  by (rule rd_cert[where k = "-7" and m = 5764607523034235]) (simp_all add: emin_def mant_def)

lemma cert_67: "rd 200 = 200"
  by (rule rd_cert[where k = "7" and m = 7036874417766400]) (simp_all add: emin_def mant_def)

lemma cert_68: "rd (900719925474099 / 36028797018963968) = 900719925474099 / 36028797018963968"
  by (rule rd_cert[where k = "-6" and m = 7205759403792792]) (simp_all add: emin_def mant_def)

lemma cert_69: "rd (811296384146066456669919861801 / 1298074214633706907132624082305024) = 720575940379279 / 1152921504606846976"
  by (rule rd_cert[where k = "-11" and m = 5764607523034232]) (simp_all add: emin_def mant_def)

lemma cert_70: "rd (720575940379279 / 1152921504606846976) = 720575940379279 / 1152921504606846976"
  by (rule rd_cert[where k = "-11" and m = 5764607523034232]) (simp_all add: emin_def mant_def)

lemma cert_71: "rd (720575940379279 / 576460752303423488) = 720575940379279 / 576460752303423488"
  by (rule rd_cert[where k = "-10" and m = 5764607523034232]) (simp_all add: emin_def mant_def)

lemma cert_72: "rd (2161727821137837 / 1152921504606846976) = 2161727821137837 / 1152921504606846976"
  by (rule rd_cert[where k = "-10" and m = 8646911284551348]) (simp_all add: emin_def mant_def)

lemma cert_73: "rd (225179981368525 / 9007199254740992) = 225179981368525 / 9007199254740992"
  by (rule rd_cert[where k = "-6" and m = 7205759403792800]) (simp_all add: emin_def mant_def)

lemma cert_74: "rd (50706024009129266131860675625 / 81129638414606681695789005144064) = 5764607523034245 / 9223372036854775808"
  by (rule rd_cert[where k = "-11" and m = 5764607523034245]) (simp_all add: emin_def mant_def)

lemma cert_75: "rd (23058430092136941 / 9223372036854775808) = 5764607523034235 / 2305843009213693952"
  by (rule rd_cert[where k = "-9" and m = 5764607523034235]) (simp_all add: emin_def mant_def)

lemma cert_76: "rd (5764607523034235 / 2305843009213693952) = 5764607523034235 / 2305843009213693952"
  by (rule rd_cert[where k = "-9" and m = 5764607523034235]) (simp_all add: emin_def mant_def)

lemma cert_77: "rd (19 / 20) = 4278419646001971 / 4503599627370496"
  by (rule rd_cert[where k = "-1" and m = 8556839292003942]) (simp_all add: emin_def mant_def)

lemma cert_78: "rd (4278419646001971 / 4503599627370496) = 4278419646001971 / 4503599627370496"
  by (rule rd_cert[where k = "-1" and m = 8556839292003942]) (simp_all add: emin_def mant_def)

lemmas certs = cert_1 cert_2 cert_3 cert_4 cert_5 cert_6 cert_7 cert_8 cert_9 cert_10 cert_11 cert_12 cert_13 cert_14 cert_15 cert_16 cert_17 cert_18 cert_19 cert_20 cert_21 cert_22 cert_23 cert_24 cert_25 cert_26 cert_27 cert_28 cert_29 cert_30 cert_31 cert_32 cert_33 cert_34 cert_35 cert_36 cert_37 cert_38 cert_39 cert_40 cert_41 cert_42 cert_43 cert_44 cert_45 cert_46 cert_47 cert_48 cert_49 cert_50 cert_51 cert_52 cert_53 cert_54 cert_55 cert_56 cert_57 cert_58 cert_59 cert_60 cert_61 cert_62 cert_63 cert_64 cert_65 cert_66 cert_67 cert_68 cert_69 cert_70 cert_71 cert_72 cert_73 cert_74 cert_75 cert_76 cert_77 cert_78

lemma barbell_double: "doubleAllocations barbell"
  using lit4_props(1)[of "1 / 20" "1 / 20" "1 / 4" "13 / 20"] by (simp add: barbell_def)

lemma barbell_clamp: "clampL barbell = [3602879701896397 / 72057594037927936, 3602879701896397 / 72057594037927936, 1 / 4, 5854679515581645 / 9007199254740992, 0, 0, 0, 0, 0, 0]"
  using lit4_props(2)[of "1 / 20" "1 / 20" "1 / 4" "13 / 20"] by (simp add: barbell_def certs)

lemma barbell_bound: "sum_list (clampL barbell) \<le> maxTotal"
  by (simp add: barbell_clamp maxTotal_def)

lemma barbell_scale: "scaleL [3602879701896397 / 72057594037927936, 3602879701896397 / 72057594037927936, 1 / 4, 5854679515581645 / 9007199254740992, 0, 0, 0, 0, 0, 0] = [3602879701896397 / 72057594037927936, 3602879701896397 / 72057594037927936, 1 / 4, 5854679515581645 / 9007199254740992, 0, 0, 0, 0, 0, 0]"
  by (simp add: scaleL_def dsum_def certs)

lemma barbell_dust: "dustL [3602879701896397 / 72057594037927936, 3602879701896397 / 72057594037927936, 1 / 4, 5854679515581645 / 9007199254740992, 0, 0, 0, 0, 0, 0] = [3602879701896397 / 72057594037927936, 3602879701896397 / 72057594037927936, 1 / 4, 5854679515581645 / 9007199254740992, 0, 0, 0, 0, 0, 0]"
  by (simp add: dustL_def zeroL_def tau_def dsum_def certs)

lemma barbell_snap: "map snap1 [3602879701896397 / 72057594037927936, 3602879701896397 / 72057594037927936, 1 / 4, 5854679515581645 / 9007199254740992, 0, 0, 0, 0, 0, 0] = [3602879701896397 / 72057594037927936, 3602879701896397 / 72057594037927936, 1 / 4, 5854679515581645 / 9007199254740992, 0, 0, 0, 0, 0, 0]"
  by (simp add: snap1_def certs)

lemma barbell_total3: "dsum [3602879701896397 / 72057594037927936, 3602879701896397 / 72057594037927936, 1 / 4, 5854679515581645 / 9007199254740992, 0, 0, 0, 0, 0, 0] = 1"
  by (simp add: dsum_def certs)

lemma barbell_final: "finalL [3602879701896397 / 72057594037927936, 3602879701896397 / 72057594037927936, 1 / 4, 5854679515581645 / 9007199254740992, 0, 0, 0, 0, 0, 0] = [3602879701896397 / 72057594037927936, 3602879701896397 / 72057594037927936, 1 / 4, 5854679515581645 / 9007199254740992, 0, 0, 0, 0, 0, 0]"
  by (simp add: finalL_def barbell_total3 certs)

lemma barbell_normalizeL: "normalizeL [3602879701896397 / 72057594037927936, 3602879701896397 / 72057594037927936, 1 / 4, 5854679515581645 / 9007199254740992, 0, 0, 0, 0, 0, 0] = [3602879701896397 / 72057594037927936, 3602879701896397 / 72057594037927936, 1 / 4, 5854679515581645 / 9007199254740992, 0, 0, 0, 0, 0, 0]"
  by (simp only: normalizeL_def barbell_scale barbell_dust barbell_snap barbell_final)

lemma normalize_barbell: "normalize barbell = record_of [3602879701896397 / 72057594037927936, 3602879701896397 / 72057594037927936, 1 / 4, 5854679515581645 / 9007199254740992, 0, 0, 0, 0, 0, 0]"
  using normalize_stages(7)[OF barbell_double barbell_bound] by (simp only: barbell_clamp barbell_normalizeL)



lemma barbell_good: "goodL [3602879701896397 / 72057594037927936, 3602879701896397 / 72057594037927936, 1 / 4, 5854679515581645 / 9007199254740992, 0, 0, 0, 0, 0, 0]"
  using normalize_stages(4)[OF barbell_double barbell_bound] by (simp only: barbell_clamp barbell_normalizeL)


lemma barbell2_double: "doubleAllocations barbell2"
  using lit4_props(1)[of "3 / 40" "3 / 40" "9 / 40" "5 / 8"] by (simp add: barbell2_def)

lemma barbell2_clamp: "clampL barbell2 = [5404319552844595 / 72057594037927936, 5404319552844595 / 72057594037927936, 8106479329266893 / 36028797018963968, 5 / 8, 0, 0, 0, 0, 0, 0]"
  using lit4_props(2)[of "3 / 40" "3 / 40" "9 / 40" "5 / 8"] by (simp add: barbell2_def certs)

lemma barbell2_bound: "sum_list (clampL barbell2) \<le> maxTotal"
  by (simp add: barbell2_clamp maxTotal_def)

lemma barbell2_scale: "scaleL [5404319552844595 / 72057594037927936, 5404319552844595 / 72057594037927936, 8106479329266893 / 36028797018963968, 5 / 8, 0, 0, 0, 0, 0, 0] = [5404319552844595 / 72057594037927936, 5404319552844595 / 72057594037927936, 8106479329266893 / 36028797018963968, 5 / 8, 0, 0, 0, 0, 0, 0]"
  by (simp add: scaleL_def dsum_def certs)

lemma barbell2_dust: "dustL [5404319552844595 / 72057594037927936, 5404319552844595 / 72057594037927936, 8106479329266893 / 36028797018963968, 5 / 8, 0, 0, 0, 0, 0, 0] = [5404319552844595 / 72057594037927936, 5404319552844595 / 72057594037927936, 8106479329266893 / 36028797018963968, 5 / 8, 0, 0, 0, 0, 0, 0]"
  by (simp add: dustL_def zeroL_def tau_def dsum_def certs)

lemma barbell2_snap: "map snap1 [5404319552844595 / 72057594037927936, 5404319552844595 / 72057594037927936, 8106479329266893 / 36028797018963968, 5 / 8, 0, 0, 0, 0, 0, 0] = [5404319552844595 / 72057594037927936, 5404319552844595 / 72057594037927936, 8106479329266893 / 36028797018963968, 5 / 8, 0, 0, 0, 0, 0, 0]"
  by (simp add: snap1_def certs)

lemma barbell2_total3: "dsum [5404319552844595 / 72057594037927936, 5404319552844595 / 72057594037927936, 8106479329266893 / 36028797018963968, 5 / 8, 0, 0, 0, 0, 0, 0] = 1"
  by (simp add: dsum_def certs)

lemma barbell2_final: "finalL [5404319552844595 / 72057594037927936, 5404319552844595 / 72057594037927936, 8106479329266893 / 36028797018963968, 5 / 8, 0, 0, 0, 0, 0, 0] = [5404319552844595 / 72057594037927936, 5404319552844595 / 72057594037927936, 8106479329266893 / 36028797018963968, 5 / 8, 0, 0, 0, 0, 0, 0]"
  by (simp add: finalL_def barbell2_total3 certs)

lemma barbell2_normalizeL: "normalizeL [5404319552844595 / 72057594037927936, 5404319552844595 / 72057594037927936, 8106479329266893 / 36028797018963968, 5 / 8, 0, 0, 0, 0, 0, 0] = [5404319552844595 / 72057594037927936, 5404319552844595 / 72057594037927936, 8106479329266893 / 36028797018963968, 5 / 8, 0, 0, 0, 0, 0, 0]"
  by (simp only: normalizeL_def barbell2_scale barbell2_dust barbell2_snap barbell2_final)

lemma normalize_barbell2: "normalize barbell2 = record_of [5404319552844595 / 72057594037927936, 5404319552844595 / 72057594037927936, 8106479329266893 / 36028797018963968, 5 / 8, 0, 0, 0, 0, 0, 0]"
  using normalize_stages(7)[OF barbell2_double barbell2_bound] by (simp only: barbell2_clamp barbell2_normalizeL)

lemma barbell2_snapped: "snap (dropDust (scaleToOne (clampAll barbell2))) = record_of [5404319552844595 / 72057594037927936, 5404319552844595 / 72057594037927936, 8106479329266893 / 36028797018963968, 5 / 8, 0, 0, 0, 0, 0, 0]"
  using normalize_stages(6)[OF barbell2_double barbell2_bound] by (simp only: barbell2_clamp barbell2_scale barbell2_dust barbell2_snap)

lemma barbell2_grid: "goodG [5404319552844595 / 72057594037927936, 5404319552844595 / 72057594037927936, 8106479329266893 / 36028797018963968, 5 / 8, 0, 0, 0, 0, 0, 0]"
  using normalize_stages(3)[OF barbell2_double barbell2_bound] by (simp only: barbell2_clamp barbell2_scale barbell2_dust barbell2_snap)

lemma barbell2_good: "goodL [5404319552844595 / 72057594037927936, 5404319552844595 / 72057594037927936, 8106479329266893 / 36028797018963968, 5 / 8, 0, 0, 0, 0, 0, 0]"
  using normalize_stages(4)[OF barbell2_double barbell2_bound] by (simp only: barbell2_clamp barbell2_normalizeL)

lemma barbell2_total: "sum_values (snap (dropDust (scaleToOne (clampAll barbell2)))) = Fin 1"
  unfolding barbell2_snapped using barbell2_grid barbell2_total3
  by (subst sum_values_record) (simp_all add: goodG_def maxTotal_def)

lemma dusty_double: "doubleAllocations dusty"
  using lit4_props(1)[of "1 / 50" "41 / 125" "657 / 2000" "647 / 2000"] by (simp add: dusty_def)

lemma dusty_clamp: "clampL dusty = [5764607523034235 / 288230376151711744, 5908722711110091 / 18014398509481984, 184929059698901 / 562949953421312, 2913828958908711 / 9007199254740992, 0, 0, 0, 0, 0, 0]"
  using lit4_props(2)[of "1 / 50" "41 / 125" "657 / 2000" "647 / 2000"] by (simp add: dusty_def certs)

lemma dusty_bound: "sum_list (clampL dusty) \<le> maxTotal"
  by (simp add: dusty_clamp maxTotal_def)

lemma dusty_scale: "scaleL [5764607523034235 / 288230376151711744, 5908722711110091 / 18014398509481984, 184929059698901 / 562949953421312, 2913828958908711 / 9007199254740992, 0, 0, 0, 0, 0, 0] = [5764607523034235 / 288230376151711744, 5908722711110091 / 18014398509481984, 184929059698901 / 562949953421312, 2913828958908711 / 9007199254740992, 0, 0, 0, 0, 0, 0]"
  by (simp add: scaleL_def dsum_def certs)

lemma dusty_dust: "dustL [5764607523034235 / 288230376151711744, 5908722711110091 / 18014398509481984, 184929059698901 / 562949953421312, 2913828958908711 / 9007199254740992, 0, 0, 0, 0, 0, 0] = [5764607523034235 / 288230376151711744, 5908722711110091 / 18014398509481984, 184929059698901 / 562949953421312, 2913828958908711 / 9007199254740992, 0, 0, 0, 0, 0, 0]"
  by (simp add: dustL_def zeroL_def tau_def dsum_def certs)

lemma dusty_snap: "map snap1 [5764607523034235 / 288230376151711744, 5908722711110091 / 18014398509481984, 184929059698901 / 562949953421312, 2913828958908711 / 9007199254740992, 0, 0, 0, 0, 0, 0] = [5764607523034235 / 288230376151711744, 5944751508129055 / 18014398509481984, 5944751508129055 / 18014398509481984, 5854679515581645 / 18014398509481984, 0, 0, 0, 0, 0, 0]"
  by (simp add: snap1_def certs)

lemma dusty_total3: "dsum [5764607523034235 / 288230376151711744, 5944751508129055 / 18014398509481984, 5944751508129055 / 18014398509481984, 5854679515581645 / 18014398509481984, 0, 0, 0, 0, 0, 0] = 4526117625507349 / 4503599627370496"
  by (simp add: dsum_def certs)




lemma dusty_snapped: "snap (dropDust (scaleToOne (clampAll dusty))) = record_of [5764607523034235 / 288230376151711744, 5944751508129055 / 18014398509481984, 5944751508129055 / 18014398509481984, 5854679515581645 / 18014398509481984, 0, 0, 0, 0, 0, 0]"
  using normalize_stages(6)[OF dusty_double dusty_bound] by (simp only: dusty_clamp dusty_scale dusty_dust dusty_snap)

lemma dusty_grid: "goodG [5764607523034235 / 288230376151711744, 5944751508129055 / 18014398509481984, 5944751508129055 / 18014398509481984, 5854679515581645 / 18014398509481984, 0, 0, 0, 0, 0, 0]"
  using normalize_stages(3)[OF dusty_double dusty_bound] by (simp only: dusty_clamp dusty_scale dusty_dust dusty_snap)


lemma dusty_total: "sum_values (snap (dropDust (scaleToOne (clampAll dusty)))) = Fin (4526117625507349 / 4503599627370496)"
  unfolding dusty_snapped using dusty_grid dusty_total3
  by (subst sum_values_record) (simp_all add: goodG_def maxTotal_def)







lemma tilted_scale: "scaleL [4458563631096791 / 4503599627370496, 5764607523034235 / 576460752303423488, 0, 0, 0, 0, 0, 0, 0, 0] = [4458563631096791 / 4503599627370496, 5764607523034235 / 576460752303423488, 0, 0, 0, 0, 0, 0, 0, 0]"
  by (simp add: scaleL_def dsum_def certs)

lemma tilted_dust: "dustL [4458563631096791 / 4503599627370496, 5764607523034235 / 576460752303423488, 0, 0, 0, 0, 0, 0, 0, 0] = [1, 0, 0, 0, 0, 0, 0, 0, 0, 0]"
  by (simp add: dustL_def zeroL_def tau_def dsum_def certs)

lemma tilted_snap: "map snap1 [1, 0, 0, 0, 0, 0, 0, 0, 0, 0] = [1, 0, 0, 0, 0, 0, 0, 0, 0, 0]"
  by (simp add: snap1_def certs)

lemma tilted_total3: "dsum [1, 0, 0, 0, 0, 0, 0, 0, 0, 0] = 1"
  by (simp add: dsum_def certs)

lemma tilted_final: "finalL [1, 0, 0, 0, 0, 0, 0, 0, 0, 0] = [1, 0, 0, 0, 0, 0, 0, 0, 0, 0]"
  by (simp add: finalL_def tilted_total3 certs)

lemma tilted_normalizeL: "normalizeL [4458563631096791 / 4503599627370496, 5764607523034235 / 576460752303423488, 0, 0, 0, 0, 0, 0, 0, 0] = [1, 0, 0, 0, 0, 0, 0, 0, 0, 0]"
  by (simp only: normalizeL_def tilted_scale tilted_dust tilted_snap tilted_final)












section \<open>The output of normalisation\<close>




section \<open>Normalising twice\<close>





section \<open>Finite inputs give finite scenario results\<close>

lemma isFin_iff: "isFin x \<longleftrightarrow> (\<exists>r. x = Fin r)"
  by (cases x) simp_all

lemma list_all_isFin: "list_all isFin xs \<longleftrightarrow> (\<exists>rs. xs = map Fin rs)"
proof
  assume "list_all isFin xs"
  then show "\<exists>rs. xs = map Fin rs"
  proof (induction xs)
    case Nil show ?case by simp
  next
    case (Cons x xs)
    then obtain r rs where "x = Fin r" "xs = map Fin rs" by (auto simp: isFin_iff)
    then have "x # xs = map Fin (r # rs)" by simp
    then show ?case by (rule exI)
  qed
next
  assume "\<exists>rs. xs = map Fin rs"
  then show "list_all isFin xs" by (auto simp: list_all_iff)
qed

lemma rng_next_range: "\<exists>u s'. rng_next s = (Fin u, s') \<and> 0 \<le> u \<and> u < 1"
proof -
  define w :: "32 word" where "w = (let state = s + 0x6d2b79f5;
          t1 = (state XOR drop_bit 15 state) * (1 OR state);
          t2 = (t1 + (t1 XOR drop_bit 7 t1) * (61 OR t1)) XOR t1
      in t2 XOR drop_bit 14 t2)"
  have eq: "rng_next s = (Fin (real (unat w) / 4294967296), s + 0x6d2b79f5)"
    by (simp add: rng_next_def w_def Let_def)
  have "unat w < 2 ^ 32" using unsigned_less[of w, where ?'a = nat] by simp
  then have "real (unat w) < real (2 ^ 32)" by (simp only: of_nat_less_iff)
  then have "real (unat w) / 4294967296 < 1" by simp
  moreover have "0 \<le> real (unat w) / 4294967296"
    by (intro divide_nonneg_nonneg of_nat_0_le_iff) simp
  ultimately show ?thesis using eq by blast
qed

lemma nextGaussian_Fin: "\<exists>g s'. nextGaussian s = (Fin g, s')"
proof -
  obtain u1 s1 where u1: "rng_next s = (Fin u1, s1)" "0 \<le> u1" "u1 < 1"
    using rng_next_range by blast
  obtain u2 s2 where u2: "rng_next s1 = (Fin u2, s2)"
    using rng_next_range by blast
  define v where "v = (if u1 = 0 then 1 / 10 ^ 10 else u1)"
  have v: "or_else (Fin u1) (Fin (1 / 10 ^ 10)) = Fin v" by (simp add: or_else_def v_def)
  have vr: "0 < v" "v < 1" using u1 by (auto simp: v_def)
  then have "ln v \<le> 0" by simp
  then have nn: "0 \<le> - 2 * ln v" by simp
  have "Math_sqrt (Fin (- 2) * Math_log (or_else (Fin u1) (Fin (1 / 10 ^ 10))))
          * Math_cos (Fin 2 * Fin pi * Fin u2) = Fin (sqrt (- 2 * ln v) * cos (2 * pi * u2))"
    unfolding v using vr nn by simp
  then show ?thesis
    unfolding nextGaussian_def u1 u2 Let_def prod.case by blast
qed

lemma correlationOverride_Fin:
  "\<exists>a b. correlationOverride rg (Fin v) (Fin r) (Fin i) (Fin ro) = (Fin a, Fin b)"
  by (simp add: correlationOverride_def Let_def)

lemma tailJump_Fin: "\<exists>a s'. tailJump (Fin r) s = (Fin a, s')"
proof -
  obtain j s1 where j: "rng_next s = (Fin j, s1)" using rng_next_range by blast
  obtain sg s2 where sg: "rng_next s1 = (Fin sg, s2)" using rng_next_range by blast
  obtain a s3 where a: "rng_next s2 = (Fin a, s3)" using rng_next_range by blast
  show ?thesis by (simp add: tailJump_def j sg a)
qed

lemma genScenario_finite:
  assumes ok: "\<And>rg. rg \<in> fst ` set cdf \<Longrightarrow> \<exists>c. rt rg = Some c \<and> isFin (volMultiplier c)"
    and res: "genScenario rt cdf rng = Inr (m, rng')"
  shows "finiteMacro m"
proof -
  obtain u s1 where u: "rng_next rng = (Fin u, s1)" using rng_next_range by blast
  from res u obtain rg where rg: "sampleRegime (Fin u) cdf = Inr rg"
    by (cases "sampleRegime (Fin u) cdf") (simp_all add: genScenario_def)
  obtain c v where c: "rt rg = Some c" "volMultiplier c = Fin v"
    using ok[OF sampleRegime_mem[OF rg]] by (auto simp: isFin_iff)
  obtain g1 s2 where g1: "nextGaussian s1 = (Fin g1, s2)" using nextGaussian_Fin by blast
  obtain g2 s3 where g2: "nextGaussian s2 = (Fin g2, s3)" using nextGaussian_Fin by blast
  obtain g3 s4 where g3: "nextGaussian s3 = (Fin g3, s4)" using nextGaussian_Fin by blast
  obtain g4 s5 where g4: "nextGaussian s4 = (Fin g4, s5)" using nextGaussian_Fin by blast
  obtain a b where co: "correlationOverride rg (Fin v) (Fin (g1 * 100 * v)) (Fin (g2 * 2 * v)) (Fin (g4 * 1 * v)) = (Fin a, Fin b)"
    using correlationOverride_Fin by blast
  obtain mr s6 where tj: "tailJump (Fin (g1 * 100 * v)) s5 = (Fin mr, s6)"
    using tailJump_Fin by blast
  from res have "m = \<lparr> rateChange = Fin mr, inflationShock = Fin a,
                           growthShock = Fin (g3 * 2.5 * v), riskOffShock = Fin b, regime = rg \<rparr>"
    using co tj by (simp add: genScenario_def u rg c g1 g2 g3 g4 Let_def)
  then show ?thesis by (simp add: finiteMacro_def)
qed

lemma scenarioLoop_finite:
  assumes ok: "\<And>rg. rg \<in> fst ` set cdf \<Longrightarrow> \<exists>c. rt rg = Some c \<and> isFin (volMultiplier c)"
  shows "scenarioLoop rt cdf n rng = Inr (ms, rng') \<Longrightarrow> list_all finiteMacro ms"
proof (induction n arbitrary: rng ms rng')
  case 0
  then show ?case by simp
next
  case (Suc n)
  from Suc.prems obtain m s1 where m: "genScenario rt cdf rng = Inr (m, s1)"
    by (cases "genScenario rt cdf rng") auto
  from Suc.prems m obtain ms' s2 where ms': "scenarioLoop rt cdf n s1 = Inr (ms', s2)"
    by (cases "scenarioLoop rt cdf n s1") auto
  from Suc.prems m ms' have "ms = m # ms'" by simp
  then show ?case using genScenario_finite[OF ok m] Suc.IH[OF ms'] by simp
qed

lemma generateScenarios_finite:
  assumes av: "regimesAvailable A cfg"
    and res: "generateScenarios cfg (regimes A) rng = Inr (ms, rng')"
  shows "list_all finiteMacro ms"
proof -
  from res obtain es where es: "regimeEntries (regimes A) (regimesEnabled cfg) = Inr es"
    by (cases "regimeEntries (regimes A) (regimesEnabled cfg)") (simp_all add: generateScenarios_def)
  let ?cdf = "buildCdf (foldl (\<lambda>s e. s + probability (snd e)) (Fin 0) es) (Fin 0) es"
  have "map fst ?cdf = regimesEnabled cfg"
    using regimeEntries_sound[OF es] by (simp add: buildCdf_fst)
  then have fst: "fst ` set ?cdf = set (regimesEnabled cfg)" by (metis set_map)
  have ok: "\<And>rg. rg \<in> fst ` set ?cdf \<Longrightarrow> \<exists>c. regimes A rg = Some c \<and> isFin (volMultiplier c)"
    using av unfolding fst regimesAvailable_def list_all_iff by (auto split: option.splits)
  from res have "scenarioLoop (regimes A) ?cdf (numScenarios cfg) rng = Inr (ms, rng')"
    by (simp add: generateScenarios_def es Let_def)
  then show ?thesis using scenarioLoop_finite[of ?cdf "regimes A"] ok by blast
qed

lemma regimesAvailable_runs:
  assumes "regimesAvailable A cfg"
  shows "\<exists>s. runMonteCarlo A amb pf cfg sd = Inr s"
proof (rule runMonteCarlo_Inr)
  show "regimesEnabled cfg \<noteq> []" using assms by (simp add: regimesAvailable_def)
  show "list_all (\<lambda>r. regimes A r \<noteq> None) (regimesEnabled cfg)"
    using assms by (auto simp: regimesAvailable_def list_all_iff split: option.splits)
qed

lemma foldl_plus_isFin:
  assumes "\<And>x. x \<in> set xs \<Longrightarrow> isFin (f x)"
  shows "isFin (foldl (\<lambda>s x. s + f x) (Fin a) xs)"
  using assms
proof (induction xs arbitrary: a)
  case Nil
  show ?case by simp
next
  case (Cons x xs)
  then obtain r where r: "f x = Fin r" by (auto simp: isFin_iff)
  show ?case using Cons.IH[of "a + r"] Cons.prems by (simp add: r)
qed

lemma factorReturn_Fin:
  assumes "finiteAsset a" "finiteMacro m"
  shows "isFin (factorReturn a m)"
  using assms by (auto simp: finiteAsset_def finiteMacro_def factorReturn_def isFin_iff)

lemma assetLoop_finite:
  assumes "\<And>a. a \<in> set assets \<Longrightarrow> finiteAsset (ad a)" "finiteMacro m" "0 \<le> h" "finiteMap acc"
  shows "finiteMap (fst (assetLoop ad al m (Fin h) assets acc rng))"
  using assms
proof (induction assets arbitrary: acc rng)
  case Nil
  then show ?case by simp
next
  case (Cons asset rest)
  show ?case
  proof (cases "strict_eq (nullish (al asset) (Fin 0)) (Fin 0)")
    case True
    then show ?thesis using Cons by simp
  next
    case False
    obtain g s1 where g: "nextGaussian rng = (Fin g, s1)" using nextGaussian_Fin by blast
    have fa: "finiteAsset (ad asset)" using Cons.prems(1) by simp
    then obtain er vol where ev: "expectedReturn (ad asset) = Fin er" "volatility (ad asset) = Fin vol"
      by (auto simp: finiteAsset_def isFin_iff)
    obtain fr where fr: "factorReturn (ad asset) m = Fin fr"
      using factorReturn_Fin[OF fa Cons.prems(2)] by (auto simp: isFin_iff)
    have sq: "Math_sqrt (Fin h * dt) = Fin (sqrt (h / 12))"
      using Cons.prems(3) by (simp add: dt_def)
    let ?tot = "Fin er * (Fin h * dt) + Fin fr + Fin g * (Fin vol * Fin 0.5) * Math_sqrt (Fin h * dt)"
    have tot: "isFin ?tot" by (simp add: sq) (simp add: dt_def)
    have "finiteMap (acc(asset \<mapsto> ?tot))" using Cons.prems(4) tot by (simp add: finiteMap_def)
    then have "finiteMap (fst (assetLoop ad al m (Fin h) rest (acc(asset \<mapsto> ?tot)) s1))"
      using Cons.IH Cons.prems by simp
    then show ?thesis using False by (simp add: g ev fr Let_def)
  qed
qed

lemma entries_mem: "(k, v) \<in> set (entries al) \<Longrightarrow> al k = Some v"
  by (auto simp: entries_def List.map_filter_def)

lemma monthlyReturnOf_Fin:
  assumes "finiteAllocations al" "finiteMap ar" "h \<noteq> 0"
  shows "isFin (monthlyReturnOf al ar (Fin h))"
proof -
  have "\<And>x. x \<in> set (entries al) \<Longrightarrow> isFin (snd x * nullish (ar (fst x)) (Fin 0))"
  proof -
    fix x assume x: "x \<in> set (entries al)"
    then have "al (fst x) = Some (snd x)" using entries_mem[of "fst x" "snd x"] by simp
    then have "snd x \<in> set (values_of al)" by (rule values_of_mem)
    then obtain w where w: "snd x = Fin w" using assms(1)
      by (auto simp: finiteAllocations_def list_all_iff isFin_iff)
    obtain r where r: "nullish (ar (fst x)) (Fin 0) = Fin r"
      using assms(2) by (cases "ar (fst x)") (auto simp: nullish_def finiteMap_def isFin_iff)
    show "isFin (snd x * nullish (ar (fst x)) (Fin 0))" by (simp add: w r)
  qed
  from foldl_plus_isFin[of "entries al" "\<lambda>x. snd x * nullish (ar (fst x)) (Fin 0)" 0, OF this]
  obtain t where "foldl (\<lambda>s x. s + snd x * nullish (ar (fst x)) (Fin 0)) (Fin 0) (entries al) = Fin t"
    by (auto simp: isFin_iff)
  moreover have "(\<lambda>sum (asset, weight). sum + weight * nullish (ar asset) (Fin 0))
                  = (\<lambda>s x. s + snd x * nullish (ar (fst x)) (Fin 0))"
    by (simp add: fun_eq_iff case_prod_beta)
  ultimately show ?thesis using assms(3) by (simp add: monthlyReturnOf_def)
qed

lemma last_num_Fin: "xs \<noteq> [] \<Longrightarrow> list_all isFin xs \<Longrightarrow> isFin (last_num xs)"
  by (cases xs) (auto simp: last_num_def list_all_iff)

lemma pathLoop_finite:
  assumes "pth \<noteq> []" "list_all isFin pth"
  shows "list_all isFin (fst (pathLoop (Fin mr) k pth rng))
         \<and> first_num (fst (pathLoop (Fin mr) k pth rng)) = first_num pth"
  using assms
proof (induction k arbitrary: pth rng)
  case 0
  then show ?case by simp
next
  case (Suc k)
  obtain g s1 where g: "nextGaussian rng = (Fin g, s1)" using nextGaussian_Fin by blast
  obtain l where l: "last_num pth = Fin l" using last_num_Fin[OF Suc.prems] by (auto simp: isFin_iff)
  let ?p = "pth @ [Fin (l * (1 + mr + g * 0.01))]"
  have "?p \<noteq> []" "list_all isFin ?p" using Suc.prems by simp_all
  from Suc.IH[OF this, of s1]
  have "list_all isFin (fst (pathLoop (Fin mr) k ?p s1))
        \<and> first_num (fst (pathLoop (Fin mr) k ?p s1)) = first_num ?p" .
  moreover have "first_num ?p = first_num pth" using Suc.prems(1) by (cases pth) (simp_all add: first_num_def)
  ultimately show ?case by (simp add: g l Let_def)
qed

lemma drawdownLoop_Fin:
  assumes "list_all isFin vals" "0 < p"
  shows "isFin (drawdownLoop vals (Fin p) (Fin d))"
  using assms
proof (induction vals arbitrary: p d)
  case Nil
  show ?case by simp
next
  case (Cons v vals)
  then obtain x where x: "v = Fin x" by (auto simp: isFin_iff)
  let ?p' = "if x > p then x else p"
  have p': "0 < ?p'" using Cons.prems(2) by simp
  let ?dd = "(?p' - x) / ?p'"
  let ?d' = "if ?dd > d then ?dd else d"
  have "isFin (drawdownLoop vals (Fin ?p') (Fin ?d'))"
    using Cons.IH[OF _ p'] Cons.prems(1) by simp
  moreover have "drawdownLoop (v # vals) (Fin p) (Fin d) = drawdownLoop vals (Fin ?p') (Fin ?d')"
    using Cons.prems(2) by (simp add: x Let_def minus_number_def)
  ultimately show ?case by simp
qed

lemma simulateScenario_finite:
  assumes fa: "finiteAssumptions A" and al: "finiteAllocations (allocations pf)"
    and m: "finiteMacro m" and h: "1 \<le> horizonMonths cfg"
  shows "finiteResult (fst (simulateScenario A pf cfg i m rng))"
proof -
  let ?h = "real (horizonMonths cfg)"
  have h0: "0 \<le> ?h" "?h \<noteq> 0" using h by simp_all
  obtain ar s1 where ar: "assetLoop (assetData A) (allocations pf) m (Fin ?h) (ASSETS A) Map.empty rng = (ar, s1)"
    by (cases "assetLoop (assetData A) (allocations pf) m (Fin ?h) (ASSETS A) Map.empty rng")
  have "finiteMap (fst (assetLoop (assetData A) (allocations pf) m (Fin ?h) (ASSETS A) Map.empty rng))"
    by (rule assetLoop_finite) (use fa m in \<open>auto simp: finiteAssumptions_def list_all_iff finiteMap_def\<close>)
  then have far: "finiteMap ar" by (simp add: ar)
  obtain mr where mr: "monthlyReturnOf (allocations pf) ar (Fin ?h) = Fin mr"
    using monthlyReturnOf_Fin[OF al far h0(2)] by (auto simp: isFin_iff)
  obtain pth s2 where pth: "pathLoop (Fin mr) (horizonMonths cfg) [Fin 1] s1 = (pth, s2)"
    by (cases "pathLoop (Fin mr) (horizonMonths cfg) [Fin 1] s1")
  have "list_all isFin (fst (pathLoop (Fin mr) (horizonMonths cfg) [Fin 1] s1))
         \<and> first_num (fst (pathLoop (Fin mr) (horizonMonths cfg) [Fin 1] s1)) = first_num [Fin 1]"
    by (rule pathLoop_finite) simp_all
  then have pf: "list_all isFin pth" "first_num pth = Fin 1" by (simp_all add: pth first_num_def)
  then have ne: "pth \<noteq> []" by (auto simp: first_num_def)
  obtain l where l: "last_num pth = Fin l" using last_num_Fin[OF ne pf(1)] by (auto simp: isFin_iff)
  have dd: "isFin (drawdownLoop pth (Fin 1) (Fin 0))" by (rule drawdownLoop_Fin[OF pf(1)]) simp
  show ?thesis
    using dd by (simp add: simulateScenario_def ar mr pth pf(2) l Let_def finiteResult_def minus_number_def)
qed

lemma resultsLoop_finite:
  assumes fa: "finiteAssumptions A" and al: "finiteAllocations (allocations pf)"
    and h: "1 \<le> horizonMonths cfg"
  shows "list_all finiteMacro ms \<Longrightarrow> list_all finiteResult (resultsLoop A pf cfg i ms rng)"
proof (induction ms arbitrary: i rng)
  case Nil
  show ?case by simp
next
  case (Cons m ms)
  obtain r s1 where r: "simulateScenario A pf cfg i m rng = (r, s1)"
    by (cases "simulateScenario A pf cfg i m rng")
  have "finiteResult r" using simulateScenario_finite[OF fa al _ h, of m i rng] Cons.prems by (simp add: r)
  then show ?case using Cons by (simp add: r)
qed

lemma runMonteCarlo_valid:
  assumes "validInput A pf cfg" "runMonteCarlo A amb pf cfg sd = Inr s"
  shows "\<exists>results. s = summarize A amb pf cfg results \<and> length results = numScenarios cfg
           \<and> map scenarioId results = [0 ..< numScenarios cfg] \<and> list_all finiteResult results"
proof -
  let ?rng = "SeededRNG_new (nullish sd (Fin (of_int (now_rng amb))))"
  from assms(2) obtain ms s1 where ms: "generateScenarios cfg (regimes A) ?rng = Inr (ms, s1)"
    by (cases "generateScenarios cfg (regimes A) ?rng") (auto simp: runMonteCarlo_def)
  have fm: "list_all finiteMacro ms"
    using generateScenarios_finite[OF _ ms] assms(1) by (simp add: validInput_def)
  let ?res = "resultsLoop A pf cfg 0 ms s1"
  have "s = summarize A amb pf cfg ?res" using assms(2) by (simp add: runMonteCarlo_def ms)
  moreover have "length ?res = numScenarios cfg"
    using generateScenarios_length[OF ms] by (simp add: resultsLoop_length)
  moreover have "map scenarioId ?res = [0 ..< numScenarios cfg]"
    using generateScenarios_length[OF ms] by (simp add: resultsLoop_ids)
  moreover have "list_all finiteResult ?res"
    using resultsLoop_finite[OF _ _ _ fm] assms(1) by (simp add: validInput_def)
  ultimately show ?thesis by blast
qed

section \<open>Sorting finite numbers\<close>

lemma insert_by_minus:
  "insert_by (\<lambda>a b. a - b) (Fin x) (map Fin ys) = map Fin (insort x ys)"
  by (induction ys) (auto simp: minus_number_def)

lemma sort_by_minus: "sort_by (\<lambda>a b. a - b) (map Fin xs) = map Fin (sort xs)"
  by (induction xs) (simp_all add: insert_by_minus)

lemma insert_by_key:
  assumes "isFin (f x)" "list_all (\<lambda>y. isFin (f y)) ys"
  shows "insert_by (\<lambda>a b. f a - f b) x ys = insort_key (\<lambda>y. realOf (f y)) x ys"
  using assms by (induction ys) (auto simp: minus_number_def isFin_iff realOf_def)

lemma sort_by_key:
  assumes "list_all (\<lambda>y. isFin (f y)) xs"
  shows "sort_by (\<lambda>a b. f a - f b) xs = sort_key (\<lambda>y. realOf (f y)) xs"
  using assms
proof (induction xs)
  case Nil
  show ?case by simp
next
  case (Cons x xs)
  have "list_all (\<lambda>y. isFin (f y)) (sort_key (\<lambda>y. realOf (f y)) xs)"
    using Cons.prems by (simp add: list_all_iff)
  then show ?case using Cons by (simp add: insert_by_key)
qed

lemma finite_returns:
  assumes "list_all finiteResult results"
  shows "map portfolioReturn results = map Fin (map (\<lambda>r. realOf (portfolioReturn r)) results)"
  using assms by (induction results) (auto simp: finiteResult_def isFin_iff realOf_def)

lemma sortedReturns_finite:
  assumes "list_all finiteResult results"
  shows "sortedReturns results = map Fin (sort (map (\<lambda>r. realOf (portfolioReturn r)) results))"
  unfolding sortedReturns_def finite_returns[OF assms] by (rule sort_by_minus)

lemma sortedResults_finite:
  assumes "list_all finiteResult results"
  shows "sortedResults results = sort_key (\<lambda>r. realOf (portfolioReturn r)) results"
  unfolding sortedResults_def
  by (rule sort_by_key) (use assms in \<open>auto simp: list_all_iff finiteResult_def\<close>)

lemma sort_by_mset: "mset (sort_by cmp xs) = mset xs"
proof -
  have ins: "\<And>x ys. mset (insert_by cmp x ys) = add_mset x (mset ys)"
  proof -
    fix x ys show "mset (insert_by cmp x ys) = add_mset x (mset ys)"
      by (induction ys) auto
  qed
  show ?thesis by (induction xs) (simp_all add: ins)
qed

lemma sort_by_length: "length (sort_by cmp xs) = length xs"
  by (metis sort_by_mset size_mset)

lemma worst_best_sizes:
  "length (worst_of srt) \<le> 3" "length (best_of srt) \<le> 3"
  by (simp_all add: worst_of_def best_of_def)

lemma worst_best_disjoint:
  assumes "distinct srt" "6 \<le> length srt"
  shows "set (worst_of srt) \<inter> set (best_of srt) = {}"
  unfolding worst_of_def best_of_def set_rev
  by (rule set_take_disj_set_drop_if_distinct) (use assms in auto)

section \<open>Worst and best scenarios\<close>

lemma worstScenarios_summarize:
  "worstScenarios (summarize A amb pf cfg results) = worst_of (sortedResults results)"
  by (simp add: summarize_def Let_def)

lemma bestScenarios_summarize:
  "bestScenarios (summarize A amb pf cfg results) = best_of (sortedResults results)"
  by (simp add: summarize_def Let_def)

lemma validInput_example: "validInput exampleAssumptions balanced (exampleConfig (Suc n))"
  by (simp add: validInput_def finiteAssumptions_def regimesAvailable_def exampleAssumptions_def
      exampleConfig_def exampleAsset_def exampleRegime_def finiteAsset_def ALL_ASSETS_def
      finiteAllocations_balanced)

lemma sorted_finite_key:
  assumes "sorted (map (\<lambda>r. realOf (f r)) xs)" "\<forall>r \<in> set xs. isFin (f r)"
  shows "sorted_wrt (\<lambda>a b. f a \<le> f b) xs"
  using assms
proof (induction xs)
  case Nil
  show ?case by simp
next
  case (Cons r rs)
  have "\<And>x. x \<in> set rs \<Longrightarrow> f r \<le> f x"
  proof -
    fix x assume x: "x \<in> set rs"
    then have "realOf (f r) \<le> realOf (f x)" using Cons.prems(1) by auto
    moreover obtain a b where "f r = Fin a" "f x = Fin b"
      using Cons.prems(2) x by (auto simp: isFin_iff)
    ultimately show "f r \<le> f x" by (simp add: realOf_def)
  qed
  then show ?case using Cons by auto
qed


lemma single_scenario:
  assumes "numScenarios cfg = 1" "runMonteCarlo A amb pf cfg sd = Inr s"
  shows "worstScenarios s = bestScenarios s \<and> length (worstScenarios s) = 1"
proof -
  obtain results where res: "s = summarize A amb pf cfg results" "length results = numScenarios cfg"
    using runMonteCarlo_summary[OF assms(2)] by blast
  then obtain r where r: "results = [r]" using assms(1) by (cases results) auto
  show ?thesis
    by (simp add: res(1) r worstScenarios_summarize bestScenarios_summarize sortedResults_def
        worst_of_def best_of_def)
qed


text \<open>
  Claim C9, as stated, fails for batches of fewer than six scenarios: the two lists are
  slices of the same sorted batch and overlap. With a single scenario both lists consist
  of that scenario.
\<close>

theorem worst_best_overlap:
  "map_sum id (\<lambda>s. worstScenarios s = bestScenarios s \<and> length (worstScenarios s) = 1)
     (runMonteCarlo exampleAssumptions exampleAmbient balanced (exampleConfig 1) (Some (Fin 42)))
   = Inr True"
proof -
  obtain s where s: "runMonteCarlo exampleAssumptions exampleAmbient balanced (exampleConfig 1) (Some (Fin 42)) = Inr s"
    using example_runs by blast
  have "numScenarios (exampleConfig 1) = 1" by (simp add: exampleConfig_def)
  from single_scenario[OF this s] show ?thesis unfolding s by auto
qed

text \<open>
  Claim C9, amended. For valid input, \<open>worstScenarios\<close> and \<open>bestScenarios\<close> are taken
  from one batch holding every simulated scenario once (ids \<open>0..n-1\<close>), sorted ascending
  by portfolio return: the first three and the last three (highest first). Each list has
  at most three elements, and with six scenarios or more they share none.
\<close>

theorem worst_best_scenarios:
  assumes "validInput A pf cfg" and "runMonteCarlo A amb pf cfg sd = Inr s"
  shows "\<exists>batch. length batch = numScenarios cfg
           \<and> mset (map scenarioId batch) = mset [0 ..< numScenarios cfg]
           \<and> sorted_wrt (\<lambda>a b. portfolioReturn a \<le> portfolioReturn b) batch
           \<and> worstScenarios s = take 3 batch
           \<and> bestScenarios s = rev (drop (length batch - 3) batch)
           \<and> length (worstScenarios s) \<le> 3 \<and> length (bestScenarios s) \<le> 3
           \<and> (6 \<le> numScenarios cfg \<longrightarrow> set (worstScenarios s) \<inter> set (bestScenarios s) = {})"
proof -
  obtain results where res: "s = summarize A amb pf cfg results" "length results = numScenarios cfg"
      "map scenarioId results = [0 ..< numScenarios cfg]" "list_all finiteResult results"
    using runMonteCarlo_valid[OF assms] by blast
  let ?key = "\<lambda>r. realOf (portfolioReturn r)"
  let ?batch = "sortedResults results"
  have batch: "?batch = sort_key ?key results" by (rule sortedResults_finite[OF res(4)])
  have len: "length ?batch = numScenarios cfg" by (simp add: batch res(2))
  have ids: "mset (map scenarioId ?batch) = mset [0 ..< numScenarios cfg]"
    by (metis batch mset_map mset_sort res(3))
  have "sorted (map ?key ?batch)" unfolding batch by (rule sorted_sort_key)
  moreover have fin: "\<forall>r \<in> set ?batch. isFin (portfolioReturn r)"
    using res(4) by (auto simp: batch list_all_iff finiteResult_def)
  ultimately have srt: "sorted_wrt (\<lambda>a b. portfolioReturn a \<le> portfolioReturn b) ?batch"
    by (rule sorted_finite_key)
  have "distinct (map scenarioId ?batch)"
    using ids by (metis distinct_upt mset_eq_imp_distinct_iff)
  then have dist: "distinct ?batch" by (simp add: distinct_map)
  have disj: "6 \<le> numScenarios cfg \<longrightarrow> set (worst_of ?batch) \<inter> set (best_of ?batch) = {}"
    using worst_best_disjoint[OF dist] len by simp
  show ?thesis
    apply (rule exI[of _ ?batch])
    using len ids srt disj worst_best_sizes[of ?batch]
    by (simp add: res(1) worstScenarios_summarize bestScenarios_summarize worst_of_def best_of_def)
qed

theorem worst_best_scenarios_witness:
  "validInput exampleAssumptions balanced (exampleConfig 2000)
   \<and> (\<exists>s. runMonteCarlo exampleAssumptions exampleAmbient balanced (exampleConfig 2000) (Some (Fin 42)) = Inr s
       \<and> (\<exists>batch. length batch = 2000
           \<and> sorted_wrt (\<lambda>a b. portfolioReturn a \<le> portfolioReturn b) batch
           \<and> worstScenarios s = take 3 batch
           \<and> bestScenarios s = rev (drop (length batch - 3) batch)
           \<and> set (worstScenarios s) \<inter> set (bestScenarios s) = {}))"
proof -
  have v: "validInput exampleAssumptions balanced (exampleConfig 2000)"
    using validInput_example[of 1999] by simp
  obtain s where s: "runMonteCarlo exampleAssumptions exampleAmbient balanced (exampleConfig 2000) (Some (Fin 42)) = Inr s"
    using example_runs by blast
  have n: "numScenarios (exampleConfig 2000) = 2000" by (simp add: exampleConfig_def)
  from worst_best_scenarios[OF v s] obtain batch where
    "length batch = 2000" "sorted_wrt (\<lambda>a b. portfolioReturn a \<le> portfolioReturn b) batch"
    "worstScenarios s = take 3 batch" "bestScenarios s = rev (drop (length batch - 3) batch)"
    "set (worstScenarios s) \<inter> set (bestScenarios s) = {}"
    unfolding n by auto
  then show ?thesis using v s by blast
qed

section \<open>Percentiles and tail risk\<close>

lemma floor_le_ceiling_real: "\<lfloor>t::real\<rfloor> \<le> \<lceil>t\<rceil>"
  by linarith

lemma ceiling_le_floor_Suc: "\<lceil>t::real\<rceil> \<le> \<lfloor>t\<rfloor> + 1"
  by linarith

lemma index_bounds:
  assumes "0 \<le> t" "t \<le> real n - 1"
  shows "nat \<lfloor>t\<rfloor> < n" "nat \<lceil>t\<rceil> < n" "nat \<lfloor>t\<rfloor> \<le> nat \<lceil>t\<rceil>"
proof -
  have "t \<le> of_int (int n - 1)" using assms(2) by simp
  then have "\<lceil>t\<rceil> \<le> int n - 1" by (rule ceiling_le)
  moreover have "0 \<le> \<lfloor>t\<rfloor>" using assms(1) by simp
  moreover have "\<lfloor>t\<rfloor> \<le> \<lceil>t\<rceil>" by linarith
  ultimately show "nat \<lfloor>t\<rfloor> < n" "nat \<lceil>t\<rceil> < n" "nat \<lfloor>t\<rfloor> \<le> nat \<lceil>t\<rceil>" by linarith+
qed

lemma interp_bounds:
  assumes s: "sorted xs" and t: "0 \<le> t" "t \<le> real (length xs) - 1"
  shows "xs ! nat \<lfloor>t\<rfloor> \<le> interp xs t" "interp xs t \<le> xs ! nat \<lceil>t\<rceil>"
proof -
  note ib = index_bounds[OF t]
  have le: "xs ! nat \<lfloor>t\<rfloor> \<le> xs ! nat \<lceil>t\<rceil>" using s ib by (simp add: sorted_nth_mono)
  have f: "0 \<le> t - of_int \<lfloor>t\<rfloor>" "t - of_int \<lfloor>t\<rfloor> \<le> 1" by linarith+
  let ?d = "xs ! nat \<lceil>t\<rceil> - xs ! nat \<lfloor>t\<rfloor>"
  have d: "0 \<le> ?d" using le by simp
  have 1: "0 \<le> ?d * (t - of_int \<lfloor>t\<rfloor>)" using d f(1) by simp
  have 2: "?d * (t - of_int \<lfloor>t\<rfloor>) \<le> ?d" using d f(2) by (simp add: mult_left_le)
  show "xs ! nat \<lfloor>t\<rfloor> \<le> interp xs t" using 1 by (simp add: interp_def)
  show "interp xs t \<le> xs ! nat \<lceil>t\<rceil>" using 2 le by (auto simp: interp_def)
qed

lemma interp_mono:
  assumes s: "sorted xs" and t: "0 \<le> t" "t \<le> t'" "t' \<le> real (length xs) - 1"
  shows "interp xs t \<le> interp xs t'"
proof (cases "\<lceil>t\<rceil> \<le> \<lfloor>t'\<rfloor>")
  case True
  have t1: "t \<le> real (length xs) - 1" and t2: "0 \<le> t'" using t by linarith+
  have "interp xs t \<le> xs ! nat \<lceil>t\<rceil>" by (rule interp_bounds(2)[OF s t(1) t1])
  also have "\<dots> \<le> xs ! nat \<lfloor>t'\<rfloor>"
  proof (rule sorted_nth_mono[OF s])
    show "nat \<lceil>t\<rceil> \<le> nat \<lfloor>t'\<rfloor>" using True by (rule nat_mono)
    show "nat \<lfloor>t'\<rfloor> < length xs" by (rule index_bounds(1)[OF t2 t(3)])
  qed
  also have "\<dots> \<le> interp xs t'" by (rule interp_bounds(1)[OF s t2 t(3)])
  finally show ?thesis .
next
  case False
  then have lt: "\<lfloor>t'\<rfloor> < \<lceil>t\<rceil>" by simp
  have "\<lfloor>t\<rfloor> \<le> \<lfloor>t'\<rfloor>" using t(2) by (rule floor_mono)
  then have fl: "\<lfloor>t'\<rfloor> = \<lfloor>t\<rfloor>" using lt ceiling_le_floor_Suc[of t] by linarith
  then have ce: "\<lceil>t\<rceil> = \<lfloor>t\<rfloor> + 1" using lt ceiling_le_floor_Suc[of t] by linarith
  have "of_int \<lfloor>t\<rfloor> < t" using ce by linarith
  then have "of_int \<lfloor>t'\<rfloor> < t'" using fl t(2) by linarith
  then have ce': "\<lceil>t'\<rceil> = \<lfloor>t\<rfloor> + 1" using fl by linarith
  have t1: "t \<le> real (length xs) - 1" using t by linarith
  let ?d = "xs ! nat (\<lfloor>t\<rfloor> + 1) - xs ! nat \<lfloor>t\<rfloor>"
  have "xs ! nat \<lfloor>t\<rfloor> \<le> xs ! nat \<lceil>t\<rceil>"
    using s index_bounds[OF t(1) t1] by (simp add: sorted_nth_mono)
  then have d: "0 \<le> ?d" by (simp add: ce)
  have "?d * (t - of_int \<lfloor>t\<rfloor>) \<le> ?d * (t' - of_int \<lfloor>t\<rfloor>)"
    using d t(2) by (simp add: mult_left_mono)
  then show ?thesis by (simp add: interp_def fl ce ce')
qed

lemma elem_at_Fin:
  assumes "0 \<le> i" "nat i < length xs"
  shows "to_number (elem_at (map Fin xs) (Fin (of_int i))) = Fin (xs ! nat i)"
  using assms by (simp add: elem_at_def index_of_def to_number_def)

lemma percentile_interp:
  assumes "xs \<noteq> []" "0 \<le> p" "p \<le> 100"
  shows "percentile (map Fin xs) (Fin p) = Fin (interp xs (p / 100 * (real (length xs) - 1)))"
proof -
  let ?t = "p / 100 * (real (length xs) - 1)"
  have n: "1 \<le> real (length xs)" using assms(1) by (cases xs) simp_all
  have t0: "0 \<le> ?t" using assms(2) n by simp
  have "?t \<le> 1 * (real (length xs) - 1)"
    using assms(3) n by (intro mult_right_mono) simp_all
  then have t1: "?t \<le> real (length xs) - 1" by simp
  note ib = index_bounds[OF t0 t1]
  have idx: "Fin p / Fin 100 * (len (map Fin xs) - Fin 1) = Fin ?t"
    by (simp add: len_def minus_number_def)
  have fl0: "0 \<le> \<lfloor>?t\<rfloor>" and ce0: "0 \<le> \<lceil>?t\<rceil>" using t0 by linarith+
  have lo: "to_number (elem_at (map Fin xs) (Fin (of_int \<lfloor>?t\<rfloor>))) = Fin (xs ! nat \<lfloor>?t\<rfloor>)"
    by (rule elem_at_Fin[OF fl0 ib(1)])
  have hi: "to_number (elem_at (map Fin xs) (Fin (of_int \<lceil>?t\<rceil>))) = Fin (xs ! nat \<lceil>?t\<rceil>)"
    by (rule elem_at_Fin[OF ce0 ib(2)])
  show ?thesis
    unfolding percentile_def idx Let_def Math_floor.simps Math_ceil.simps lo hi
    by (simp add: strict_eq_def interp_def minus_number_def)
qed

lemma foldl_plus_Fin_list: "foldl (\<lambda>s v. s + v) (Fin a) (map Fin xs) = Fin (a + sum_list xs)"
  using foldl_plus_Fin[of a "\<lambda>x. x" xs] by simp

lemma mean_Fin:
  assumes "xs \<noteq> []"
  shows "mean (map Fin xs) = Fin (sum_list xs / real (length xs))"
  using assms by (simp add: mean_def foldl_plus_Fin_list len_def)

lemma foldl_sq_Fin:
  "foldl (\<lambda>s v. s + (v - Fin m) * (v - Fin m)) (Fin a) (map Fin xs)
     = Fin (a + sum_list (map (\<lambda>x. (x - m) * (x - m)) xs))"
  by (induction xs arbitrary: a) (simp_all add: minus_number_def add.assoc)

lemma stddev_Fin:
  assumes "xs \<noteq> []"
  shows "\<exists>sd. stddev (map Fin xs) = Fin sd \<and> 0 \<le> sd"
proof -
  let ?m = "sum_list xs / real (length xs)"
  let ?v = "sum_list (map (\<lambda>x. (x - ?m) * (x - ?m)) xs) / real (length xs)"
  have "0 \<le> sum_list (map (\<lambda>x. (x - ?m) * (x - ?m)) xs)"
    by (rule sum_list_nonneg) auto
  then have v: "0 \<le> ?v" by simp
  have "stddev (map Fin xs) = Fin (sqrt ?v)"
    using assms v by (simp add: stddev_def mean_Fin foldl_sq_Fin len_def Let_def)
  then show ?thesis using v by simp
qed

lemma sharpe_Fin:
  assumes "xs \<noteq> []"
  shows "isFin (sharpe_of cfg (map Fin xs))"
proof -
  obtain sd where sd: "stddev (map Fin xs) = Fin sd" using stddev_Fin[OF assms] by blast
  show ?thesis
    by (simp add: sharpe_of_def sd mean_Fin[OF assms] Let_def minus_number_def)
qed

lemma foldl_Math_max_Fin:
  "\<exists>m. foldl Math_max (Fin a) (map Fin xs) = Fin m"
  by (induction xs arbitrary: a) (simp_all add: Math_max_def)

lemma Math_max_list_Fin:
  assumes "xs \<noteq> []"
  shows "isFin (Math_max_list (map Fin xs))"
proof -
  obtain x xs' where x: "xs = x # xs'" using assms by (cases xs) auto
  have "Math_max NInf (Fin x) = Fin x" by (simp add: Math_max_def)
  then show ?thesis
    using foldl_Math_max_Fin[of x xs'] by (auto simp: Math_max_list_def x)
qed

lemma probLoss_Fin:
  assumes "xs \<noteq> []"
  shows "isFin (countNegative (map Fin xs) / len (map Fin xs))"
  using assms by (simp add: countNegative_def len_def)

lemma cutoff_div: "cutoff xs = nat \<lfloor>real (length xs) / 20\<rfloor>"
  by (simp add: cutoff_def)

lemma cutoff_small: "length xs < 20 \<Longrightarrow> cutoff xs = 0"
  by (simp add: cutoff_div)

lemma cvar95_NaN: "length xs < 20 \<Longrightarrow> cvar95_of xs = NaN"
  by (simp add: cvar95_of_def cutoff_small mean_def len_def inf_of_sign_def)

lemma cutoff_bounds:
  assumes "20 \<le> length xs"
  shows "1 \<le> cutoff xs" "real (cutoff xs) - 1 \<le> 5 / 100 * (real (length xs) - 1)" "cutoff xs \<le> length xs"
proof -
  let ?n = "real (length xs)"
  have n: "20 \<le> ?n" using assms by simp
  have fl: "of_int \<lfloor>?n / 20\<rfloor> \<le> ?n / 20" by (rule of_int_floor_le)
  have "1 \<le> ?n / 20" using n by simp
  then have one: "1 \<le> \<lfloor>?n / 20\<rfloor>" by (simp add: le_floor_iff)
  then show "1 \<le> cutoff xs" unfolding cutoff_div by linarith
  have c: "real (cutoff xs) = of_int \<lfloor>?n / 20\<rfloor>"
    unfolding cutoff_div using one by simp
  show "real (cutoff xs) - 1 \<le> 5 / 100 * (real (length xs) - 1)"
    unfolding c using fl by simp
  have "real (cutoff xs) \<le> ?n" unfolding c using fl n by linarith
  then show "cutoff xs \<le> length xs" by simp
qed

lemma sum_list_le_bound:
  "(\<And>y. y \<in> set ys \<Longrightarrow> y \<le> M) \<Longrightarrow> sum_list ys \<le> real (length ys) * (M::real)"
proof (induction ys)
  case Nil
  show ?case by simp
next
  case (Cons a ys)
  have "a \<le> M" using Cons.prems by simp
  moreover have "sum_list ys \<le> real (length ys) * M" using Cons by simp
  ultimately show ?case by (simp add: algebra_simps)
qed

lemma tail_mean_le:
  assumes s: "sorted xs" and c: "1 \<le> c" "c \<le> length xs"
  shows "sum_list (take c xs) / real c \<le> xs ! (c - 1)"
proof -
  have "\<And>y. y \<in> set (take c xs) \<Longrightarrow> y \<le> xs ! (c - 1)"
  proof -
    fix y assume "y \<in> set (take c xs)"
    then obtain i where i: "i < c" "y = xs ! i" using c(2)
      by (auto simp: in_set_conv_nth)
    then show "y \<le> xs ! (c - 1)" using s c by (auto intro!: sorted_nth_mono)
  qed
  then have "sum_list (take c xs) \<le> real (length (take c xs)) * xs ! (c - 1)"
    by (rule sum_list_le_bound)
  moreover have "length (take c xs) = c" using c(2) by simp
  ultimately have "sum_list (take c xs) \<le> real c * xs ! (c - 1)" by simp
  then show ?thesis using c(1) by (simp add: pos_divide_le_eq mult.commute)
qed

lemma cvar_le_interp:
  assumes s: "sorted xs" and n: "20 \<le> length xs"
  shows "\<exists>cv. cvar95_of (map Fin xs) = Fin cv \<and> cv \<le> interp xs (5 / 100 * (real (length xs) - 1))"
proof -
  let ?c = "cutoff (map Fin xs)"
  let ?t = "5 / 100 * (real (length xs) - 1)"
  have n': "20 \<le> length (map Fin xs)" using n by simp
  note cb = cutoff_bounds[OF n', simplified length_map]
  have ne: "take ?c xs \<noteq> []" using cb(1) n by (cases xs) auto
  have cv: "cvar95_of (map Fin xs) = Fin (sum_list (take ?c xs) / real ?c)"
    using mean_Fin[OF ne] cb(3) by (simp add: cvar95_of_def take_map)
  have t0: "0 \<le> ?t" using n by simp
  have t1: "?t \<le> real (length xs) - 1" using n by simp
  have "of_int (int ?c - 1) \<le> ?t" using cb(2) by simp
  then have "int ?c - 1 \<le> \<lfloor>?t\<rfloor>" by (simp only: le_floor_iff)
  then have idx: "?c - 1 \<le> nat \<lfloor>?t\<rfloor>" by linarith
  have "sum_list (take ?c xs) / real ?c \<le> xs ! (?c - 1)" by (rule tail_mean_le[OF s cb(1) cb(3)])
  also have "\<dots> \<le> xs ! nat \<lfloor>?t\<rfloor>"
    by (rule sorted_nth_mono[OF s idx index_bounds(1)[OF t0 t1]])
  also have "\<dots> \<le> interp xs ?t" by (rule interp_bounds(1)[OF s t0 t1])
  finally show ?thesis using cv by blast
qed

lemma percentile_mono:
  assumes s: "sorted xs" and ne: "xs \<noteq> []" and p: "0 \<le> p" "p \<le> q" "q \<le> 100"
  shows "percentile (map Fin xs) (Fin p) \<le> percentile (map Fin xs) (Fin q)"
proof -
  have n: "0 \<le> real (length xs) - 1" using ne by (cases xs) simp_all
  have p100: "p \<le> 100" and q0: "0 \<le> q" using p by linarith+
  have "interp xs (p / 100 * (real (length xs) - 1)) \<le> interp xs (q / 100 * (real (length xs) - 1))"
  proof (rule interp_mono[OF s])
    show "0 \<le> p / 100 * (real (length xs) - 1)" using p(1) n by simp
    show "p / 100 * (real (length xs) - 1) \<le> q / 100 * (real (length xs) - 1)"
      using p(2) n by (intro mult_right_mono) simp_all
    have "q / 100 * (real (length xs) - 1) \<le> 1 * (real (length xs) - 1)"
      using p(3) n by (intro mult_right_mono) simp_all
    then show "q / 100 * (real (length xs) - 1) \<le> real (length xs) - 1" by simp
  qed
  then show ?thesis
    by (simp add: percentile_interp[OF ne p(1) p100] percentile_interp[OF ne q0 p(3)])
qed

lemma metrics_summary:
  assumes "validInput A pf cfg" "runMonteCarlo A amb pf cfg sd = Inr s"
  shows "\<exists>results xs. metrics s = metrics_of cfg results \<and> sortedReturns results = map Fin xs
           \<and> sorted xs \<and> length xs = numScenarios cfg \<and> list_all finiteResult results
           \<and> length results = numScenarios cfg"
proof -
  obtain results where res: "s = summarize A amb pf cfg results" "length results = numScenarios cfg"
      "list_all finiteResult results"
    using runMonteCarlo_valid[OF assms] by blast
  let ?xs = "sort (map (\<lambda>r. realOf (portfolioReturn r)) results)"
  have "sortedReturns results = map Fin ?xs" by (rule sortedReturns_finite[OF res(3)])
  moreover have "sorted ?xs" by simp
  moreover have "length ?xs = numScenarios cfg" by (simp add: res(2))
  ultimately show ?thesis
    using res(2,3) unfolding res(1) metrics_summarize by blast
qed

lemma percentiles_monotone:
  assumes "validInput A pf cfg" "runMonteCarlo A amb pf cfg sd = Inr s"
  shows "p5Return (metrics s) \<le> p25Return (metrics s) \<and> p25Return (metrics s) \<le> p50Return (metrics s)
       \<and> p50Return (metrics s) \<le> p75Return (metrics s) \<and> p75Return (metrics s) \<le> p95Return (metrics s)"
proof -
  obtain results xs where m: "metrics s = metrics_of cfg results" "sortedReturns results = map Fin xs"
      "sorted xs" "length xs = numScenarios cfg"
    using metrics_summary[OF assms] by blast
  have ne: "xs \<noteq> []" using m(4) assms(1) by (auto simp: validInput_def)
  show ?thesis
    unfolding m(1) by (simp add: metrics_of_def m(2) Let_def percentile_mono[OF m(3) ne])
qed

lemma cvar_le_p5:
  assumes "validInput A pf cfg" "20 \<le> numScenarios cfg" "runMonteCarlo A amb pf cfg sd = Inr s"
  shows "cvar95 (metrics s) \<le> p5Return (metrics s)"
proof -
  obtain results xs where m: "metrics s = metrics_of cfg results" "sortedReturns results = map Fin xs"
      "sorted xs" "length xs = numScenarios cfg"
    using metrics_summary[OF assms(1,3)] by blast
  have n: "20 \<le> length xs" using m(4) assms(2) by simp
  then have ne: "xs \<noteq> []" by auto
  obtain cv where cv: "cvar95_of (map Fin xs) = Fin cv" "cv \<le> interp xs (5 / 100 * (real (length xs) - 1))"
    using cvar_le_interp[OF m(3) n] by blast
  have "percentile (map Fin xs) (Fin 5) = Fin (interp xs (5 / 100 * (real (length xs) - 1)))"
    by (rule percentile_interp[OF ne]) simp_all
  then show ?thesis
    unfolding m(1) using cv by (simp add: metrics_of_def m(2) Let_def)
qed

lemma metrics_finite:
  assumes "validInput A pf cfg" "20 \<le> numScenarios cfg" "runMonteCarlo A amb pf cfg sd = Inr s"
  shows "finiteMetrics (metrics s)"
proof -
  obtain results xs where m: "metrics s = metrics_of cfg results" "sortedReturns results = map Fin xs"
      "sorted xs" "length xs = numScenarios cfg" "list_all finiteResult results"
      "length results = numScenarios cfg"
    using metrics_summary[OF assms(1,3)] by blast
  have n: "20 \<le> length xs" using m(4) assms(2) by simp
  then have ne: "xs \<noteq> []" by auto
  have pc: "\<And>p. 0 \<le> p \<Longrightarrow> p \<le> 100 \<Longrightarrow> isFin (percentile (map Fin xs) (Fin p))"
    by (simp add: percentile_interp[OF ne])
  obtain sd where sd: "stddev (map Fin xs) = Fin sd" using stddev_Fin[OF ne] by blast
  obtain cv where cv: "cvar95_of (map Fin xs) = Fin cv" using cvar_le_interp[OF m(3) n] by blast
  obtain ds where ds: "map drawdown results = map Fin ds"
    using m(5) by (metis list_all_isFin list_all_iff finiteResult_def list.pred_map comp_def)
  have "ds \<noteq> []" using ds m(6) assms(2) by (cases ds) auto
  then have dd: "isFin (Math_max_list (map drawdown results))" unfolding ds by (rule Math_max_list_Fin)
  show ?thesis
    unfolding m(1) finiteMetrics_def
    using dd by (simp add: metrics_of_def m(2) Let_def pc mean_Fin[OF ne] sd cv sharpe_Fin[OF ne]
        probLoss_Fin[OF ne])
qed

lemma few_scenarios_cvar:
  assumes "numScenarios cfg < 20" "runMonteCarlo A amb pf cfg sd = Inr s"
  shows "cvar95 (metrics s) = NaN"
proof -
  obtain results where res: "s = summarize A amb pf cfg results" "length results = numScenarios cfg"
    using runMonteCarlo_summary[OF assms(2)] by blast
  have "length (sortedReturns results) < 20"
    using assms(1) res(2) by (simp add: sortedReturns_def sort_by_length)
  then show ?thesis
    by (simp add: res(1) metrics_summarize metrics_of_def Let_def cvar95_NaN)
qed


text \<open>
  Claim C3 at ten scenarios. \<open>Math.floor(10 * 0.05)\<close> is 0, the tail is empty and
  \<open>mean\<close> divides 0 by 0: \<open>cvar95\<close> is \<open>NaN\<close>, not a finite number. (With twenty
  scenarios or more every metric is finite, lemma \<open>metrics_finite\<close>.)
\<close>

theorem cvar95_not_finite_at_10:
  "map_sum id (cvar95 \<circ> metrics)
     (runMonteCarlo exampleAssumptions exampleAmbient balanced (exampleConfig 10) (Some (Fin 42)))
   = Inr NaN"
proof -
  obtain s where s: "runMonteCarlo exampleAssumptions exampleAmbient balanced (exampleConfig 10) (Some (Fin 42)) = Inr s"
    using example_runs by blast
  have "numScenarios (exampleConfig 10) < 20" by (simp add: exampleConfig_def)
  from few_scenarios_cvar[OF this s] show ?thesis unfolding s by simp
qed

text \<open>
  Claim C2 at ten scenarios. Every comparison with \<open>NaN\<close> is false, so
  \<open>cvar95 <= p5Return\<close> does not hold. (The percentiles are ordered for every valid
  input, lemma \<open>percentiles_monotone\<close>, and \<open>cvar95 <= p5Return\<close> holds from twenty
  scenarios on, lemma \<open>cvar_le_p5\<close>.)
\<close>

theorem cvar95_not_below_p5_at_10:
  "map_sum id (\<lambda>s. cvar95 (metrics s) \<le> p5Return (metrics s))
     (runMonteCarlo exampleAssumptions exampleAmbient balanced (exampleConfig 10) (Some (Fin 42)))
   = Inr False"
proof -
  obtain s where s: "runMonteCarlo exampleAssumptions exampleAmbient balanced (exampleConfig 10) (Some (Fin 42)) = Inr s"
    using example_runs by blast
  have "numScenarios (exampleConfig 10) < 20" by (simp add: exampleConfig_def)
  from few_scenarios_cvar[OF this s] show ?thesis unfolding s by simp
qed

section \<open>Variation operators and selection\<close>

lemma pick_Some:
  assumes "xs \<noteq> []" "0 \<le> r" "r < 1"
  shows "\<exists>x. pick xs (Fin r) = Some x \<and> x \<in> set xs"
proof -
  let ?n = "real (length xs)"
  have n: "0 < ?n" using assms(1) by simp
  have lo: "0 \<le> r * ?n" using assms(2) by simp
  have "r * ?n < 1 * ?n" using assms(3) n by (intro mult_strict_right_mono)
  then have hi: "r * ?n < ?n" by simp
  have f0: "0 \<le> \<lfloor>r * ?n\<rfloor>" using lo by simp
  have "\<lfloor>r * ?n\<rfloor> < int (length xs)" using hi by (simp add: floor_less_iff)
  then have lt: "nat \<lfloor>r * ?n\<rfloor> < length xs" using f0 by linarith
  have "pick xs (Fin r) = Some (xs ! nat \<lfloor>r * ?n\<rfloor>)"
    using f0 lt by (simp add: pick_def elem_at_def index_of_def len_def)
  then show ?thesis using lt by simp
qed

lemma pickAsset_Inr:
  assumes "xs \<noteq> []"
  shows "\<exists>a s'. pickAsset xs s = Inr (a, s') \<and> a \<in> set xs"
proof -
  obtain u s1 where u: "rng_next s = (Fin u, s1)" "0 \<le> u" "u < 1" using rng_next_range by blast
  obtain a where "pick xs (Fin u) = Some a" "a \<in> set xs" using pick_Some[OF assms u(2,3)] by blast
  then show ?thesis by (simp add: pickAsset_def u(1))
qed

lemma ALL_ASSETS_ne: "ALL_ASSETS \<noteq> []"
  by (simp add: ALL_ASSETS_def)

lemma pointMutation_Inr: "\<exists>r s'. pointMutation al rate s = Inr (r, s')"
proof -
  obtain a s1 where a: "pickAsset ALL_ASSETS s = Inr (a, s1)" using pickAsset_Inr[OF ALL_ASSETS_ne] by blast
  obtain b s2 where b: "pickAsset ALL_ASSETS s1 = Inr (b, s2)" using pickAsset_Inr[OF ALL_ASSETS_ne] by blast
  show ?thesis by (simp add: pointMutation_def a b Let_def split: prod.splits)
qed

lemma swapMutation_Inr: "\<exists>r s'. swapMutation al s = Inr (r, s')"
proof -
  obtain a s1 where a: "pickAsset ALL_ASSETS s = Inr (a, s1)" using pickAsset_Inr[OF ALL_ASSETS_ne] by blast
  obtain b s2 where b: "pickAsset ALL_ASSETS s1 = Inr (b, s2)" using pickAsset_Inr[OF ALL_ASSETS_ne] by blast
  show ?thesis by (simp add: swapMutation_def a b Let_def)
qed

lemma zeroOut_Inr: "\<exists>r s'. zeroOut al s = Inr (r, s')"
proof -
  obtain kill s1 where k: "pickAsset ALL_ASSETS s = Inr (kill, s1)" using pickAsset_Inr[OF ALL_ASSETS_ne] by blast
  let ?r1 = "al(kill \<mapsto> Fin 0)"
  let ?rem = "filter (\<lambda>a. a \<noteq> kill \<and> nullish (?r1 a) (Fin 0) > Fin 0) ALL_ASSETS"
  show ?thesis
  proof (cases "?rem = []")
    case True
    then show ?thesis by (simp add: zeroOut_def k Let_def)
  next
    case False
    obtain t s2 where t: "pickAsset ?rem s1 = Inr (t, s2)" using pickAsset_Inr[OF False] by blast
    show ?thesis using False t by (simp add: zeroOut_def k Let_def)
  qed
qed

lemma hedgeShift_Inr: "\<exists>r s'. hedgeShift al rate s = Inr (r, s')"
proof -
  have h: "hedges \<noteq> []" and rk: "risky \<noteq> []" by (simp_all add: hedges_def risky_def)
  obtain a s1 where a: "pickAsset hedges s = Inr (a, s1)" using pickAsset_Inr[OF h] by blast
  obtain b s2 where b: "pickAsset risky s1 = Inr (b, s2)" using pickAsset_Inr[OF rk] by blast
  show ?thesis by (simp add: hedgeShift_def a b Let_def split: prod.splits)
qed

lemma mutate_Inr: "\<exists>r s'. mutate al rate s = Inr (normalize r, s')"
proof -
  obtain u s1 where u: "rng_next s = (u, s1)" by (cases "rng_next s")
  let ?step = "if u < Fin 0.3 then pointMutation al rate s1
               else if u < Fin 0.55 then Inr (gaussianNoise ALL_ASSETS al rate s1)
               else if u < Fin 0.7 then swapMutation al s1
               else if u < Fin 0.85 then zeroOut al s1
               else hedgeShift al rate s1"
  have "\<exists>r s'. ?step = Inr (r, s')"
    using pointMutation_Inr[of al rate s1] swapMutation_Inr[of al s1] zeroOut_Inr[of al s1]
      hedgeShift_Inr[of al rate s1]
    by (cases "gaussianNoise ALL_ASSETS al rate s1") auto
  then obtain r s' where "?step = Inr (r, s')" by blast
  then show ?thesis unfolding mutate_def u Let_def prod.case by (intro exI[of _ r] exI[of _ s']) simp
qed

lemma pickMember_Some:
  assumes "pop \<noteq> []"
  shows "\<exists>p s'. pickMember pop s = (Some p, s') \<and> p \<in> set pop"
proof -
  obtain u s1 where u: "rng_next s = (Fin u, s1)" "0 \<le> u" "u < 1" using rng_next_range by blast
  obtain p where "pick pop (Fin u) = Some p" "p \<in> set pop" using pick_Some[OF assms u(2,3)] by blast
  then show ?thesis by (simp add: pickMember_def u(1))
qed

lemma tournamentSelect_Inr:
  assumes "pop \<noteq> []"
  shows "\<exists>p s'. tournamentSelect pop s = Inr (p, s') \<and> p \<in> set pop"
proof -
  obtain b0 s1 where b0: "pickMember pop s = (Some b0, s1)" "b0 \<in> set pop"
    using pickMember_Some[OF assms] by blast
  obtain c1 s2 where c1: "pickMember pop s1 = (Some c1, s2)" "c1 \<in> set pop"
    using pickMember_Some[OF assms] by blast
  obtain c2 s3 where c2: "pickMember pop s2 = (Some c2, s3)" "c2 \<in> set pop"
    using pickMember_Some[OF assms] by blast
  show ?thesis using b0(2) c1(2) c2(2) by (simp add: tournamentSelect_def b0(1) c1(1) c2(1) Let_def)
qed

section \<open>Comparing and sorting fitness values\<close>

lemma number_le_total: "a \<noteq> NaN \<Longrightarrow> b \<noteq> NaN \<Longrightarrow> a \<le> b \<or> b \<le> (a::number)"
  by (cases a; cases b) auto

lemma number_le_trans: "a \<le> b \<Longrightarrow> b \<le> c \<Longrightarrow> a \<le> (c::number)"
  by (cases a; cases b; cases c) auto

lemma number_le_refl: "a \<noteq> NaN \<Longrightarrow> a \<le> (a::number)"
  by (cases a) auto

lemma number_gt_diff:
  "a \<noteq> NaN \<Longrightarrow> b \<noteq> NaN \<Longrightarrow> (b - a > Fin 0) = (\<not> b \<le> (a::number))"
  by (cases a; cases b) (auto simp: minus_number_def)

lemma number_le_not_NaN: "a \<le> (b::number) \<Longrightarrow> a \<noteq> NaN \<and> b \<noteq> NaN"
  by (cases a; cases b) auto

lemma number_less_not_NaN: "a < (b::number) \<Longrightarrow> a \<noteq> NaN \<and> b \<noteq> NaN"
  by (cases a; cases b) auto

lemma number_less_imp_le: "a < (b::number) \<Longrightarrow> a \<le> b"
  by (cases a; cases b) auto

lemma insert_by_set: "set (insert_by cmp x ys) = insert x (set ys)"
  by (induction ys) auto

lemma sort_by_set: "set (sort_by cmp xs) = set xs"
  by (induction xs) (simp_all add: insert_by_set)

lemma insert_desc_sorted:
  assumes "f x \<noteq> NaN" "\<forall>p \<in> set ys. f p \<noteq> NaN" "sorted_wrt (\<lambda>a b. f b \<le> f a) ys"
  shows "sorted_wrt (\<lambda>a b. f b \<le> f a) (insert_by (\<lambda>a b. f b - f a) x ys)"
  using assms
proof (induction ys)
  case Nil
  show ?case by simp
next
  case (Cons y ys)
  have y: "f y \<noteq> NaN" using Cons.prems(2) by simp
  show ?case
  proof (cases "f y - f x > Fin 0")
    case True
    then have "\<not> f y \<le> f x" using number_gt_diff[OF Cons.prems(1) y] by simp
    then have xy: "f x \<le> f y" using number_le_total[OF Cons.prems(1) y] by blast
    have "sorted_wrt (\<lambda>a b. f b \<le> f a) (insert_by (\<lambda>a b. f b - f a) x ys)"
      using Cons by simp
    moreover have "\<forall>z \<in> set (insert_by (\<lambda>a b. f b - f a) x ys). f z \<le> f y"
      using Cons.prems(3) xy by (auto simp: insert_by_set)
    ultimately show ?thesis using True by simp
  next
    case False
    then have yx: "f y \<le> f x" using number_gt_diff[OF Cons.prems(1) y] by simp
    have "\<forall>z \<in> set ys. f z \<le> f x"
      using Cons.prems(3) yx number_le_trans by auto
    then show ?thesis using False yx Cons.prems(3) by simp
  qed
qed

lemma sort_desc_sorted:
  assumes "\<forall>p \<in> set xs. f p \<noteq> NaN"
  shows "sorted_wrt (\<lambda>a b. f b \<le> f a) (sort_by (\<lambda>a b. f b - f a) xs)"
  using assms
proof (induction xs)
  case Nil
  show ?case by simp
next
  case (Cons x xs)
  show ?case
    using Cons by (simp add: insert_desc_sorted sort_by_set)
qed

lemma insert_by_wrt:
  assumes "sorted_wrt R ys" "\<forall>y \<in> set ys. R x y \<and> R y x"
  shows "sorted_wrt R (insert_by cmp x ys)"
  using assms by (induction ys) (auto simp: insert_by_set)

lemma sort_by_wrt:
  assumes "\<And>a b. R a b \<Longrightarrow> R b a" "sorted_wrt R xs"
  shows "sorted_wrt R (sort_by cmp xs)"
  using assms(2)
proof (induction xs)
  case Nil
  show ?case by simp
next
  case (Cons x xs)
  have "\<forall>y \<in> set (sort_by cmp xs). R x y \<and> R y x"
    using Cons.prems assms(1) by (auto simp: sort_by_set)
  then show ?case using Cons by (simp add: insert_by_wrt)
qed

lemma sorted_wrt_butlast: "sorted_wrt R xs \<Longrightarrow> sorted_wrt R (butlast xs)"
  by (simp add: butlast_conv_take sorted_wrt_take)

lemma byFitnessDesc_eq: "byFitnessDesc = (\<lambda>a b. fitness b - fitness a)"
  by (simp add: byFitnessDesc_def fun_eq_iff)

lemma apart_sym: "apart a b \<Longrightarrow> apart b a"
  by (auto simp: apart_def)

lemma allocDistance_update [simp]:
  "allocDistance h (c\<lparr>generation_e := g\<rparr>) = allocDistance h c"
  "allocDistance (c\<lparr>generation_e := g\<rparr>) h = allocDistance c h"
  by (simp_all add: allocDistance_def)

section \<open>Updating the hall of fame\<close>

lemma fl_minus: "fl (- x) = - fl x"
  by (simp add: fl_def Let_def rd_minus)

lemma round64_minus: "round64 (- v) = - round64 v"
  by (cases v) (simp_all add: round64_def fl_minus)

lemma minus_swap: "x - y = - (y - (x::number))"
  by (cases x; cases y) (simp_all add: minus_number_def)

lemma neg_times_neg: "(- a) * (- a) = a * (a::number)"
  by (cases a) (simp_all add: inf_of_sign_def)

lemma sq_diff_sym: "mul64 (sub64 x y) (sub64 x y) = mul64 (sub64 y x) (sub64 y x)"
proof -
  have "sub64 x y = - sub64 y x"
    unfolding sub64_def by (subst minus_swap) (rule round64_minus)
  then show ?thesis by (simp add: mul64_def neg_times_neg)
qed

lemma distance2_sym: "distance2 a b = distance2 b a"
proof -
  have "(\<lambda>dist k. let diff = sub64 (nullish (a k) (Fin 0)) (nullish (b k) (Fin 0))
                    in add64 dist (mul64 diff diff))
      = (\<lambda>dist k. let diff = sub64 (nullish (b k) (Fin 0)) (nullish (a k) (Fin 0))
                    in add64 dist (mul64 diff diff))"
    by (simp add: fun_eq_iff Let_def sq_diff_sym)
  then show ?thesis by (simp add: distance2_def)
qed

lemma allocDistance_sym: "allocDistance a b = allocDistance b a"
  by (simp add: allocDistance_def distance2_sym)

lemma apart_iff: "apart a b \<longleftrightarrow> \<not> allocDistance a b < dbl 0.05"
  using allocDistance_sym[of a b] by (auto simp: apart_def)

lemma admits_iff:
  "admits hof cand \<longleftrightarrow>
     (hof = [] \<or> fitness cand > mul64 (fitness (hd hof)) (dbl 0.95))
       \<and> (\<forall>h \<in> set hof. \<not> allocDistance h cand < dbl 0.05)"
  by (cases hof) (auto simp: admits_def isDuplicate_def list_ex_iff)

lemma times_not_NaN: "mul64 a b \<noteq> NaN \<Longrightarrow> a \<noteq> NaN"
  by (cases a; cases b) (auto simp: mul64_def round64_def)

lemma updateHallOfFame_changed:
  "updateHallOfFame hof cand gen \<noteq> hof \<Longrightarrow> admits hof cand"
  by (auto simp: updateHallOfFame_def split: if_splits)

lemma updateHallOfFame_inv:
  assumes "hofInv hof"
  shows "hofInv (updateHallOfFame hof cand gen)"
proof (cases "admits hof cand")
  case False
  then show ?thesis using assms by (simp add: updateHallOfFame_def)
next
  case True
  let ?c = "cand\<lparr>generation_e := gen\<rparr>"
  let ?xs = "hof @ [?c]"
  let ?s = "sort_by byFitnessDesc ?xs"
  from True have adm: "hof = [] \<or> fitness cand > mul64 (fitness (hd hof)) (dbl 0.95)"
    "\<forall>h \<in> set hof. \<not> allocDistance h cand < dbl 0.05"
    by (simp_all add: admits_iff)
  have ap: "sorted_wrt apart ?xs"
    using assms adm(2) by (auto simp: hofInv_def sorted_wrt_append apart_iff)
  have ap_s: "sorted_wrt apart ?s" by (rule sort_by_wrt[OF apart_sym ap])
  have fit_s: "sorted_wrt (\<lambda>a b. fitness b \<le> fitness a) ?s"
  proof (cases hof)
    case Nil
    then show ?thesis by simp
  next
    case (Cons h t)
    then have gt: "fitness cand > mul64 (fitness h) (dbl 0.95)" using adm(1) by simp
    then have "fitness cand \<noteq> NaN" "fitness h \<noteq> NaN"
      using number_less_not_NaN[OF gt] times_not_NaN by auto
    moreover have "\<forall>z \<in> set t. fitness z \<noteq> NaN"
      using assms Cons number_le_not_NaN by (auto simp: hofInv_def)
    ultimately have "\<forall>p \<in> set ?xs. fitness p \<noteq> NaN" using Cons by simp
    then show ?thesis unfolding byFitnessDesc_eq by (rule sort_desc_sorted)
  qed
  have len: "length ?s = Suc (length hof)" by (simp add: sort_by_length)
  have upd: "updateHallOfFame hof cand gen = (if length ?s > 5 then butlast ?s else ?s)"
    using True by (simp add: updateHallOfFame_def Let_def)
  show ?thesis
  proof (cases "length ?s > 5")
    case True
    have "length (butlast ?s) \<le> 5" using assms len by (simp add: hofInv_def)
    then show ?thesis
      using True fit_s ap_s unfolding upd hofInv_def by (simp add: sorted_wrt_butlast)
  next
    case False
    then show ?thesis using fit_s ap_s unfolding upd hofInv_def by simp
  qed
qed

section \<open>Evaluating and breeding\<close>

lemma fullTable_all: "fullTable A \<Longrightarrow> regimes A r \<noteq> None"
  by (cases r) (simp_all add: fullTable_def)

lemma fullTable_runs:
  assumes "fullTable A" "regimesEnabled adv \<noteq> []"
  shows "\<exists>s. runMonteCarlo A amb pf adv sd = Inr s"
  by (rule runMonteCarlo_Inr[OF assms(2)]) (simp add: list_all_iff fullTable_all[OF assms(1)])

lemma evaluate_result:
  assumes "evaluate A world cfg adv allocs gen tag s t = Inr (p, s', t')"
  shows "\<exists>sm sd. runMonteCarlo A (world t) \<lparr> allocations = normalize allocs \<rparr> adv (Some sd) = Inr sm
           \<and> p = \<lparr> portfolio_e = \<lparr> allocations = normalize allocs \<rparr>,
                   fitness = computeFitness sm (fitnessWeights cfg), summary = sm,
                   generation_e = gen, parentage = tag \<rparr>"
proof -
  obtain u s1 where u: "rng_next s = (u, s1)" by (cases "rng_next s")
  let ?sd = "int32_number (u * Fin (10 ^ 9))"
  from assms u obtain sm where sm: "runMonteCarlo A (world t) \<lparr> allocations = normalize allocs \<rparr> adv (Some ?sd) = Inr sm"
    by (cases "runMonteCarlo A (world t) \<lparr> allocations = normalize allocs \<rparr> adv (Some ?sd)")
       (simp_all add: evaluate_def Let_def)
  from assms have "p = \<lparr> portfolio_e = \<lparr> allocations = normalize allocs \<rparr>,
                   fitness = computeFitness sm (fitnessWeights cfg), summary = sm,
                   generation_e = gen, parentage = tag \<rparr>"
    unfolding evaluate_def Let_def u prod.case sm sum.case by simp
  then show ?thesis using sm by blast
qed

lemma evaluate_Inr:
  assumes "fullTable A" "regimesEnabled adv \<noteq> []"
  shows "\<exists>p s' t'. evaluate A world cfg adv allocs gen tag s t = Inr (p, s', t')"
proof -
  obtain u s1 where u: "rng_next s = (u, s1)" by (cases "rng_next s")
  obtain sm where "runMonteCarlo A (world t) \<lparr> allocations = normalize allocs \<rparr> adv
                     (Some (int32_number (u * Fin (10 ^ 9)))) = Inr sm"
    using fullTable_runs[OF assms] by blast
  then show ?thesis by (simp add: evaluate_def Let_def u)
qed

lemma breed_evaluate:
  assumes "breed A world cfg adv pop gen s t = Inr (c, s', t')"
  shows "\<exists>allocs tag s0. evaluate A world cfg adv allocs (Suc gen) tag s0 t = Inr (c, s', t')"
  using assms unfolding breed_def Let_def
  by (auto split: prod.splits sum.splits if_splits)

lemma breed_Inr:
  assumes "fullTable A" "regimesEnabled adv \<noteq> []" "pop \<noteq> []"
  shows "\<exists>c s' t'. breed A world cfg adv pop gen s t = Inr (c, s', t')"
proof -
  note ev = evaluate_Inr[OF assms(1,2), of world cfg]
  obtain roll s1 where roll: "rng_next s = (roll, s1)" by (cases "rng_next s")
  show ?thesis
  proof (cases "roll < crossoverRate cfg \<and> length pop \<ge> 2")
    case True
    obtain pa s2 where pa: "tournamentSelect pop s1 = Inr (pa, s2)" using tournamentSelect_Inr[OF assms(3)] by blast
    obtain pb s3 where pb: "tournamentSelect pop s2 = Inr (pb, s3)" using tournamentSelect_Inr[OF assms(3)] by blast
    obtain ch s4 where ch: "crossover (allocations (portfolio_e pa)) (allocations (portfolio_e pb)) s3 = (ch, s4)"
      by (cases "crossover (allocations (portfolio_e pa)) (allocations (portfolio_e pb)) s3")
    obtain u s5 where u: "rng_next s4 = (u, s5)" by (cases "rng_next s4")
    obtain ch' s6 where m: "(if u < mutationRate cfg then mutate ch (mutationRate cfg) s5 else Inr (ch, s5)) = Inr (ch', s6)"
      using mutate_Inr[of ch "mutationRate cfg" s5] by (cases "u < mutationRate cfg") auto
    show ?thesis
      using ev[of ch' "Suc gen" "''crossover''" s6 t]
      unfolding breed_def Let_def roll prod.case if_P[OF True] pa pb sum.case ch u m by simp
  next
    case False
    show ?thesis
    proof (cases "roll < crossoverRate cfg + mutationRate cfg")
      case True
      obtain pa s2 where pa: "tournamentSelect pop s1 = Inr (pa, s2)" using tournamentSelect_Inr[OF assms(3)] by blast
      obtain ch s3 where m: "mutate (allocations (portfolio_e pa)) (mutationRate cfg) s2 = Inr (ch, s3)"
        using mutate_Inr[of "allocations (portfolio_e pa)" "mutationRate cfg" s2] by blast
      show ?thesis
        using ev[of ch "Suc gen" "''mutation''" s3 t]
        unfolding breed_def Let_def roll prod.case if_not_P[OF False] if_P[OF True] pa sum.case m by simp
    next
      case F2: False
      obtain al s2 where al: "randomPortfolio s1 = (al, s2)" by (cases "randomPortfolio s1")
      show ?thesis
        using ev[of al "Suc gen" "''immigrant''" s2 t]
        unfolding breed_def Let_def roll prod.case if_not_P[OF False] if_not_P[OF F2] al by simp
    qed
  qed
qed

lemma fillLoop_Inr:
  assumes "fullTable A" "regimesEnabled adv \<noteq> []" "pop \<noteq> []"
  shows "\<exists>cs s' t'. fillLoop A world cfg adv pop gen n s t = Inr (cs, s', t') \<and> length cs = n"
proof (induction n arbitrary: s t)
  case 0
  show ?case by simp
next
  case (Suc n)
  obtain c s1 t1 where c: "breed A world cfg adv pop gen s t = Inr (c, s1, t1)"
    using breed_Inr[OF assms] by blast
  obtain cs s2 t2 where "fillLoop A world cfg adv pop gen n s1 t1 = Inr (cs, s2, t2)" "length cs = n"
    using Suc by blast
  then show ?case by (simp add: c)
qed

lemma fillLoop_members:
  assumes "\<And>c allocs tag s0 t0 s' t'. evaluate A world cfg adv allocs (Suc gen) tag s0 t0 = Inr (c, s', t') \<Longrightarrow> P c"
  shows "fillLoop A world cfg adv pop gen n s t = Inr (cs, s', t') \<Longrightarrow> list_all P cs \<and> length cs = n"
proof (induction n arbitrary: s t cs s' t')
  case 0
  then show ?case by simp
next
  case (Suc n)
  from Suc.prems obtain c s1 t1 where c: "breed A world cfg adv pop gen s t = Inr (c, s1, t1)"
    by (cases "breed A world cfg adv pop gen s t") auto
  from Suc.prems c obtain cs1 s2 t2 where cs1: "fillLoop A world cfg adv pop gen n s1 t1 = Inr (cs1, s2, t2)"
    by (cases "fillLoop A world cfg adv pop gen n s1 t1") auto
  from Suc.prems c cs1 have eq: "cs = c # cs1" by simp
  have "P c" using breed_evaluate[OF c] assms by blast
  then show ?case using Suc.IH[OF cs1] eq by simp
qed

lemma initialAllocs_Inr: "\<exists>al s'. initialAllocs sp cfg i s = Inr (al, s')"
  using mutate_Inr[of "allocations sp" "mutationRate cfg * (Fin 1 + Fin (real i) * Fin 0.1)" s]
  by (cases "randomPortfolio s") (auto simp: initialAllocs_def)

lemma initLoop_Inr:
  assumes "fullTable A" "regimesEnabled adv \<noteq> []"
  shows "\<exists>ps s' t'. initLoop A world sp cfg adv n i s t = Inr (ps, s', t') \<and> length ps = n"
proof (induction n arbitrary: i s t)
  case 0
  show ?case by simp
next
  case (Suc n)
  obtain al s1 where al: "initialAllocs sp cfg i s = Inr (al, s1)" using initialAllocs_Inr by blast
  obtain p s2 t2 where p: "evaluate A world cfg adv al 0 (initialTag cfg i) s1 t = Inr (p, s2, t2)"
    using evaluate_Inr[OF assms] by blast
  obtain ps s3 t3 where "initLoop A world sp cfg adv n (Suc i) s2 t2 = Inr (ps, s3, t3)" "length ps = n"
    using Suc by blast
  then show ?case by (simp add: al p)
qed

lemma initLoop_members:
  assumes "\<And>c allocs tag s0 t0 s' t'. evaluate A world cfg adv allocs 0 tag s0 t0 = Inr (c, s', t') \<Longrightarrow> P c"
  shows "initLoop A world sp cfg adv n i s t = Inr (ps, s', t') \<Longrightarrow> list_all P ps \<and> length ps = n"
proof (induction n arbitrary: i s t ps s' t')
  case 0
  then show ?case by simp
next
  case (Suc n)
  from Suc.prems obtain al s1 where al: "initialAllocs sp cfg i s = Inr (al, s1)"
    by (cases "initialAllocs sp cfg i s") auto
  from Suc.prems al obtain p s2 t2 where p: "evaluate A world cfg adv al 0 (initialTag cfg i) s1 t = Inr (p, s2, t2)"
    by (cases "evaluate A world cfg adv al 0 (initialTag cfg i) s1 t") auto
  from Suc.prems al p obtain ps1 s3 t3 where ps1: "initLoop A world sp cfg adv n (Suc i) s2 t2 = Inr (ps1, s3, t3)"
    by (cases "initLoop A world sp cfg adv n (Suc i) s2 t2") auto
  from Suc.prems al p ps1 have eq: "ps = p # ps1" by simp
  have "P p" using assms p by blast
  then show ?case using Suc.IH[OF ps1] eq by simp
qed

lemma initLoop_head:
  assumes "initLoop A world sp cfg adv (Suc n) 0 s t = Inr (ps, s', t')"
  shows "\<exists>p rest. ps = p # rest \<and> allocations (portfolio_e p) = normalize (allocations sp)
           \<and> parentage p = ''seed'' \<and> generation_e p = 0"
proof -
  have al: "initialAllocs sp cfg 0 s = Inr (allocations sp, s)" by (simp add: initialAllocs_def)
  from assms al obtain p s2 t2 where p: "evaluate A world cfg adv (allocations sp) 0 (initialTag cfg 0) s t = Inr (p, s2, t2)"
    by (cases "evaluate A world cfg adv (allocations sp) 0 (initialTag cfg 0) s t") auto
  from assms al p obtain ps1 s3 t3 where ps1: "initLoop A world sp cfg adv n (Suc 0) s2 t2 = Inr (ps1, s3, t3)"
    by (cases "initLoop A world sp cfg adv n (Suc 0) s2 t2") auto
  from assms al p ps1 have eq: "ps = p # ps1" by simp
  from evaluate_result[OF p] have "allocations (portfolio_e p) = normalize (allocations sp)"
    "parentage p = ''seed''" "generation_e p = 0"
    by (auto simp: initialTag_def)
  then show ?thesis using eq by blast
qed

section \<open>The generation loop\<close>

lemma snapshot_Inr:
  "snapshot gen pop = Inr snp \<Longrightarrow>
     pop \<noteq> [] \<and> best snp = hd pop \<and> population snp = pop \<and> generation_g snp = gen"
  by (cases pop) (auto simp: snapshot_def)

lemma snapshot_ne: "pop \<noteq> [] \<Longrightarrow> \<exists>snp. snapshot gen pop = Inr snp"
  by (cases pop) (auto simp: snapshot_def)

lemma generationStep_result:
  assumes "generationStep A world cfg gen st = Inr st'"
  shows "\<exists>snp offspring.
           snapshot gen (sort_by byFitnessDesc (population_s st)) = Inr snp
         \<and> fillLoop A world cfg (advConfig st) (sort_by byFitnessDesc (population_s st)) gen
              (populationSize cfg - length (elites cfg (sort_by byFitnessDesc (population_s st)) gen))
              (rng_s st) (tick_s st) = Inr (offspring, rng_s st', tick_s st')
         \<and> population_s st' = elites cfg (sort_by byFitnessDesc (population_s st)) gen @ offspring
         \<and> hall st' = updateHallOfFame (hall st) (best snp) gen
         \<and> history st' = history st @ [snp]
         \<and> advConfig st' = raisePressure cfg gen (advConfig st)"
proof -
  let ?pop = "sort_by byFitnessDesc (population_s st)"
  from assms obtain snp where snp: "snapshot gen ?pop = Inr snp"
    by (cases "snapshot gen ?pop") (simp_all add: generationStep_def Let_def)
  let ?fill = "fillLoop A world cfg (advConfig st) ?pop gen
              (populationSize cfg - length (elites cfg ?pop gen)) (rng_s st) (tick_s st)"
  from assms snp obtain offspring r t where f: "?fill = Inr (offspring, r, t)"
    by (cases ?fill) (auto simp: generationStep_def Let_def)
  from assms have "st' = \<lparr> population_s = elites cfg ?pop gen @ offspring,
                          hall = updateHallOfFame (hall st) (best snp) gen,
                          history = history st @ [snp],
                          advConfig = raisePressure cfg gen (advConfig st),
                          rng_s = r, tick_s = t \<rparr>"
    unfolding generationStep_def Let_def snp sum.case f prod.case by simp
  then show ?thesis using snp f by auto
qed

lemma evolveLoop_invariant:
  assumes "evolveLoop A world cfg n gen st = Inr st'" "I gen st"
    and "\<And>g s s'. I g s \<Longrightarrow> generationStep A world cfg g s = Inr s' \<Longrightarrow> I (Suc g) s'"
  shows "I (gen + n) st'"
  using assms(1,2)
proof (induction n arbitrary: gen st)
  case 0
  then show ?case by simp
next
  case (Suc n)
  from Suc.prems(1) obtain s1 where s1: "generationStep A world cfg gen st = Inr s1"
    by (cases "generationStep A world cfg gen st") auto
  then have "evolveLoop A world cfg n (Suc gen) s1 = Inr st'" using Suc.prems(1) by simp
  from Suc.IH[OF this assms(3)[OF Suc.prems(2) s1]] show ?case by simp
qed

lemma raisePressure_ne: "regimesEnabled adv \<noteq> [] \<Longrightarrow> regimesEnabled (raisePressure cfg gen adv) \<noteq> []"
  by (simp add: raisePressure_def Let_def)

lemma raisePressure_num [simp]: "numScenarios (raisePressure cfg gen adv) = numScenarios adv"
  by (simp add: raisePressure_def Let_def)

lemma raisePressure_horizon [simp]: "horizonMonths (raisePressure cfg gen adv) = horizonMonths adv"
  by (simp add: raisePressure_def Let_def)

lemma adversarialSimConfig_num [simp]:
  "numScenarios (adversarialSimConfig cfg) = numScenarios (simConfig cfg)"
  "horizonMonths (adversarialSimConfig cfg) = horizonMonths (simConfig cfg)"
  by (simp_all add: adversarialSimConfig_def)

lemma adversarialSimConfig_ne:
  "regimesEnabled (simConfig cfg) \<noteq> [] \<Longrightarrow> regimesEnabled (adversarialSimConfig cfg) \<noteq> []"
  by (simp add: adversarialSimConfig_def)

lemma length_elites: "length (elites cfg pop gen) = min (eliteCount cfg) (length pop)"
  by (simp add: elites_def)

lemma generationStep_Inr:
  assumes "fullTable A" "regimesEnabled (advConfig st) \<noteq> []"
    "length (population_s st) = populationSize cfg" "1 \<le> populationSize cfg"
  shows "\<exists>st'. generationStep A world cfg gen st = Inr st'
           \<and> regimesEnabled (advConfig st') \<noteq> [] \<and> length (population_s st') = populationSize cfg"
proof -
  let ?pop = "sort_by byFitnessDesc (population_s st)"
  have len: "length ?pop = populationSize cfg" using assms(3) by (simp add: sort_by_length)
  then have ne: "?pop \<noteq> []" using assms(4) by auto
  obtain snp where snp: "snapshot gen ?pop = Inr snp" using snapshot_ne[OF ne] by blast
  obtain cs r t where f: "fillLoop A world cfg (advConfig st) ?pop gen
              (populationSize cfg - length (elites cfg ?pop gen)) (rng_s st) (tick_s st) = Inr (cs, r, t)"
      "length cs = populationSize cfg - length (elites cfg ?pop gen)"
    using fillLoop_Inr[OF assms(1,2) ne] by blast
  have "length (elites cfg ?pop gen @ cs) = populationSize cfg"
    using f(2) len by (simp add: length_elites)
  then show ?thesis
    using raisePressure_ne[OF assms(2)]
    by (simp add: generationStep_def Let_def snp f(1))
qed

lemma evolveLoop_Inr:
  assumes "fullTable A" "1 \<le> populationSize cfg"
  shows "regimesEnabled (advConfig st) \<noteq> [] \<Longrightarrow> length (population_s st) = populationSize cfg \<Longrightarrow>
     \<exists>st'. evolveLoop A world cfg n gen st = Inr st'
           \<and> regimesEnabled (advConfig st') \<noteq> [] \<and> length (population_s st') = populationSize cfg"
proof (induction n arbitrary: gen st)
  case 0
  then show ?case by simp
next
  case (Suc n)
  obtain s1 where s1: "generationStep A world cfg gen st = Inr s1"
      "regimesEnabled (advConfig s1) \<noteq> []" "length (population_s s1) = populationSize cfg"
    using generationStep_Inr[OF assms(1) Suc.prems(1,2) assms(2)] by blast
  from Suc.IH[OF s1(2,3)] show ?case by (simp add: s1(1))
qed

lemma initialPopulation_Inr:
  assumes "runnable A cfg"
  shows "\<exists>pop s t. initialPopulation A world sp cfg = Inr (pop, s, t) \<and> length pop = populationSize cfg"
  unfolding initialPopulation_def
  by (rule initLoop_Inr) (use assms in \<open>auto simp: runnable_def adversarialSimConfig_ne\<close>)

lemma stateAfter_Inr:
  assumes "runnable A cfg"
  shows "\<exists>st. stateAfter A world sp cfg k = Inr st \<and> length (population_s st) = populationSize cfg"
proof -
  obtain pop s t where p: "initialPopulation A world sp cfg = Inr (pop, s, t)" "length pop = populationSize cfg"
    using initialPopulation_Inr[OF assms] by blast
  have "\<exists>st'. evolveLoop A world cfg k 0 \<lparr> population_s = pop, hall = [], history = [],
              advConfig = adversarialSimConfig cfg, rng_s = s, tick_s = t \<rparr> = Inr st'
           \<and> regimesEnabled (advConfig st') \<noteq> [] \<and> length (population_s st') = populationSize cfg"
    by (rule evolveLoop_Inr) (use assms p(2) in \<open>auto simp: runnable_def adversarialSimConfig_ne\<close>)
  then show ?thesis by (auto simp: stateAfter_def p(1))
qed

lemma evolvePortfolio_stateAfter:
  "evolvePortfolio A world sp cfg =
     (case stateAfter A world sp cfg (generations cfg) of
        Inl e \<Rightarrow> Inl e
      | Inr st \<Rightarrow>
          (case snapshot (generations cfg) (sort_by byFitnessDesc (population_s st)) of
             Inl e \<Rightarrow> Inl e
           | Inr snp \<Rightarrow>
               Inr \<lparr> generations_r = history st @ [snp], champion = best snp,
                     hallOfFame = (if length (hall st) > 0 then hall st else [best snp]) \<rparr>))"
  by (simp add: evolvePortfolio_def stateAfter_def Let_def split: sum.splits prod.splits)

lemma evolvePortfolio_Inr:
  assumes "runnable A cfg"
  shows "\<exists>res. evolvePortfolio A world sp cfg = Inr res"
proof -
  obtain st where st: "stateAfter A world sp cfg (generations cfg) = Inr st"
      "length (population_s st) = populationSize cfg"
    using stateAfter_Inr[OF assms] by blast
  have "sort_by byFitnessDesc (population_s st) \<noteq> []"
    using st(2) assms by (auto simp: runnable_def dest!: arg_cong[where f=length] simp: sort_by_length)
  then obtain snp where "snapshot (generations cfg) (sort_by byFitnessDesc (population_s st)) = Inr snp"
    using snapshot_ne by blast
  then show ?thesis by (simp add: evolvePortfolio_stateAfter st(1))
qed

section \<open>The seed candidate\<close>

lemma runnable_example: "runnable exampleAssumptions (exampleEvolution n)"
  by (simp add: runnable_def fullTable_def exampleAssumptions_def exampleEvolution_def exampleConfig_def)

lemma tilted_double: "doubleAllocations (allocations tilted)"
  by (simp add: doubleAllocations_def values_of_def entries_def List.map_filter_def ALL_ASSETS_def
      tilted_def dbl_small)

lemma tilted_clamp: "clampL (allocations tilted) = [4458563631096791 / 4503599627370496, 5764607523034235 / 576460752303423488, 0, 0, 0, 0, 0, 0, 0, 0]"
  by (simp add: clampL_def clampW_def weightOf_def ALL_ASSETS_def tilted_def dbl_small certs)

lemma tilted_bound: "sum_list (clampL (allocations tilted)) \<le> maxTotal"
  by (simp add: tilted_clamp maxTotal_def)

lemma normalize_tilted: "normalize (allocations tilted) = record_of [1, 0, 0, 0, 0, 0, 0, 0, 0, 0]"
  using normalize_stages(7)[OF tilted_double tilted_bound] by (simp only: tilted_clamp tilted_normalizeL)

lemma tilted_normalized: "normalize (allocations tilted) usEquities = Some (Fin 1)"
  by (simp add: normalize_tilted record_of_def position_def)

lemma tilted_seed: "allocations tilted usEquities = Some (dbl 0.99)" "dbl 0.99 < Fin 1"
  by (simp_all add: tilted_def dbl_small certs)

lemma initialPopulation_head:
  assumes "initialPopulation A world sp cfg = Inr (pop, s, t)" "1 \<le> populationSize cfg"
  shows "\<exists>p rest. pop = p # rest \<and> allocations (portfolio_e p) = normalize (allocations sp)
           \<and> parentage p = ''seed'' \<and> generation_e p = 0"
proof -
  obtain n where n: "populationSize cfg = Suc n" using assms(2) by (cases "populationSize cfg") auto
  show ?thesis
    by (rule initLoop_head[of A world sp cfg "adversarialSimConfig cfg" n _ 0 pop s t])
       (use assms(1) in \<open>simp add: initialPopulation_def n\<close>)
qed

text \<open>
  Claim C8, as stated, fails: every candidate of the initial population, the first one
  included, goes through \<open>normalize\<close>. A seed of 99\% and 1\% loses its 1\% position
  (below the 2\% threshold): candidate 0 holds 100\% where the seed holds 99\%.
\<close>

theorem seed_candidate_is_modified:
  "map_sum id (\<lambda>r. allocations (portfolio_e (hd (fst r))) usEquities)
     (initialPopulation exampleAssumptions exampleWorld tilted (exampleEvolution 2000))
   = Inr (Some (Fin 1))
   \<and> allocations tilted usEquities = Some (dbl 0.99) \<and> dbl 0.99 < Fin 1"
proof -
  obtain pop s t where p: "initialPopulation exampleAssumptions exampleWorld tilted (exampleEvolution 2000) = Inr (pop, s, t)"
    using initialPopulation_Inr[OF runnable_example] by blast
  have "1 \<le> populationSize (exampleEvolution 2000)" by (simp add: exampleEvolution_def)
  from initialPopulation_head[OF p this] obtain c rest where
    "pop = c # rest" "allocations (portfolio_e c) = normalize (allocations tilted)" by blast
  then have "allocations (portfolio_e (hd pop)) usEquities = Some (Fin 1)"
    by (simp add: tilted_normalized)
  then show ?thesis unfolding p using tilted_seed by simp
qed

text \<open>
  Claim C8, amended. Candidate 0 of the initial population carries the normalised seed
  allocations, \<open>normalize(seed.allocations)\<close>, and the parentage \<open>seed\<close>; it carries the
  seed's allocations themselves whenever \<open>normalize\<close> leaves them as they are.
\<close>

theorem seed_candidate_is_normalized_seed:
  assumes "initialPopulation A world seedPortfolio cfg = Inr (pop, rng', tick')"
    and "1 \<le> populationSize cfg"
  shows "\<exists>p rest. pop = p # rest
           \<and> allocations (portfolio_e p) = normalize (allocations seedPortfolio)
           \<and> parentage p = ''seed''
           \<and> (normalize (allocations seedPortfolio) = allocations seedPortfolio
                \<longrightarrow> allocations (portfolio_e p) = allocations seedPortfolio)"
  using initialPopulation_head[OF assms] by auto

theorem seed_candidate_witness:
  "1 \<le> populationSize (exampleEvolution 2000)
   \<and> (\<exists>pop rng' tick'.
         initialPopulation exampleAssumptions exampleWorld balanced (exampleEvolution 2000) = Inr (pop, rng', tick')
         \<and> (\<exists>p rest. pop = p # rest
               \<and> allocations (portfolio_e p) = normalize (allocations balanced)
               \<and> parentage p = ''seed''))"
proof -
  have n: "1 \<le> populationSize (exampleEvolution 2000)" by (simp add: exampleEvolution_def)
  obtain pop s t where p: "initialPopulation exampleAssumptions exampleWorld balanced (exampleEvolution 2000) = Inr (pop, s, t)"
    using initialPopulation_Inr[OF runnable_example] by blast
  from seed_candidate_is_normalized_seed[OF p n] p n show ?thesis by blast
qed

section \<open>The hall of fame during a run\<close>

lemma hofInv_Nil: "hofInv []"
  by (simp add: hofInv_def)

lemma hofInv_single: "hofInv [x]"
  by (simp add: hofInv_def)

lemma stateAfter_hall:
  assumes "stateAfter A world sp cfg k = Inr st"
  shows "hofInv (hall st)"
proof -
  from assms obtain pop s t where
    loop: "evolveLoop A world cfg k 0 \<lparr> population_s = pop, hall = [], history = [],
              advConfig = adversarialSimConfig cfg, rng_s = s, tick_s = t \<rparr> = Inr st"
    by (auto simp: stateAfter_def split: sum.splits)
  have "hofInv (hall st)"
  proof (rule evolveLoop_invariant[OF loop, where I = "\<lambda>g s. hofInv (hall s)"])
    show "hofInv (hall \<lparr> population_s = pop, hall = [], history = [],
              advConfig = adversarialSimConfig cfg, rng_s = s, tick_s = t \<rparr>)"
      by (simp add: hofInv_Nil)
  next
    fix g s s'
    assume "hofInv (hall s)" "generationStep A world cfg g s = Inr s'"
    then show "hofInv (hall s')"
      using generationStep_result[of A world cfg g s s'] updateHallOfFame_inv by auto
  qed
  then show ?thesis .
qed

lemma evolvePortfolio_hall:
  assumes "evolvePortfolio A world sp cfg = Inr res"
  shows "hofInv (hallOfFame res)"
proof -
  from assms obtain st where st: "stateAfter A world sp cfg (generations cfg) = Inr st"
    by (cases "stateAfter A world sp cfg (generations cfg)") (simp_all add: evolvePortfolio_stateAfter)
  from assms st obtain snp where
    snp: "snapshot (generations cfg) (sort_by byFitnessDesc (population_s st)) = Inr snp"
    by (cases "snapshot (generations cfg) (sort_by byFitnessDesc (population_s st))")
       (simp_all add: evolvePortfolio_stateAfter)
  from assms have res: "hallOfFame res = (if length (hall st) > 0 then hall st else [best snp])"
    by (auto simp: evolvePortfolio_stateAfter st snp)
  show ?thesis using stateAfter_hall[OF st] hofInv_single by (simp add: res)
qed

text \<open>
  Claim C7, amended. After any number of generations, and in the result of the run, the
  hall of fame has at most five entries, is sorted by descending fitness, and no two of
  its entries are at a distance less than 0.05. An update changes the hall only if the
  hall is empty or the candidate's fitness exceeds 0.95 times the fitness of the first
  entry, and no entry is at a distance less than 0.05 from the candidate.
\<close>

theorem hall_of_fame_invariant:
  "(\<forall>k st. stateAfter A world seedPortfolio cfg k = Inr st \<longrightarrow> hofInv (hall st))
   \<and> (\<forall>res. evolvePortfolio A world seedPortfolio cfg = Inr res \<longrightarrow> hofInv (hallOfFame res))
   \<and> (\<forall>hof cand gen. updateHallOfFame hof cand gen \<noteq> hof \<longrightarrow>
         (hof = [] \<or> fitness cand > mul64 (fitness (hd hof)) (dbl 0.95))
           \<and> (\<forall>h \<in> set hof. \<not> allocDistance h cand < dbl 0.05))"
  using stateAfter_hall evolvePortfolio_hall updateHallOfFame_changed admits_iff by blast

theorem hall_of_fame_witness:
  "\<exists>res. evolvePortfolio exampleAssumptions exampleWorld balanced (exampleEvolution 2000) = Inr res
         \<and> length (hallOfFame res) \<le> 5
         \<and> sorted_wrt (\<lambda>a b. fitness b \<le> fitness a) (hallOfFame res)
         \<and> sorted_wrt apart (hallOfFame res)"
proof -
  obtain res where res: "evolvePortfolio exampleAssumptions exampleWorld balanced (exampleEvolution 2000) = Inr res"
    using evolvePortfolio_Inr[OF runnable_example] by blast
  from hall_of_fame_invariant[of exampleAssumptions exampleWorld balanced "exampleEvolution 2000"] res
  have "hofInv (hallOfFame res)" by blast
  then show ?thesis using res by (auto simp: hofInv_def)
qed

lemma sqrt_cert: "rd (sqrt (5764607523034235 / 2305843009213693952)) = 3602879701896397 / 72057594037927936"
  by (rule rd_cert_sqrt[where k = "-5" and m = 7205759403792794 and h = "1 / 288230376151711744"]) (simp_all add: emin_def mant_def power2_eq_square)

lemma barbell_distance2: "distance2 (record_of [3602879701896397 / 72057594037927936, 3602879701896397 / 72057594037927936, 1 / 4, 5854679515581645 / 9007199254740992, 0, 0, 0, 0, 0, 0]) (record_of [5404319552844595 / 72057594037927936, 5404319552844595 / 72057594037927936, 8106479329266893 / 36028797018963968, 5 / 8, 0, 0, 0, 0, 0, 0]) = Fin (5764607523034235 / 2305843009213693952)"
  by (simp add: distance2_def Let_def nullish_def ALL_ASSETS_def record_of_def position_def sub64_Fin mul64_Fin add64_Fin fl_Fin rd_minus certs)

lemma entry_allocations:
  "allocations (portfolio_e entryA) = record_of [3602879701896397 / 72057594037927936, 3602879701896397 / 72057594037927936, 1 / 4, 5854679515581645 / 9007199254740992, 0, 0, 0, 0, 0, 0]"
  "allocations (portfolio_e entryB) = record_of [5404319552844595 / 72057594037927936, 5404319552844595 / 72057594037927936, 8106479329266893 / 36028797018963968, 5 / 8, 0, 0, 0, 0, 0, 0]"
  by (simp_all add: entryA_def entryB_def Let_def normalize_barbell normalize_barbell2)

lemma threshold_005: "dbl 0.05 = Fin (3602879701896397 / 72057594037927936)"
  by (simp add: dbl_small certs)

lemma threshold_095: "mul64 (Fin 1) (dbl 0.95) = Fin (4278419646001971 / 4503599627370496)"
  by (simp add: dbl_small mul64_Fin fl_small certs)

lemma distance_entries: "allocDistance entryA entryB = dbl 0.05"
proof -
  have "\<bar>rd (sqrt (5764607523034235 / 2305843009213693952))\<bar> < 2 ^ 1024" unfolding sqrt_cert by simp
  from fl_Fin[OF this] show ?thesis
    unfolding allocDistance_def entry_allocations barbell_distance2 threshold_005 sqrt_cert
    by (simp add: sqrt64_def round64_def)
qed

text \<open>
  Claim C7, as stated, fails at the boundary: the duplicate test is \<open>distance < 0.05\<close>,
  so a candidate whose computed distance from an entry equals the double of \<open>0.05\<close> is
  admitted, and the hall then holds two entries whose distance is not strictly greater
  than 0.05. The entries hold 5\%, 5\%, 25\%, 65\% and 7.5\%, 7.5\%, 22.5\%, 62.5\%, both
  left as they are by \<open>normalize\<close>.
\<close>

theorem hall_admits_distance_exactly_005:
  "updateHallOfFame (updateHallOfFame [] entryA 0) entryB 1 = [entryA, entryB]
   \<and> allocDistance entryA entryB = dbl 0.05
   \<and> \<not> dbl 0.05 < allocDistance entryA entryB"
proof -
  have q: "entryA\<lparr>generation_e := 0\<rparr> = entryA" by (simp add: entryA_def Let_def)
  have s: "entryB\<lparr>generation_e := 1\<rparr> = entryB" by (simp add: entryB_def Let_def)
  have 1: "updateHallOfFame [] entryA 0 = [entryA]"
    by (simp add: updateHallOfFame_def admits_def isDuplicate_def q)
  have f: "fitness entryA = Fin 1" "fitness entryB = Fin 1"
    by (simp_all add: entryA_def entryB_def Let_def)
  have n: "\<not> dbl 0.05 < dbl 0.05" unfolding threshold_005 by simp
  have t: "mul64 (Fin 1) (dbl 0.95) < Fin 1" unfolding threshold_095 by simp
  have adm: "admits [entryA] entryB"
    using n t by (simp add: admits_def isDuplicate_def distance_entries f)
  have 2: "updateHallOfFame [entryA] entryB 1 = [entryA, entryB]"
    unfolding updateHallOfFame_def if_P[OF adm] s
    by (simp add: byFitnessDesc_def f minus_number_def)
  show ?thesis unfolding 1 2 using n by (simp add: distance_entries)
qed

section \<open>Champion fitness with fewer than twenty scenarios\<close>

lemma NaN_plus [simp]: "a + NaN = (NaN::number)" "NaN + a = (NaN::number)"
  by (cases a; simp)+

lemma NaN_times [simp]: "a * NaN = (NaN::number)" "NaN * a = (NaN::number)"
  by (cases a; simp)+

lemma computeFitness_NaN: "cvar95 (metrics sm) = NaN \<Longrightarrow> computeFitness sm w = NaN"
  by (simp add: computeFitness_def)

lemma evaluate_NaN:
  assumes "numScenarios adv < 20" "evaluate A world cfg adv allocs gen tag s t = Inr (p, s', t')"
  shows "fitness p = NaN"
proof -
  obtain sm sd where sm: "runMonteCarlo A (world t) \<lparr> allocations = normalize allocs \<rparr> adv (Some sd) = Inr sm"
      and p: "fitness p = computeFitness sm (fitnessWeights cfg)"
    using evaluate_result[OF assms(2)] by force
  show ?thesis unfolding p by (rule computeFitness_NaN[OF few_scenarios_cvar[OF assms(1) sm]])
qed

lemma elites_fitness: "map fitness (elites cfg pop gen) = map fitness (take (eliteCount cfg) pop)"
  by (simp add: elites_def comp_def)

lemma allNaN_step:
  assumes "allNaN g st" "generationStep A world cfg g st = Inr st'"
  shows "allNaN (Suc g) st'"
proof -
  let ?pop = "sort_by byFitnessDesc (population_s st)"
  from generationStep_result[OF assms(2)] obtain snp offspring where
    snp: "snapshot g ?pop = Inr snp" and
    fill: "fillLoop A world cfg (advConfig st) ?pop g (populationSize cfg - length (elites cfg ?pop g))
              (rng_s st) (tick_s st) = Inr (offspring, rng_s st', tick_s st')" and
    pop': "population_s st' = elites cfg ?pop g @ offspring" and
    hist: "history st' = history st @ [snp]" and
    adv: "advConfig st' = raisePressure cfg g (advConfig st)"
    by blast
  have n: "numScenarios (advConfig st) < 20" using assms(1) by (simp add: allNaN_def)
  have popNaN: "\<forall>p \<in> set ?pop. fitness p = NaN"
    using assms(1) by (simp add: allNaN_def sort_by_set list_all_iff)
  from snapshot_Inr[OF snp] have "?pop \<noteq> []" "best snp = hd ?pop" by simp_all
  then have b: "fitness (best snp) = NaN" using popNaN by simp
  have el: "\<forall>p \<in> set (elites cfg ?pop g). fitness p = NaN"
    using popNaN by (auto simp: elites_def dest: in_set_takeD)
  have off: "list_all (\<lambda>p. fitness p = NaN) offspring"
    using fillLoop_members[where P = "\<lambda>p. fitness p = NaN", OF _ fill] evaluate_NaN[OF n] by blast
  have "map (\<lambda>sn. fitness (best sn)) (history st') = replicate (Suc g) NaN"
    using assms(1) b by (simp add: hist allNaN_def replicate_append_same)
  then show ?thesis
    using n el off by (auto simp: allNaN_def adv pop' list_all_iff)
qed

lemma few_scenarios_all_NaN:
  assumes "numScenarios (simConfig cfg) < 20" "evolvePortfolio A world sp cfg = Inr res"
  shows "map (\<lambda>sn. fitness (best sn)) (generations_r res) = replicate (Suc (generations cfg)) NaN"
proof -
  from assms(2) obtain st where st: "stateAfter A world sp cfg (generations cfg) = Inr st"
    by (cases "stateAfter A world sp cfg (generations cfg)") (simp_all add: evolvePortfolio_stateAfter)
  let ?pop = "sort_by byFitnessDesc (population_s st)"
  from assms(2) st obtain snp where snp: "snapshot (generations cfg) ?pop = Inr snp"
    by (cases "snapshot (generations cfg) ?pop") (simp_all add: evolvePortfolio_stateAfter)
  from assms(2) have res: "generations_r res = history st @ [snp]"
    by (auto simp: evolvePortfolio_stateAfter st snp)
  from st obtain pop0 s t where ip: "initialPopulation A world sp cfg = Inr (pop0, s, t)"
    and loop: "evolveLoop A world cfg (generations cfg) 0 \<lparr> population_s = pop0, hall = [], history = [],
              advConfig = adversarialSimConfig cfg, rng_s = s, tick_s = t \<rparr> = Inr st"
    by (auto simp: stateAfter_def split: sum.splits)
  have n: "numScenarios (adversarialSimConfig cfg) < 20" using assms(1) by simp
  have "list_all (\<lambda>p. fitness p = NaN) pop0"
    using initLoop_members[where P = "\<lambda>p. fitness p = NaN", OF _ ip[unfolded initialPopulation_def]]
      evaluate_NaN[OF n] by blast
  then have init: "allNaN 0 \<lparr> population_s = pop0, hall = [], history = [],
              advConfig = adversarialSimConfig cfg, rng_s = s, tick_s = t \<rparr>"
    using n by (simp add: allNaN_def)
  have fin: "allNaN (0 + generations cfg) st"
    by (rule evolveLoop_invariant[OF loop, where I = allNaN, OF init]) (rule allNaN_step)
  then have popNaN: "\<forall>p \<in> set ?pop. fitness p = NaN"
    by (simp add: allNaN_def sort_by_set list_all_iff)
  from snapshot_Inr[OF snp] have "?pop \<noteq> []" "best snp = hd ?pop" by simp_all
  then have "fitness (best snp) = NaN" using popNaN by simp
  then show ?thesis using fin by (simp add: res allNaN_def replicate_append_same)
qed

text \<open>
  Claim C6 at ten scenarios per simulation. Every \<open>cvar95\<close> is \<open>NaN\<close> (lemma
  \<open>few_scenarios_cvar\<close>), so every fitness is \<open>NaN\<close>, and so is the best fitness of
  every snapshot; \<open>NaN >= NaN\<close> is false. (On valid input with twenty scenarios or more
  the best fitness never decreases, lemma \<open>best_fitness_monotone_valid\<close>.)
\<close>

theorem best_fitness_NaN_at_10:
  "map_sum id (\<lambda>res. map (\<lambda>sn. fitness (best sn)) (generations_r res))
     (evolvePortfolio exampleAssumptions exampleWorld balanced (exampleEvolution 10))
   = Inr [NaN, NaN, NaN, NaN]
   \<and> \<not> (NaN \<le> (NaN::number))"
proof -
  obtain res where res: "evolvePortfolio exampleAssumptions exampleWorld balanced (exampleEvolution 10) = Inr res"
    using evolvePortfolio_Inr[OF runnable_example] by blast
  have "numScenarios (simConfig (exampleEvolution 10)) < 20"
    by (simp add: exampleEvolution_def exampleConfig_def)
  from few_scenarios_all_NaN[OF this res]
  have "map (\<lambda>sn. fitness (best sn)) (generations_r res) = [NaN, NaN, NaN, NaN]"
    by (simp add: exampleEvolution_def numeral_eq_Suc)
  then show ?thesis unfolding res by simp
qed

section \<open>Elitism\<close>

lemma sorted_head_max:
  assumes "\<forall>p \<in> set pop. fitness p \<noteq> NaN" "p \<in> set (sort_by byFitnessDesc pop)"
  shows "fitness p \<le> fitness (hd (sort_by byFitnessDesc pop))"
proof -
  let ?s = "sort_by byFitnessDesc pop"
  have srt: "sorted_wrt (\<lambda>a b. fitness b \<le> fitness a) ?s"
    unfolding byFitnessDesc_eq by (rule sort_desc_sorted[OF assms(1)])
  from assms(2) obtain b rest where s: "?s = b # rest" by (cases ?s) auto
  have "p = b \<or> p \<in> set rest" using assms(2) s by simp
  then show ?thesis
  proof
    assume "p = b"
    moreover have "fitness b \<noteq> NaN" using assms(1) s sort_by_set[of byFitnessDesc pop] by auto
    ultimately show ?thesis using s by (simp add: number_le_refl)
  next
    assume "p \<in> set rest"
    then show ?thesis using srt s by simp
  qed
qed

lemma nonDecreasing_snoc:
  assumes "nonDecreasing h"
    and "h \<noteq> [] \<Longrightarrow> \<forall>p \<in> set (population snp). fitness p \<noteq> NaN
           \<Longrightarrow> fitness (best (last h)) \<le> fitness (best snp)"
  shows "nonDecreasing (h @ [snp])"
  unfolding nonDecreasing_def
proof (intro allI impI)
  fix i
  assume i: "Suc i < length (h @ [snp])"
    and nn: "\<forall>p \<in> set (population ((h @ [snp]) ! Suc i)). fitness p \<noteq> NaN"
  show "fitness (best ((h @ [snp]) ! i)) \<le> fitness (best ((h @ [snp]) ! Suc i))"
  proof (cases "Suc i < length h")
    case True
    then show ?thesis using assms(1) nn by (simp add: nonDecreasing_def nth_append)
  next
    case False
    then have eq: "Suc i = length h" using i by simp
    then have ne: "h \<noteq> []" by auto
    have 1: "(h @ [snp]) ! Suc i = snp" using eq by (simp add: nth_append)
    have "i = length h - 1" using eq by simp
    then have 2: "(h @ [snp]) ! i = last h" using eq ne by (simp add: nth_append last_conv_nth)
    show ?thesis using assms(2)[OF ne] nn unfolding 1 2 by simp
  qed
qed

lemma elite_carries_best:
  assumes "1 \<le> eliteCount cfg" "pop \<noteq> []"
  shows "\<exists>p \<in> set (elites cfg pop gen @ offspring). fitness p = fitness (hd pop)"
proof -
  obtain b rest where pop: "pop = b # rest" using assms(2) by (cases pop) auto
  obtain e where e: "eliteCount cfg = Suc e" using assms(1) by (cases "eliteCount cfg") auto
  show ?thesis by (simp add: elites_def pop e)
qed

lemma carried_step:
  assumes el: "1 \<le> eliteCount cfg" and c: "carried g st"
    and step: "generationStep A world cfg g st = Inr st'"
  shows "carried (Suc g) st'"
proof -
  let ?pop = "sort_by byFitnessDesc (population_s st)"
  from generationStep_result[OF step] obtain snp offspring where
    snp: "snapshot g ?pop = Inr snp" and
    pop': "population_s st' = elites cfg ?pop g @ offspring" and
    hist: "history st' = history st @ [snp]"
    by blast
  from snapshot_Inr[OF snp] have sn: "?pop \<noteq> []" "best snp = hd ?pop" "population snp = ?pop"
    by simp_all
  have nd: "nonDecreasing (history st @ [snp])"
  proof (rule nonDecreasing_snoc)
    show "nonDecreasing (history st)" using c by (simp add: carried_def)
  next
    assume ne: "history st \<noteq> []" and nn: "\<forall>p \<in> set (population snp). fitness p \<noteq> NaN"
    then obtain p where p: "p \<in> set (population_s st)" "fitness p = fitness (best (last (history st)))"
      using c by (auto simp: carried_def)
    have nn': "\<forall>p \<in> set (population_s st). fitness p \<noteq> NaN" using nn by (simp add: sn(3) sort_by_set)
    have "p \<in> set ?pop" using p(1) by (simp add: sort_by_set)
    from sorted_head_max[OF nn' this] show "fitness (best (last (history st))) \<le> fitness (best snp)"
      by (simp add: p(2) sn(2))
  qed
  have "\<exists>p \<in> set (population_s st'). fitness p = fitness (best (last (history st')))"
    using elite_carries_best[OF el sn(1)] by (simp add: pop' hist sn(2))
  then show ?thesis using nd by (simp add: carried_def hist)
qed

lemma best_fitness_monotone:
  assumes el: "1 \<le> eliteCount cfg" and res: "evolvePortfolio A world sp cfg = Inr res"
  shows "nonDecreasing (generations_r res)"
proof -
  from res obtain st where st: "stateAfter A world sp cfg (generations cfg) = Inr st"
    by (cases "stateAfter A world sp cfg (generations cfg)") (simp_all add: evolvePortfolio_stateAfter)
  let ?pop = "sort_by byFitnessDesc (population_s st)"
  from res st obtain snp where snp: "snapshot (generations cfg) ?pop = Inr snp"
    by (cases "snapshot (generations cfg) ?pop") (simp_all add: evolvePortfolio_stateAfter)
  from res have gens: "generations_r res = history st @ [snp]"
    by (auto simp: evolvePortfolio_stateAfter st snp)
  from st obtain pop0 s t where
    loop: "evolveLoop A world cfg (generations cfg) 0 \<lparr> population_s = pop0, hall = [], history = [],
              advConfig = adversarialSimConfig cfg, rng_s = s, tick_s = t \<rparr> = Inr st"
    by (auto simp: stateAfter_def split: sum.splits)
  have init: "carried 0 \<lparr> population_s = pop0, hall = [], history = [],
              advConfig = adversarialSimConfig cfg, rng_s = s, tick_s = t \<rparr>"
    by (simp add: carried_def nonDecreasing_def)
  have c: "carried (0 + generations cfg) st"
    by (rule evolveLoop_invariant[OF loop, where I = carried, OF init]) (rule carried_step[OF el])
  from snapshot_Inr[OF snp] have sn: "?pop \<noteq> []" "best snp = hd ?pop" "population snp = ?pop"
    by simp_all
  show ?thesis unfolding gens
  proof (rule nonDecreasing_snoc)
    show "nonDecreasing (history st)" using c by (simp add: carried_def)
  next
    assume ne: "history st \<noteq> []" and nn: "\<forall>p \<in> set (population snp). fitness p \<noteq> NaN"
    then obtain p where p: "p \<in> set (population_s st)" "fitness p = fitness (best (last (history st)))"
      using c by (auto simp: carried_def)
    have nn': "\<forall>p \<in> set (population_s st). fitness p \<noteq> NaN" using nn by (simp add: sn(3) sort_by_set)
    have "p \<in> set ?pop" using p(1) by (simp add: sort_by_set)
    from sorted_head_max[OF nn' this] show "fitness (best (last (history st))) \<le> fitness (best snp)"
      by (simp add: p(2) sn(2))
  qed
qed

section \<open>A simulation with no regime enabled\<close>

text \<open>
  With an empty \<open>regimesEnabled\<close> the cumulative table is empty and sampling a regime
  reads \<open>cdf[cdf.length - 1].regime\<close> of \<open>undefined\<close>.
\<close>

lemma no_regimes_throws:
  assumes "regimesEnabled cfg = []" "1 \<le> numScenarios cfg"
  shows "runMonteCarlo A amb pf cfg sd = Inl TypeError"
proof -
  obtain n where n: "numScenarios cfg = Suc n" using assms(2) by (cases "numScenarios cfg") auto
  have "\<And>s. genScenario (regimes A) [] s = Inl TypeError"
    by (simp add: genScenario_def sampleRegime_def Let_def split: prod.splits)
  then show ?thesis
    by (simp add: runMonteCarlo_def generateScenarios_def assms(1) n Let_def)
qed


end
